theory Spec2Isabelle
  imports Main "HOL-Library.Word"
begin

section \<open>Data model of main.c\<close>

text \<open>
  The simulator keeps its whole state in globals. Orders live in one block allocated by
  \<open>setup\<close>; a pointer to an order is modelled by the index of its slot in that block, and
  the block itself by the store \<open>pool\<close>. \<open>NULL\<close> is \<open>None\<close>.
\<close>

type_synonym u32 = "32 word"
type_synonym u64 = "64 word"
type_synonym ref = nat

record limitOrder =
  lo_size :: u32
  lo_p :: u32
  lo_expirationTime :: u64
  lo_next :: "ref option"
  lo_user :: bool

text \<open>
  \<open>freeLimitOrders\<close> holds the live part of the C array (its first
  \<open>numFreeLimitOrders\<close> entries) as a stack, top first: the entry the next
  \<open>addLimitOrder\<close> pops is the head of the list. \<open>userLimitOrders\<close> holds the first
  \<open>numUserLimitOrders\<close> entries of that array in index order. \<open>balance\<close> and
  \<open>sharesOpen\<close> are C \<open>int\<close>s that are only ever combined with \<open>u32\<close> operands, so
  the arithmetic is modular on 32 bits; \<open>sint\<close> reads their signed value.
\<close>

record book =
  pool :: "ref \<Rightarrow> limitOrder"
  freeLimitOrders :: "ref list"
  limitOrderHead :: "u32 \<Rightarrow> ref option"
  bid :: u32
  ask :: u32
  userLimitOrders :: "ref list"
  balance :: "32 word"
  sharesOpen :: "32 word"
  fillTiesInStackOrder :: bool
  realisticUserMarketOrders :: bool

definition NUM_PRICES :: u32 where
  "NUM_PRICES = 100000"

definition MAX_NUM_USER_LIMIT_ORDERS :: nat where
  "MAX_NUM_USER_LIMIT_ORDERS = 100"

definition UINT_MAX :: u32 where
  "UINT_MAX = - 1"

definition ULLONG_MAX :: u64 where
  "ULLONG_MAX = - 1"

text \<open>
  The ways a call can end without returning: the five \<open>exit(1)\<close> calls, named after the
  message each prints, and an access outside \<open>limitOrderHead\<close> or \<open>userLimitOrders\<close>,
  which the C code does not check.
\<close>

datatype fault =
    RanOutOfFreeLimitOrders
  | DeletedAllLimitBuyOrders
  | DeletedAllLimitSellOrders
  | FilledAllBuyLimitOrders
  | FilledAllSellLimitOrders
  | OutOfBounds

section \<open>updateLimitOrders\<close>

text \<open>
  The first \<open>while\<close> loop of \<open>updateLimitOrders\<close>: expired orders at the head of the
  level. It returns the first order that stays, or \<open>None\<close> when the function returns
  from inside the loop. A loop that follows \<open>next\<close> pointers need not end on a store
  with a cycle, so these loops are partial functions: not returning is the value \<open>None\<close>.
\<close>

partial_function (option) updateLimitOrders_head ::
  "u32 \<Rightarrow> u64 \<Rightarrow> ref \<Rightarrow> book \<Rightarrow> (ref option \<times> book) option" where
  "updateLimitOrders_head p t cur s =
     (if lo_expirationTime (pool s cur) \<le> t then
        (let s' = s\<lparr>freeLimitOrders := cur # freeLimitOrders s,
                    limitOrderHead := (limitOrderHead s)(p := lo_next (pool s cur))\<rparr>
         in case lo_next (pool s cur) of
              None \<Rightarrow> Some (None, s')
            | Some c \<Rightarrow> updateLimitOrders_head p t c s')
      else Some (Some cur, s))"

declare updateLimitOrders_head.simps [code]

text \<open>The second loop: expired orders behind an order that stays.\<close>

partial_function (option) updateLimitOrders_rest ::
  "u64 \<Rightarrow> ref \<Rightarrow> book \<Rightarrow> book option" where
  "updateLimitOrders_rest t cur s =
     (case lo_next (pool s cur) of
        None \<Rightarrow> Some s
      | Some n \<Rightarrow>
          if lo_expirationTime (pool s n) \<le> t then
            updateLimitOrders_rest t cur
              (s\<lparr>freeLimitOrders := n # freeLimitOrders s,
                 pool := (pool s)(cur := (pool s cur)\<lparr>lo_next := lo_next (pool s n)\<rparr>)\<rparr>)
          else updateLimitOrders_rest t n s)"

declare updateLimitOrders_rest.simps [code]

definition updateLimitOrders :: "u32 \<Rightarrow> u64 \<Rightarrow> book \<Rightarrow> (fault + book) option" where
  "updateLimitOrders p t s =
     (if NUM_PRICES \<le> p then Some (Inl OutOfBounds)
      else case limitOrderHead s p of
             None \<Rightarrow> Some (Inr s)
           | Some c \<Rightarrow>
               (case updateLimitOrders_head p t c s of
                  None \<Rightarrow> None
                | Some (None, s') \<Rightarrow> Some (Inr s')
                | Some (Some c', s') \<Rightarrow> map_option Inr (updateLimitOrders_rest t c' s')))"

section \<open>Word arithmetic used by the loops over prices\<close>

lemma word_less_not_max: "(x::'a::len word) < y \<Longrightarrow> x + 1 \<noteq> 0"
proof
  assume a: "x < y" and b: "x + 1 = 0"
  from b have "x = - 1" by (simp add: eq_neg_iff_add_eq_0)
  with a show False by simp
qed

lemma word_succ_unat: "(x::'a::len word) < y \<Longrightarrow> unat (x + 1) = Suc (unat x)"
  using unatSuc [of x] word_less_not_max [of x y] by (simp add: add.commute)

lemma word_pred_less: "(x::'a::len word) \<noteq> 0 \<Longrightarrow> unat (x - 1) < unat x"
  by (simp add: unat_minus_one unat_gt_0)

lemma word_pred_max: "(x::'a::len word) - 1 = - 1 \<longleftrightarrow> x = 0"
  by auto

section \<open>updateBidAndAsk\<close>

function updateBid :: "book \<Rightarrow> fault + book" where
  "updateBid s =
     (if NUM_PRICES \<le> bid s then Inl OutOfBounds
      else if limitOrderHead s (bid s) = None then
        (if bid s - 1 = UINT_MAX then Inl DeletedAllLimitBuyOrders
         else updateBid (s\<lparr>bid := bid s - 1\<rparr>))
      else Inr s)"
  by pat_completeness auto
termination
proof (relation "measure (\<lambda>s. unat (bid s))")
  show "wf (measure (\<lambda>s. unat (bid s)))" by simp
next
  fix s :: book
  assume "bid s - 1 \<noteq> UINT_MAX"
  then have "bid s \<noteq> 0" by (simp add: UINT_MAX_def)
  then have "unat (bid s - 1) < unat (bid s)" by (rule word_pred_less)
  then show "(s\<lparr>bid := bid s - 1\<rparr>, s) \<in> measure (\<lambda>s. unat (bid s))" by simp
qed

declare updateBid.simps [simp del]

function updateAsk :: "book \<Rightarrow> fault + book" where
  "updateAsk s =
     (if NUM_PRICES \<le> ask s then Inl OutOfBounds
      else if limitOrderHead s (ask s) = None then
        (if NUM_PRICES \<le> ask s + 1 then Inl DeletedAllLimitSellOrders
         else updateAsk (s\<lparr>ask := ask s + 1\<rparr>))
      else Inr s)"
  by pat_completeness auto
termination
proof (relation "measure (\<lambda>s. unat NUM_PRICES - unat (ask s))")
  show "wf (measure (\<lambda>s. unat NUM_PRICES - unat (ask s)))" by simp
next
  fix s :: book
  assume "\<not> NUM_PRICES \<le> ask s"
  then have lt: "ask s < NUM_PRICES" by simp
  then have "unat (ask s + 1) = Suc (unat (ask s))" by (rule word_succ_unat)
  moreover from lt have "unat (ask s) < unat NUM_PRICES" by (simp add: word_less_nat_alt)
  ultimately show "(s\<lparr>ask := ask s + 1\<rparr>, s) \<in> measure (\<lambda>s. unat NUM_PRICES - unat (ask s))"
    by simp
qed

declare updateAsk.simps [simp del]

definition updateBidAndAsk :: "book \<Rightarrow> fault + book" where
  "updateBidAndAsk s = (case updateBid s of Inl f \<Rightarrow> Inl f | Inr s' \<Rightarrow> updateAsk s')"

section \<open>addLimitOrder\<close>

text \<open>The walk to the last order of a level: \<open>while (curr->next != NULL) curr = curr->next\<close>.\<close>

partial_function (option) lastLimitOrder :: "(ref \<Rightarrow> limitOrder) \<Rightarrow> ref \<Rightarrow> ref option" where
  "lastLimitOrder h cur =
     (case lo_next (h cur) of None \<Rightarrow> Some cur | Some n \<Rightarrow> lastLimitOrder h n)"

declare lastLimitOrder.simps [code]

text \<open>
  \<open>addLimitOrder\<close> exits when the free list is empty. Writing entry
  \<open>numUserLimitOrders\<close> of \<open>userLimitOrders\<close> when the array of
  \<open>MAX_NUM_USER_LIMIT_ORDERS\<close> entries is full, and reading \<open>limitOrderHead[p]\<close> for a
  price outside the array, are the unchecked accesses.
\<close>

definition addLimitOrder ::
  "u32 \<Rightarrow> u32 \<Rightarrow> u64 \<Rightarrow> bool \<Rightarrow> book \<Rightarrow> (fault + book) option" where
  "addLimitOrder p sz expiration usr s =
     (case freeLimitOrders s of
        [] \<Rightarrow> Some (Inl RanOutOfFreeLimitOrders)
      | lo # fr \<Rightarrow>
          if (usr \<and> MAX_NUM_USER_LIMIT_ORDERS \<le> length (userLimitOrders s)) \<or> NUM_PRICES \<le> p
          then Some (Inl OutOfBounds)
          else
            (let s1 = s\<lparr>freeLimitOrders := fr,
                        pool := (pool s)(lo := \<lparr>lo_size = sz, lo_p = p,
                                  lo_expirationTime = expiration, lo_next = None,
                                  lo_user = usr\<rparr>),
                        userLimitOrders :=
                          (if usr then userLimitOrders s @ [lo] else userLimitOrders s)\<rparr>
             in case limitOrderHead s1 p of
                  None \<Rightarrow> Some (Inr (s1\<lparr>limitOrderHead := (limitOrderHead s1)(p := Some lo)\<rparr>))
                | Some cur \<Rightarrow>
                    if fillTiesInStackOrder s1 then
                      Some (Inr (s1\<lparr>pool := (pool s1)(lo := (pool s1 lo)\<lparr>lo_next := Some cur\<rparr>),
                                    limitOrderHead := (limitOrderHead s1)(p := Some lo)\<rparr>))
                    else
                      (case lastLimitOrder (pool s1) cur of
                         None \<Rightarrow> None
                       | Some l \<Rightarrow>
                           Some (Inr (s1\<lparr>pool := (pool s1)(l := (pool s1 l)\<lparr>lo_next := Some lo\<rparr>)\<rparr>)))))"

section \<open>fillOrders\<close>

text \<open>
  The ledger update that the two branches of \<open>fillOrders\<close> make for a user's order:
  \<open>q\<close> shares at price \<open>p\<close>. \<open>isSell\<close> says that the market order sells, so the
  resting order is a buy.
\<close>

definition ledgerFill :: "bool \<Rightarrow> u32 \<Rightarrow> u32 \<Rightarrow> book \<Rightarrow> book" where
  "ledgerFill isSell q p s =
     (if isSell then s\<lparr>balance := balance s - q * p, sharesOpen := sharesOpen s + q\<rparr>
      else s\<lparr>balance := balance s + q * p, sharesOpen := sharesOpen s - q\<rparr>)"

text \<open>
  The loop that deletes the user's limit order: the first entry equal to \<open>cur\<close> is
  removed and the entries behind it move down by one.
\<close>

fun deleteUserLimitOrder :: "ref \<Rightarrow> ref list \<Rightarrow> ref list" where
  "deleteUserLimitOrder cur [] = []"
| "deleteUserLimitOrder cur (u # us) =
     (if u = cur then us else u # deleteUserLimitOrder cur us)"

text \<open>The branch "Completely fill the limit order and remove it".\<close>

definition fillCompletely :: "u32 \<Rightarrow> bool \<Rightarrow> ref \<Rightarrow> book \<Rightarrow> book" where
  "fillCompletely p isSell cur s =
     (let q = lo_size (pool s cur);
          s1 = s\<lparr>freeLimitOrders := cur # freeLimitOrders s\<rparr>;
          s2 = (if lo_user (pool s1 cur) then
                  (let s' = ledgerFill isSell q p s1
                   in s'\<lparr>userLimitOrders := deleteUserLimitOrder cur (userLimitOrders s')\<rparr>)
                else s1)
      in s2\<lparr>limitOrderHead := (limitOrderHead s2)(p := lo_next (pool s2 cur))\<rparr>)"

text \<open>The branch "Partially fill the limit order".\<close>

definition fillPartially :: "u32 \<Rightarrow> u32 \<Rightarrow> bool \<Rightarrow> ref \<Rightarrow> book \<Rightarrow> book" where
  "fillPartially p sz isSell cur s =
     (let s1 = s\<lparr>pool := (pool s)(cur := (pool s cur)\<lparr>lo_size := lo_size (pool s cur) - sz\<rparr>)\<rparr>
      in if lo_user (pool s1 cur) then ledgerFill isSell sz p s1 else s1)"

text \<open>
  The \<open>for\<close> loop of \<open>fillOrders\<close>. \<open>sz\<close> and \<open>ou\<close> are the values behind the pointers
  \<open>size\<close> and \<open>o\<close>; the loop returns their final values with the state.
\<close>

partial_function (option) fillOrders_loop ::
  "u32 \<Rightarrow> bool \<Rightarrow> ref option \<Rightarrow> u32 \<Rightarrow> u32 \<Rightarrow> book \<Rightarrow> (u32 \<times> u32 \<times> book) option" where
  "fillOrders_loop p isSell cur sz ou s =
     (case cur of
        None \<Rightarrow> Some (sz, ou, s)
      | Some c \<Rightarrow>
          (let q = lo_size (pool s c) in
           if q \<le> sz then
             (let s' = fillCompletely p isSell c s
              in fillOrders_loop p isSell (lo_next (pool s' c)) (sz - q) (ou + q * p) s')
           else Some (0, ou + sz * p, fillPartially p sz isSell c s)))"

declare fillOrders_loop.simps [code]

definition fillOrders ::
  "u32 \<Rightarrow> u32 \<Rightarrow> u32 \<Rightarrow> bool \<Rightarrow> book \<Rightarrow> (fault + u32 \<times> u32 \<times> book) option" where
  "fillOrders p sz ou isSell s =
     (if NUM_PRICES \<le> p then Some (Inl OutOfBounds)
      else map_option Inr (fillOrders_loop p isSell (limitOrderHead s p) sz ou s))"

section \<open>marketSell and marketBuy\<close>

text \<open>
  The loops over prices, with the loop variable \<open>p\<close>, the remaining size and the sum
  \<open>ou\<close> as arguments. They return the sum and the state.
\<close>

function marketSell_loop ::
  "u32 \<Rightarrow> u64 \<Rightarrow> u32 \<Rightarrow> u32 \<Rightarrow> book \<Rightarrow> (fault + u32 \<times> book) option" where
  "marketSell_loop p t sz ou s =
     (if 0 < sz then
        (if p = UINT_MAX then Some (Inl FilledAllBuyLimitOrders)
         else if NUM_PRICES \<le> p then Some (Inl OutOfBounds)
         else if limitOrderHead s p = None then marketSell_loop (p - 1) t sz ou s
         else
           (case updateLimitOrders p t (s\<lparr>bid := p\<rparr>) of
              None \<Rightarrow> None
            | Some (Inl f) \<Rightarrow> Some (Inl f)
            | Some (Inr s1) \<Rightarrow>
                (case fillOrders p sz ou True s1 of
                   None \<Rightarrow> None
                 | Some (Inl f) \<Rightarrow> Some (Inl f)
                 | Some (Inr (sz', ou', s2)) \<Rightarrow> marketSell_loop (p - 1) t sz' ou' s2)))
      else Some (Inr (ou, s)))"
  by pat_completeness auto
termination
proof (relation "measure (\<lambda>(p, t, sz, ou, s). unat (p + 1))")
  show "wf (measure (\<lambda>(p :: u32, t :: u64, sz :: u32, ou :: u32, s :: book). unat (p + 1)))"
    by simp
next
  fix p :: u32 and t :: u64 and sz ou :: u32 and s :: book
  assume "p \<noteq> UINT_MAX"
  then have "p + 1 \<noteq> 0" by (simp add: UINT_MAX_def eq_neg_iff_add_eq_0)
  then have "unat (p + 1 - 1) < unat (p + 1)" by (rule word_pred_less)
  then show "((p - 1, t, sz, ou, s), p, t, sz, ou, s)
      \<in> measure (\<lambda>(p, t, sz, ou, s). unat (p + 1))" by simp
next
  fix p :: u32 and t :: u64 and sz ou sz' ou' :: u32 and s s2 :: book
  assume "p \<noteq> UINT_MAX"
  then have "p + 1 \<noteq> 0" by (simp add: UINT_MAX_def eq_neg_iff_add_eq_0)
  then have "unat (p + 1 - 1) < unat (p + 1)" by (rule word_pred_less)
  then show "((p - 1, t, sz', ou', s2), p, t, sz, ou, s)
      \<in> measure (\<lambda>(p, t, sz, ou, s). unat (p + 1))" by simp
qed

declare marketSell_loop.simps [simp del]

definition marketSell :: "u32 \<Rightarrow> u64 \<Rightarrow> book \<Rightarrow> (fault + u32 \<times> book) option" where
  "marketSell sz t s = marketSell_loop (bid s) t sz 0 s"

function marketBuy_loop ::
  "u32 \<Rightarrow> u64 \<Rightarrow> u32 \<Rightarrow> u32 \<Rightarrow> book \<Rightarrow> (fault + u32 \<times> book) option" where
  "marketBuy_loop p t sz ou s =
     (if 0 < sz then
        (if NUM_PRICES \<le> p then Some (Inl FilledAllSellLimitOrders)
         else if limitOrderHead s p = None then marketBuy_loop (p + 1) t sz ou s
         else
           (case updateLimitOrders p t (s\<lparr>ask := p\<rparr>) of
              None \<Rightarrow> None
            | Some (Inl f) \<Rightarrow> Some (Inl f)
            | Some (Inr s1) \<Rightarrow>
                (case fillOrders p sz ou False s1 of
                   None \<Rightarrow> None
                 | Some (Inl f) \<Rightarrow> Some (Inl f)
                 | Some (Inr (sz', ou', s2)) \<Rightarrow> marketBuy_loop (p + 1) t sz' ou' s2)))
      else Some (Inr (ou, s)))"
  by pat_completeness auto
termination
proof (relation "measure (\<lambda>(p, t, sz, ou, s). unat NUM_PRICES - unat p)")
  show "wf (measure (\<lambda>(p :: u32, t :: u64, sz :: u32, ou :: u32, s :: book).
      unat NUM_PRICES - unat p))"
    by simp
next
  fix p :: u32 and t :: u64 and sz ou :: u32 and s :: book
  assume "\<not> NUM_PRICES \<le> p"
  then have lt: "p < NUM_PRICES" by simp
  then have "unat (p + 1) = Suc (unat p)" by (rule word_succ_unat)
  moreover from lt have "unat p < unat NUM_PRICES" by (simp add: word_less_nat_alt)
  ultimately show "((p + 1, t, sz, ou, s), p, t, sz, ou, s)
      \<in> measure (\<lambda>(p, t, sz, ou, s). unat NUM_PRICES - unat p)" by simp
next
  fix p :: u32 and t :: u64 and sz ou sz' ou' :: u32 and s s2 :: book
  assume "\<not> NUM_PRICES \<le> p"
  then have lt: "p < NUM_PRICES" by simp
  then have "unat (p + 1) = Suc (unat p)" by (rule word_succ_unat)
  moreover from lt have "unat p < unat NUM_PRICES" by (simp add: word_less_nat_alt)
  ultimately show "((p + 1, t, sz', ou', s2), p, t, sz, ou, s)
      \<in> measure (\<lambda>(p, t, sz, ou, s). unat NUM_PRICES - unat p)" by simp
qed

declare marketBuy_loop.simps [simp del]

definition marketBuy :: "u32 \<Rightarrow> u64 \<Rightarrow> book \<Rightarrow> (fault + u32 \<times> book) option" where
  "marketBuy sz t s = marketBuy_loop (ask s) t sz 0 s"

section \<open>Setting up the pool and the market\<close>

text \<open>
  \<open>setupBook\<close> is the function \<open>setup\<close> of main.c. It clears the heads, allocates \<open>poolSize\<close> zeroed orders and puts every slot on
  the free list, slot \<open>i\<close> at index \<open>i\<close>, so that the last slot is popped first. The two
  settings \<open>fillTiesInStackOrder\<close> and \<open>realisticUserMarketOrders\<close> are globals that no
  function writes; they are arguments here. The seed is not part of the model: every
  value the code draws from \<open>rd\<close>, \<open>rl\<close> and \<open>random\<close> is an argument of the function
  that uses it.
\<close>

definition setupBook :: "nat \<Rightarrow> bool \<Rightarrow> bool \<Rightarrow> book" where
  "setupBook poolSize stackOrder realistic =
     \<lparr>pool = (\<lambda>_. \<lparr>lo_size = 0, lo_p = 0, lo_expirationTime = 0, lo_next = None,
                     lo_user = False\<rparr>),
      freeLimitOrders = rev [0..<poolSize],
      limitOrderHead = (\<lambda>_. None),
      bid = 0, ask = UINT_MAX, userLimitOrders = [], balance = 0, sharesOpen = 0,
      fillTiesInStackOrder = stackOrder, realisticUserMarketOrders = realistic\<rparr>"

text \<open>
  The inner loop of \<open>setupMarket\<close>: ten orders at price \<open>p\<close>. \<open>life p k\<close> is the
  lifespan drawn for order \<open>k\<close> at price \<open>p\<close>, and \<open>sz\<close> is \<open>averageMarketOrderSize\<close>
  converted to \<open>u32\<close>.
\<close>

function setupMarket_orders ::
  "nat \<Rightarrow> u32 \<Rightarrow> u32 \<Rightarrow> u64 \<Rightarrow> (u32 \<Rightarrow> nat \<Rightarrow> u64) \<Rightarrow> book \<Rightarrow> (fault + book) option" where
  "setupMarket_orders k p sz startingTime life s =
     (if k < 10 then
        (case addLimitOrder p sz (startingTime + life p k) False s of
           None \<Rightarrow> None
         | Some (Inl f) \<Rightarrow> Some (Inl f)
         | Some (Inr s') \<Rightarrow> setupMarket_orders (Suc k) p sz startingTime life s')
      else Some (Inr s))"
  by pat_completeness auto
termination
  by (relation "measure (\<lambda>(k, p, sz, startingTime, life, s). 10 - k)") auto

declare setupMarket_orders.simps [simp del]

lemma addLimitOrder_in_range:
  "addLimitOrder p sz e usr s = Some (Inr s') \<Longrightarrow> p < NUM_PRICES"
  by (auto simp: addLimitOrder_def Let_def split: list.splits if_splits)

lemma setupMarket_orders_in_range:
  "setupMarket_orders 0 p sz t0 life s = Some (Inr s') \<Longrightarrow> p < NUM_PRICES"
  by (subst (asm) setupMarket_orders.simps)
     (auto split: option.splits sum.splits dest: addLimitOrder_in_range)

text \<open>The loop "Generate limit orders from the bid going down", from \<open>p\<close> while \<open>p >= lo\<close>.\<close>

function setupMarket_down ::
  "u32 \<Rightarrow> u32 \<Rightarrow> u32 \<Rightarrow> u64 \<Rightarrow> (u32 \<Rightarrow> nat \<Rightarrow> u64) \<Rightarrow> book \<Rightarrow> (fault + book) option" where
  "setupMarket_down p lo sz startingTime life s =
     (if lo \<le> p then
        (case setupMarket_orders 0 p sz startingTime life s of
           None \<Rightarrow> None
         | Some (Inl f) \<Rightarrow> Some (Inl f)
         | Some (Inr s') \<Rightarrow> setupMarket_down (p - 1) lo sz startingTime life s')
      else Some (Inr s))"
  by pat_completeness auto
termination
proof (relation "measure (\<lambda>(p, lo, sz, startingTime, life, s). unat (p + 1))")
  show "wf (measure (\<lambda>(p :: u32, lo :: u32, sz :: u32, startingTime :: u64,
      life :: u32 \<Rightarrow> nat \<Rightarrow> u64, s :: book). unat (p + 1)))"
    by simp
next
  fix p lo sz :: u32 and startingTime :: u64 and life :: "u32 \<Rightarrow> nat \<Rightarrow> u64"
    and s s' :: book and r :: "fault + book"
  assume "setupMarket_orders 0 p sz startingTime life s = Some r" and "r = Inr s'"
  then have "p < NUM_PRICES" by (simp add: setupMarket_orders_in_range)
  then have "p + 1 \<noteq> 0" by (rule word_less_not_max)
  then have "unat (p + 1 - 1) < unat (p + 1)" by (rule word_pred_less)
  then show "((p - 1, lo, sz, startingTime, life, s'), p, lo, sz, startingTime, life, s)
      \<in> measure (\<lambda>(p, lo, sz, startingTime, life, s). unat (p + 1))" by simp
qed

declare setupMarket_down.simps [simp del]

text \<open>The loop "Generate limit orders from the ask going up", from \<open>p\<close> while \<open>p <= hi\<close>.\<close>

function setupMarket_up ::
  "u32 \<Rightarrow> u32 \<Rightarrow> u32 \<Rightarrow> u64 \<Rightarrow> (u32 \<Rightarrow> nat \<Rightarrow> u64) \<Rightarrow> book \<Rightarrow> (fault + book) option" where
  "setupMarket_up p hi sz startingTime life s =
     (if p \<le> hi then
        (case setupMarket_orders 0 p sz startingTime life s of
           None \<Rightarrow> None
         | Some (Inl f) \<Rightarrow> Some (Inl f)
         | Some (Inr s') \<Rightarrow> setupMarket_up (p + 1) hi sz startingTime life s')
      else Some (Inr s))"
  by pat_completeness auto
termination
proof (relation "measure (\<lambda>(p, hi, sz, startingTime, life, s). unat NUM_PRICES - unat p)")
  show "wf (measure (\<lambda>(p :: u32, hi :: u32, sz :: u32, startingTime :: u64,
      life :: u32 \<Rightarrow> nat \<Rightarrow> u64, s :: book). unat NUM_PRICES - unat p))"
    by simp
next
  fix p hi sz :: u32 and startingTime :: u64 and life :: "u32 \<Rightarrow> nat \<Rightarrow> u64"
    and s s' :: book and r :: "fault + book"
  assume "setupMarket_orders 0 p sz startingTime life s = Some r" and "r = Inr s'"
  then have lt: "p < NUM_PRICES" by (simp add: setupMarket_orders_in_range)
  then have "unat (p + 1) = Suc (unat p)" by (rule word_succ_unat)
  moreover from lt have "unat p < unat NUM_PRICES" by (simp add: word_less_nat_alt)
  ultimately show "((p + 1, hi, sz, startingTime, life, s'), p, hi, sz, startingTime, life, s)
      \<in> measure (\<lambda>(p, hi, sz, startingTime, life, s). unat NUM_PRICES - unat p)" by simp
qed

declare setupMarket_up.simps [simp del]

text \<open>
  \<open>setupMarket\<close>: \<open>b\<close> and \<open>spread\<close> are the two values computed from \<open>rd\<close> and
  converted to \<open>u32\<close>.
\<close>

definition setupMarket ::
  "u32 \<Rightarrow> u32 \<Rightarrow> u32 \<Rightarrow> u64 \<Rightarrow> (u32 \<Rightarrow> nat \<Rightarrow> u64) \<Rightarrow> book \<Rightarrow> (fault + book) option" where
  "setupMarket b spread sz startingTime life s =
     (let s0 = s\<lparr>bid := b, ask := b + spread\<rparr> in
      case setupMarket_down (bid s0) (bid s0 - 10) sz startingTime life s0 of
        None \<Rightarrow> None
      | Some (Inl f) \<Rightarrow> Some (Inl f)
      | Some (Inr s1) \<Rightarrow> setupMarket_up (ask s1) (ask s1 + 10) sz startingTime life s1)"

section \<open>The blocks of mainCycle\<close>

text \<open>
  What the branch "Do the next order creation" draws: market or limit, sell or buy, and
  the values returned by \<open>rl\<close> (for a market order its size; for a limit order its
  distance, size and lifespan).
\<close>

datatype creation =
    MarketSell u64
  | MarketBuy u64
  | LimitSell u64 u64 u64
  | LimitBuy u64 u64 u64

text \<open>
  The price of a limit order is \<open>bid + rl(...)\<close> or \<open>ask - rl(...)\<close>, computed on 64 bits
  and converted to \<open>u32\<close>.
\<close>

definition limitSellPrice :: "u64 \<Rightarrow> book \<Rightarrow> u32" where
  "limitSellPrice d s = ucast ((ucast (bid s) :: u64) + d)"

definition limitBuyPrice :: "u64 \<Rightarrow> book \<Rightarrow> u32" where
  "limitBuyPrice d s = ucast ((ucast (ask s) :: u64) - d)"

definition orderCreation :: "creation \<Rightarrow> u64 \<Rightarrow> book \<Rightarrow> (fault + book) option" where
  "orderCreation c nextOrderCreation s =
     (case c of
        MarketSell n \<Rightarrow> map_option (map_sum id snd) (marketSell (ucast n) nextOrderCreation s)
      | MarketBuy n \<Rightarrow> map_option (map_sum id snd) (marketBuy (ucast n) nextOrderCreation s)
      | LimitSell d n l \<Rightarrow>
          (let p = limitSellPrice d s in
           case addLimitOrder p (ucast n) (nextOrderCreation + l) False s of
             None \<Rightarrow> None
           | Some (Inl f) \<Rightarrow> Some (Inl f)
           | Some (Inr s') \<Rightarrow> Some (Inr (if p < ask s' then s'\<lparr>ask := p\<rparr> else s')))
      | LimitBuy d n l \<Rightarrow>
          (let p = limitBuyPrice d s in
           case addLimitOrder p (ucast n) (nextOrderCreation + l) False s of
             None \<Rightarrow> None
           | Some (Inl f) \<Rightarrow> Some (Inl f)
           | Some (Inr s') \<Rightarrow> Some (Inr (if bid s' < p then s'\<lparr>bid := p\<rparr> else s'))))"

text \<open>The loop over all prices at the start of a frame.\<close>

function updateAllLimitOrders :: "u32 \<Rightarrow> u64 \<Rightarrow> book \<Rightarrow> (fault + book) option" where
  "updateAllLimitOrders p t s =
     (if p < NUM_PRICES then
        (case updateLimitOrders p t s of
           None \<Rightarrow> None
         | Some (Inl f) \<Rightarrow> Some (Inl f)
         | Some (Inr s') \<Rightarrow> updateAllLimitOrders (p + 1) t s')
      else Some (Inr s))"
  by pat_completeness auto
termination
proof (relation "measure (\<lambda>(p, t, s). unat NUM_PRICES - unat p)")
  show "wf (measure (\<lambda>(p :: u32, t :: u64, s :: book). unat NUM_PRICES - unat p))"
    by simp
next
  fix p :: u32 and t :: u64 and s s' :: book
  assume lt: "p < NUM_PRICES"
  then have "unat (p + 1) = Suc (unat p)" by (rule word_succ_unat)
  moreover from lt have "unat p < unat NUM_PRICES" by (simp add: word_less_nat_alt)
  ultimately show "((p + 1, t, s'), p, t, s) \<in> measure (\<lambda>(p, t, s). unat NUM_PRICES - unat p)"
    by simp
qed

declare updateAllLimitOrders.simps [simp del]

text \<open>
  The user's market orders. In \<open>balance -= marketBuy(...)\<close> the call itself changes
  \<open>balance\<close> when it fills one of the user's own limit orders; the model reads
  \<open>balance\<close> after the call.
\<close>

definition userMarketBuy :: "u32 \<Rightarrow> u64 \<Rightarrow> book \<Rightarrow> (fault + book) option" where
  "userMarketBuy userMarketBuySize targetTime s =
     (if realisticUserMarketOrders s then
        (case marketBuy userMarketBuySize targetTime s of
           None \<Rightarrow> None
         | Some (Inl f) \<Rightarrow> Some (Inl f)
         | Some (Inr (ou, s')) \<Rightarrow>
             Some (Inr (s'\<lparr>balance := balance s' - ou,
                           sharesOpen := sharesOpen s' + userMarketBuySize\<rparr>)))
      else Some (Inr (s\<lparr>balance := balance s - userMarketBuySize * ask s,
                         sharesOpen := sharesOpen s + userMarketBuySize\<rparr>)))"

definition userMarketSell :: "u32 \<Rightarrow> u64 \<Rightarrow> book \<Rightarrow> (fault + book) option" where
  "userMarketSell userMarketSellSize targetTime s =
     (if realisticUserMarketOrders s then
        (case marketSell userMarketSellSize targetTime s of
           None \<Rightarrow> None
         | Some (Inl f) \<Rightarrow> Some (Inl f)
         | Some (Inr (ou, s')) \<Rightarrow>
             Some (Inr (s'\<lparr>balance := balance s' + ou,
                           sharesOpen := sharesOpen s' - userMarketSellSize\<rparr>)))
      else Some (Inr (s\<lparr>balance := balance s + userMarketSellSize * bid s,
                         sharesOpen := sharesOpen s - userMarketSellSize\<rparr>)))"

text \<open>
  The user's limit orders: the block guarded by
  \<open>numUserLimitOrders < MAX_NUM_USER_LIMIT_ORDERS\<close>. The result says whether the call
  ended in a fault, and nothing else: the block prints nothing and sets no flag.
\<close>

definition userLimitOrder ::
  "bool \<Rightarrow> bool \<Rightarrow> u32 \<Rightarrow> u32 \<Rightarrow> book \<Rightarrow> (fault + book) option" where
  "userLimitOrder buyLimit sellLimit userLimitBuySize userLimitSellSize s =
     (if length (userLimitOrders s) < MAX_NUM_USER_LIMIT_ORDERS then
        (if buyLimit then addLimitOrder (bid s) userLimitBuySize ULLONG_MAX True s
         else if sellLimit then addLimitOrder (ask s) userLimitSellSize ULLONG_MAX True s
         else Some (Inr s))
      else Some (Inr s))"

text \<open>The block run on backspace: "Remove the user's limit orders from the order book".\<close>

definition withdrawUserLimitOrders :: "book \<Rightarrow> book" where
  "withdrawUserLimitOrders s =
     s\<lparr>pool := fold (\<lambda>u h. h(u := (h u)\<lparr>lo_expirationTime := 0\<rparr>)) (userLimitOrders s) (pool s),
       userLimitOrders := []\<rparr>"

section \<open>main and the events of mainCycle\<close>

text \<open>
  \<open>mainCycle\<close> is an endless loop; each turn is either the branch "Do the next order
  creation" or a frame. A frame is the sweep of every price at \<open>targetTime\<close>, then
  \<open>updateBidAndAsk\<close>, then the blocks run on the keys of the user, in this order: market
  buy, market sell, limit order, withdrawal. \<open>event\<close> names these pieces; the times and
  the values drawn or typed are their arguments.
\<close>

datatype event =
    Creation creation u64
  | Sweep u64
  | Refresh
  | UserMarketBuy u32 u64
  | UserMarketSell u32 u64
  | UserLimit bool bool u32 u32
  | Withdraw

fun step :: "event \<Rightarrow> book \<Rightarrow> (fault + book) option" where
  "step (Creation c t) s = orderCreation c t s"
| "step (Sweep t) s = updateAllLimitOrders 0 t s"
| "step Refresh s = Some (updateBidAndAsk s)"
| "step (UserMarketBuy sz t) s = userMarketBuy sz t s"
| "step (UserMarketSell sz t) s = userMarketSell sz t s"
| "step (UserLimit buyLimit sellLimit nb ns) s = userLimitOrder buyLimit sellLimit nb ns s"
| "step Withdraw s = Some (Inr (withdrawUserLimitOrders s))"

text \<open>
  A list of events, run from left to right. A fault ends the run, as \<open>exit\<close> ends the
  program.
\<close>

fun run :: "event list \<Rightarrow> book \<Rightarrow> (fault + book) option" where
  "run [] s = Some (Inr s)"
| "run (e # es) s =
     (case step e s of
        None \<Rightarrow> None
      | Some (Inl f) \<Rightarrow> Some (Inl f)
      | Some (Inr s') \<Rightarrow> run es s')"

text \<open>
  \<open>engine\<close> is \<open>main\<close>: \<open>setup\<close>, then \<open>setupMarket\<close>, then \<open>mainCycle\<close>, of which
  the events run so far are given. The first turn of \<open>mainCycle\<close> is a frame, since
  \<open>nextOrderCreation\<close> and \<open>targetTime\<close> both start at \<open>startingTime\<close>.
\<close>

definition engine ::
  "nat \<Rightarrow> bool \<Rightarrow> bool \<Rightarrow> u32 \<Rightarrow> u32 \<Rightarrow> u32 \<Rightarrow> u64 \<Rightarrow> (u32 \<Rightarrow> nat \<Rightarrow> u64) \<Rightarrow> event list \<Rightarrow>
   (fault + book) option" where
  "engine poolSize stackOrder realistic b spread sz startingTime life es =
     (case setupMarket b spread sz startingTime life (setupBook poolSize stackOrder realistic) of
        None \<Rightarrow> None
      | Some (Inl f) \<Rightarrow> Some (Inl f)
      | Some (Inr s) \<Rightarrow> run es s)"
section \<open>Price levels as lists of slots\<close>

text \<open>
  \<open>chain h x as\<close>: following the \<open>next\<close> pointers of the store \<open>h\<close> from \<open>x\<close> visits
  exactly the slots \<open>as\<close>, in this order, and then reaches \<open>NULL\<close>. \<open>level s p as\<close>:
  the orders resting at price \<open>p\<close> are \<open>as\<close>, head first. \<open>expired s t a\<close> is the test
  \<open>expirationTime <= t\<close> of \<open>updateLimitOrders\<close>.
\<close>

fun chain :: "(ref \<Rightarrow> limitOrder) \<Rightarrow> ref option \<Rightarrow> ref list \<Rightarrow> bool" where
  "chain h x [] = (x = None)"
| "chain h x (a # as) = (x = Some a \<and> chain h (lo_next (h a)) as)"

definition expired :: "book \<Rightarrow> u64 \<Rightarrow> ref \<Rightarrow> bool" where
  "expired s t a = (lo_expirationTime (pool s a) \<le> t)"

definition level :: "book \<Rightarrow> u32 \<Rightarrow> ref list \<Rightarrow> bool" where
  "level s p as = chain (pool s) (limitOrderHead s p) as"

text \<open>
  \<open>place\<close> adds an order to a book that has room for it; it builds the books the
  theorems are tried on.
\<close>

definition place :: "u32 \<Rightarrow> u32 \<Rightarrow> u64 \<Rightarrow> bool \<Rightarrow> book \<Rightarrow> book" where
  "place p sz expiration usr s =
     (case addLimitOrder p sz expiration usr s of Some (Inr s') \<Rightarrow> s' | _ \<Rightarrow> s)"

section \<open>The loop of fillOrders along a level\<close>

text \<open>
  \<open>fillList\<close> is the loop of \<open>fillOrders\<close> run along the list of a level instead of
  along the \<open>next\<close> pointers; on a level that is a list in the store the two agree
  (lemma \<open>fillOrders_loop_fillList\<close>). \<open>fullCount sz qs\<close> is the number of orders, of
  sizes \<open>qs\<close> from the head, that a request of \<open>sz\<close> fills completely.
\<close>

fun fillList :: "u32 \<Rightarrow> bool \<Rightarrow> ref list \<Rightarrow> u32 \<Rightarrow> u32 \<Rightarrow> book \<Rightarrow> u32 \<times> u32 \<times> book" where
  "fillList p isSell [] sz ou s = (sz, ou, s)"
| "fillList p isSell (c # cs) sz ou s =
     (let q = lo_size (pool s c) in
      if q \<le> sz then fillList p isSell cs (sz - q) (ou + q * p) (fillCompletely p isSell c s)
      else (0, ou + sz * p, fillPartially p sz isSell c s))"

fun fullCount :: "u32 \<Rightarrow> u32 list \<Rightarrow> nat" where
  "fullCount sz [] = 0"
| "fullCount sz (q # qs) = (if q \<le> sz then Suc (fullCount (sz - q) qs) else 0)"

definition sizes :: "book \<Rightarrow> ref list \<Rightarrow> u32 list" where
  "sizes s as = map (\<lambda>a. lo_size (pool s a)) as"

section \<open>The pool is partitioned\<close>

text \<open>
  \<open>slotInv n s lv\<close>: every price level \<open>p\<close> is the list \<open>lv p\<close> in the store (so it
  ends in \<open>NULL\<close> and repeats no slot); the free list repeats no slot; no slot is both on
  the free list and in a level; no slot is in two levels; and the slots on the free list
  or in some level are exactly the \<open>n\<close> slots of the pool. So each of the \<open>n\<close> slots is
  on the free list or in exactly one level, and never both.
\<close>

definition slotInv :: "nat \<Rightarrow> book \<Rightarrow> (u32 \<Rightarrow> ref list) \<Rightarrow> bool" where
  "slotInv n s lv \<longleftrightarrow>
     (\<forall>p. level s p (lv p)) \<and>
     distinct (freeLimitOrders s) \<and>
     (\<forall>p. set (lv p) \<inter> set (freeLimitOrders s) = {}) \<and>
     (\<forall>p q. p \<noteq> q \<longrightarrow> set (lv p) \<inter> set (lv q) = {}) \<and>
     set (freeLimitOrders s) \<union> (\<Union>p. set (lv p)) = {..<n}"

section \<open>What a market order takes, from the spec's words\<close>

text \<open>
  The resting orders a market order meets, as pairs of price and size in the order the
  spec gives: for a buy the levels from a price upwards, for a sell from a price
  downwards, each level from its head, leaving out the orders that have expired at the
  time of the market order. \<open>takenAt sz xs\<close> is the portion a request of \<open>sz\<close> consumes
  of each order of \<open>xs\<close> in turn: all of it while the request lasts, then what is left
  of the request, then nothing. \<open>notional32\<close> is the sum of price times consumed
  quantity and \<open>quantity32\<close> the consumed quantity, both as the code computes them, on
  32 bits.
\<close>

fun takenAt :: "u32 \<Rightarrow> (u32 \<times> u32) list \<Rightarrow> (u32 \<times> u32) list" where
  "takenAt sz [] = []"
| "takenAt sz ((pr, q) # r) = (pr, min q sz) # takenAt (sz - min q sz) r"

definition notional32 :: "(u32 \<times> u32) list \<Rightarrow> u32" where
  "notional32 xs = sum_list (map (\<lambda>(pr, x). x * pr) xs)"

definition quantity32 :: "(u32 \<times> u32) list \<Rightarrow> u32" where
  "quantity32 xs = sum_list (map snd xs)"

definition resting :: "book \<Rightarrow> u64 \<Rightarrow> u32 \<Rightarrow> ref list \<Rightarrow> (u32 \<times> u32) list" where
  "resting s t p as = map (\<lambda>a. (p, lo_size (pool s a))) (filter (\<lambda>a. \<not> expired s t a) as)"

function pricesFrom :: "u32 \<Rightarrow> u32 list" where
  "pricesFrom p = (if p < NUM_PRICES then p # pricesFrom (p + 1) else [])"
  by pat_completeness auto
termination
proof (relation "measure (\<lambda>p. unat NUM_PRICES - unat p)")
  show "wf (measure (\<lambda>p :: u32. unat NUM_PRICES - unat p))" by simp
next
  fix p :: u32
  assume lt: "p < NUM_PRICES"
  then have "unat (p + 1) = Suc (unat p)" by (rule word_succ_unat)
  moreover from lt have "unat p < unat NUM_PRICES" by (simp add: word_less_nat_alt)
  ultimately show "(p + 1, p) \<in> measure (\<lambda>p. unat NUM_PRICES - unat p)" by simp
qed

declare pricesFrom.simps [simp del]

function pricesDownFrom :: "u32 \<Rightarrow> u32 list" where
  "pricesDownFrom p = (if p = UINT_MAX then [] else p # pricesDownFrom (p - 1))"
  by pat_completeness auto
termination
proof (relation "measure (\<lambda>p. unat (p + 1))")
  show "wf (measure (\<lambda>p :: u32. unat (p + 1)))" by simp
next
  fix p :: u32
  assume "p \<noteq> UINT_MAX"
  then have "p + 1 \<noteq> 0" by (simp add: UINT_MAX_def eq_neg_iff_add_eq_0)
  then have "unat (p + 1 - 1) < unat (p + 1)" by (rule word_pred_less)
  then show "(p - 1, p) \<in> measure (\<lambda>p. unat (p + 1))" by simp
qed

declare pricesDownFrom.simps [simp del]

definition restingSells :: "book \<Rightarrow> (u32 \<Rightarrow> ref list) \<Rightarrow> u64 \<Rightarrow> u32 \<Rightarrow> (u32 \<times> u32) list" where
  "restingSells s lv t p = concat (map (\<lambda>q. resting s t q (lv q)) (pricesFrom p))"

definition restingBuys :: "book \<Rightarrow> (u32 \<Rightarrow> ref list) \<Rightarrow> u64 \<Rightarrow> u32 \<Rightarrow> (u32 \<times> u32) list" where
  "restingBuys s lv t p = concat (map (\<lambda>q. resting s t q (lv q)) (pricesDownFrom p))"

text \<open>
  What \<open>marketBuy_loop p t sz ou s\<close> has done when it returns \<open>ou'\<close> and \<open>s'\<close>, for a book
  \<open>s\<close> whose levels are \<open>lv\<close>: the sum, the quantity, the partition of the pool, and where
  it leaves the heads, \<open>bid\<close> and \<open>ask\<close>. \<open>sellPost\<close> is the same for \<open>marketSell_loop\<close>.
\<close>

definition buyPost ::
  "nat \<Rightarrow> (u32 \<Rightarrow> ref list) \<Rightarrow> u64 \<Rightarrow> u32 \<Rightarrow> u32 \<Rightarrow> u32 \<Rightarrow> book \<Rightarrow> u32 \<Rightarrow> book \<Rightarrow> bool" where
  "buyPost n lv t p sz ou s ou' s' \<longleftrightarrow>
     ou' = ou + notional32 (takenAt sz (restingSells s lv t p)) \<and>
     quantity32 (takenAt sz (restingSells s lv t p)) = sz \<and>
     (\<exists>lv'. slotInv n s' lv') \<and>
     bid s' = bid s \<and>
     (sz = 0 \<longrightarrow> s' = s) \<and>
     (0 < sz \<longrightarrow> p \<le> ask s' \<and> ask s' < NUM_PRICES \<and> limitOrderHead s (ask s') \<noteq> None \<and>
        (\<forall>q. p \<le> q \<and> q < ask s' \<longrightarrow> limitOrderHead s' q = None)) \<and>
     (\<forall>q. q < p \<longrightarrow> limitOrderHead s' q = limitOrderHead s q)"

definition sellPost ::
  "nat \<Rightarrow> (u32 \<Rightarrow> ref list) \<Rightarrow> u64 \<Rightarrow> u32 \<Rightarrow> u32 \<Rightarrow> u32 \<Rightarrow> book \<Rightarrow> u32 \<Rightarrow> book \<Rightarrow> bool" where
  "sellPost n lv t p sz ou s ou' s' \<longleftrightarrow>
     ou' = ou + notional32 (takenAt sz (restingBuys s lv t p)) \<and>
     quantity32 (takenAt sz (restingBuys s lv t p)) = sz \<and>
     (\<exists>lv'. slotInv n s' lv') \<and>
     ask s' = ask s \<and>
     (sz = 0 \<longrightarrow> s' = s) \<and>
     (0 < sz \<longrightarrow> bid s' \<le> p \<and> bid s' < NUM_PRICES \<and> limitOrderHead s (bid s') \<noteq> None \<and>
        (\<forall>q. bid s' < q \<and> q \<le> p \<longrightarrow> limitOrderHead s' q = None)) \<and>
     (\<forall>q. p < q \<longrightarrow> limitOrderHead s' q = limitOrderHead s q)"


section \<open>Where a market order stops, and what it leaves\<close>

text \<open>
  \<open>liveAt s lv t r\<close> are the orders of level \<open>r\<close> that have not expired at \<open>t\<close>, and
  \<open>liveQty\<close> is their total size as a number. \<open>pricesBetween p q\<close> are the prices from
  \<open>p\<close> up to but not including \<open>q\<close>, \<open>pricesDownTo p q\<close> the prices from \<open>p\<close> down to but
  not including \<open>q\<close>; \<open>qtyBetween\<close> and \<open>qtyDownTo\<close> add up the live quantity of these
  prices: what a market buy has met before it reaches \<open>q\<close> from \<open>p\<close>, and a market sell
  likewise.
\<close>

definition liveAt :: "book \<Rightarrow> (u32 \<Rightarrow> ref list) \<Rightarrow> u64 \<Rightarrow> u32 \<Rightarrow> ref list" where
  "liveAt s lv t r = filter (\<lambda>a. \<not> expired s t a) (lv r)"

definition liveQty :: "book \<Rightarrow> (u32 \<Rightarrow> ref list) \<Rightarrow> u64 \<Rightarrow> u32 \<Rightarrow> nat" where
  "liveQty s lv t r = sum_list (map (\<lambda>a. unat (lo_size (pool s a))) (liveAt s lv t r))"

function pricesBetween :: "u32 \<Rightarrow> u32 \<Rightarrow> u32 list" where
  "pricesBetween p q = (if p < q then p # pricesBetween (p + 1) q else [])"
  by pat_completeness auto
termination
proof (relation "measure (\<lambda>(p, q). unat q - unat p)")
  show "wf (measure (\<lambda>(p :: u32, q :: u32). unat q - unat p))" by simp
next
  fix p q :: u32
  assume lt: "p < q"
  then have "unat (p + 1) = Suc (unat p)" by (rule word_succ_unat)
  moreover from lt have "unat p < unat q" by (simp add: word_less_nat_alt)
  ultimately show "((p + 1, q), p, q) \<in> measure (\<lambda>(p, q). unat q - unat p)" by simp
qed

declare pricesBetween.simps [simp del]

function pricesDownTo :: "u32 \<Rightarrow> u32 \<Rightarrow> u32 list" where
  "pricesDownTo p q = (if q < p then p # pricesDownTo (p - 1) q else [])"
  by pat_completeness auto
termination
proof (relation "measure (\<lambda>(p, q). unat p)")
  show "wf (measure (\<lambda>(p :: u32, q :: u32). unat p))" by simp
next
  fix p q :: u32
  assume "q < p"
  then have "p \<noteq> 0" by auto
  then have "unat (p - 1) < unat p" by (rule word_pred_less)
  then show "((p - 1, q), p, q) \<in> measure (\<lambda>(p, q). unat p)" by simp
qed

declare pricesDownTo.simps [simp del]

definition qtyBetween :: "book \<Rightarrow> (u32 \<Rightarrow> ref list) \<Rightarrow> u64 \<Rightarrow> u32 \<Rightarrow> u32 \<Rightarrow> nat" where
  "qtyBetween s lv t p q = sum_list (map (liveQty s lv t) (pricesBetween p q))"

definition qtyDownTo :: "book \<Rightarrow> (u32 \<Rightarrow> ref list) \<Rightarrow> u64 \<Rightarrow> u32 \<Rightarrow> u32 \<Rightarrow> nat" where
  "qtyDownTo s lv t p q = sum_list (map (liveQty s lv t) (pricesDownTo p q))"


text \<open>
  What \<open>marketBuy_loop p t sz\<close> leaves when it has taken \<open>s\<close> to \<open>s'\<close>, besides
  \<open>buyPost\<close>: price, expiration time and owner of every order are unchanged; the free
  list has only grown; the heads above the new \<open>ask\<close> are unchanged; an order that is not
  a live order of a price from \<open>p\<close> to the new \<open>ask\<close> is unchanged; the expired orders of
  these prices are on the free list; the live quantity before the new \<open>ask\<close> is less than
  \<open>sz\<close> and with that of the new \<open>ask\<close> it reaches \<open>sz\<close>; the level at the new \<open>ask\<close> is
  what is left of its live orders; and the ledger and the tracking list are unchanged
  when every order of the user in a level has expired. \<open>sellTrace\<close> is the same for
  \<open>marketSell_loop\<close>.
\<close>

definition buyTrace ::
  "(u32 \<Rightarrow> ref list) \<Rightarrow> u64 \<Rightarrow> u32 \<Rightarrow> u32 \<Rightarrow> book \<Rightarrow> book \<Rightarrow> bool" where
  "buyTrace lv t p sz s s' \<longleftrightarrow>
     (\<forall>a. lo_p (pool s' a) = lo_p (pool s a) \<and>
          lo_expirationTime (pool s' a) = lo_expirationTime (pool s a) \<and>
          lo_user (pool s' a) = lo_user (pool s a)) \<and>
     set (freeLimitOrders s) \<subseteq> set (freeLimitOrders s') \<and>
     (0 < sz \<longrightarrow>
        (\<forall>r. ask s' < r \<longrightarrow> limitOrderHead s' r = limitOrderHead s r) \<and>
        (\<forall>a. (\<forall>r. p \<le> r \<and> r \<le> ask s' \<longrightarrow> a \<notin> set (liveAt s lv t r)) \<longrightarrow>
             pool s' a = pool s a) \<and>
        (\<forall>r a. p \<le> r \<and> r \<le> ask s' \<and> a \<in> set (lv r) \<and> expired s t a \<longrightarrow>
             a \<in> set (freeLimitOrders s')) \<and>
        qtyBetween s lv t p (ask s') < unat sz \<and>
        unat sz \<le> qtyBetween s lv t p (ask s') + liveQty s lv t (ask s') \<and>
        (\<exists>k. level s' (ask s') (drop k (liveAt s lv t (ask s'))))) \<and>
     ((\<forall>r a. a \<in> set (lv r) \<and> lo_user (pool s a) \<longrightarrow> expired s t a) \<longrightarrow>
        balance s' = balance s \<and> sharesOpen s' = sharesOpen s \<and>
        userLimitOrders s' = userLimitOrders s)"


definition sellTrace ::
  "(u32 \<Rightarrow> ref list) \<Rightarrow> u64 \<Rightarrow> u32 \<Rightarrow> u32 \<Rightarrow> book \<Rightarrow> book \<Rightarrow> bool" where
  "sellTrace lv t p sz s s' \<longleftrightarrow>
     (\<forall>a. lo_p (pool s' a) = lo_p (pool s a) \<and>
          lo_expirationTime (pool s' a) = lo_expirationTime (pool s a) \<and>
          lo_user (pool s' a) = lo_user (pool s a)) \<and>
     set (freeLimitOrders s) \<subseteq> set (freeLimitOrders s') \<and>
     (0 < sz \<longrightarrow>
        (\<forall>r. r < bid s' \<longrightarrow> limitOrderHead s' r = limitOrderHead s r) \<and>
        (\<forall>a. (\<forall>r. bid s' \<le> r \<and> r \<le> p \<longrightarrow> a \<notin> set (liveAt s lv t r)) \<longrightarrow>
             pool s' a = pool s a) \<and>
        (\<forall>r a. bid s' \<le> r \<and> r \<le> p \<and> a \<in> set (lv r) \<and> expired s t a \<longrightarrow>
             a \<in> set (freeLimitOrders s')) \<and>
        qtyDownTo s lv t p (bid s') < unat sz \<and>
        unat sz \<le> qtyDownTo s lv t p (bid s') + liveQty s lv t (bid s') \<and>
        (\<exists>k. level s' (bid s') (drop k (liveAt s lv t (bid s'))))) \<and>
     ((\<forall>r a. a \<in> set (lv r) \<and> lo_user (pool s a) \<longrightarrow> expired s t a) \<longrightarrow>
        balance s' = balance s \<and> sharesOpen s' = sharesOpen s \<and>
        userLimitOrders s' = userLimitOrders s)"

section \<open>The states the engine reaches\<close>

text \<open>
  \<open>drawn e\<close>: the distance of a synthetic limit order, a value of \<open>rl\<close>, is at least 1
  and below \<open>2 ^ 31\<close>. Nothing is asked of the other events.
\<close>

fun drawn :: "event \<Rightarrow> bool" where
  "drawn (Creation (LimitSell d n l) t) = (0 < d \<and> unat d < 2 ^ 31)"
| "drawn (Creation (LimitBuy d n l) t) = (0 < d \<and> unat d < 2 ^ 31)"
| "drawn e = True"

text \<open>
  \<open>bookInv n s\<close>: \<open>bid\<close> is below \<open>ask\<close>, \<open>ask\<close> is a price of the book, and the pool
  of \<open>n\<close> slots is partitioned.
\<close>

definition bookInv :: "nat \<Rightarrow> book \<Rightarrow> bool" where
  "bookInv n s \<longleftrightarrow> bid s < ask s \<and> ask s < NUM_PRICES \<and> (\<exists>lv. slotInv n s lv)"

text \<open>
  \<open>made sz t0 life s lv\<close>: every resting order has the size \<open>sz\<close> and one of the
  expiration times \<open>t0 + life r k\<close> of its price \<open>r\<close>, as the orders of \<open>setupMarket\<close>
  have.
\<close>

definition made :: "u32 \<Rightarrow> u64 \<Rightarrow> (u32 \<Rightarrow> nat \<Rightarrow> u64) \<Rightarrow> book \<Rightarrow> (u32 \<Rightarrow> ref list) \<Rightarrow> bool" where
  "made sz t0 life s lv \<longleftrightarrow>
     (\<forall>r a. a \<in> set (lv r) \<longrightarrow>
        lo_size (pool s a) = sz \<and> (\<exists>k. lo_expirationTime (pool s a) = t0 + life r k))"

text \<open>
  The same in the spec's own terms, on natural numbers: the portion consumed of each
  resting order, in book order, and the sum of price times consumed quantity.
  \<open>asNat\<close> reads the prices and sizes of the book as numbers.
\<close>

fun consumedPortions :: "nat \<Rightarrow> (nat \<times> nat) list \<Rightarrow> (nat \<times> nat) list" where
  "consumedPortions S [] = []"
| "consumedPortions S ((pr, q) # r) = (pr, min q S) # consumedPortions (S - min q S) r"

definition sumOfNotionals :: "(nat \<times> nat) list \<Rightarrow> nat" where
  "sumOfNotionals xs = sum_list (map (\<lambda>(pr, x). pr * x) xs)"

definition asNat :: "(u32 \<times> u32) list \<Rightarrow> (nat \<times> nat) list" where
  "asNat xs = map (\<lambda>(pr, q). (unat pr, unat q)) xs"
section \<open>The books the claims are tried on\<close>

text \<open>
  The book of the scenario: a pool of two orders, bid 100, the ledger at \<open>b0\<close> and
  \<open>p0\<close>. The user's limit buy of 10 at 100 is added first (it never expires), the
  synthetic buy of 5 at 100 with expiration \<open>e\<close> second, and a market sell of 12 runs at
  time \<open>t\<close>. \<open>stackOrder\<close> is the setting \<open>fillTiesInStackOrder\<close>.
\<close>

definition scenario5 ::
  "bool \<Rightarrow> 32 word \<Rightarrow> 32 word \<Rightarrow> u64 \<Rightarrow> u64 \<Rightarrow> (fault + u32 \<times> book) option" where
  "scenario5 stackOrder b0 p0 e t =
     (case addLimitOrder 100 10 ULLONG_MAX True
             ((setupBook 2 stackOrder True)
                \<lparr>bid := 100, ask := 101, balance := b0, sharesOpen := p0\<rparr>) of
        Some (Inr s1) \<Rightarrow>
          (case addLimitOrder 100 5 e False s1 of
             Some (Inr s2) \<Rightarrow> marketSell 12 t s2
           | _ \<Rightarrow> None)
      | _ \<Rightarrow> None)"

text \<open>
  Five orders of one share at price 100, added in this order with expiration times 5, 6,
  50, 7 and 60, in slots 4, 3, 2, 1 and 0: at time 10 the first two (consecutive, at the
  head) and the fourth (between two that stay) have expired.
\<close>

definition book8 :: book where
  "book8 =
     place 100 1 60 False (place 100 1 7 False (place 100 1 50 False
       (place 100 1 6 False (place 100 1 5 False (setupBook 5 False True)))))"


text \<open>
  One sell of the user's, 10000000 shares at the ask of 501 (the size field the user
  edits takes up to nine digits).
\<close>

definition book3 :: book where
  "book3 = place 501 10000000 ULLONG_MAX True ((setupBook 1 False True)\<lparr>bid := 500, ask := 501\<rparr>)"

text \<open>
  A book with bid 100 and ask 105: a buy of 5 at 100 (slot 3), a single sell of 5 at
  105 (slot 2), nothing at 106, and sells of 4 and 6 at 107 (slots 1 and 0), all with
  expiration time 1000. \<open>lvAsk\<close> lists its levels.
\<close>

definition bookAsk :: book where
  "bookAsk =
     place 107 6 1000 False (place 107 4 1000 False (place 105 5 1000 False
       (place 100 5 1000 False ((setupBook 4 False True)\<lparr>bid := 100, ask := 105\<rparr>))))"

definition lvAsk :: "u32 \<Rightarrow> ref list" where
  "lvAsk = (\<lambda>_. [])(100 := [3], 105 := [2], 107 := [1, 0])"


text \<open>
  The book of the scenario before the market order: the user's buy of 10 at 100 in slot 1,
  at the head of the level, the synthetic buy of 5 in slot 0 behind it.
\<close>

definition book5 :: book where
  "book5 =
     place 100 5 5000 False (place 100 10 ULLONG_MAX True
       ((setupBook 2 False True)\<lparr>bid := 100, ask := 101\<rparr>))"

definition lv5 :: "u32 \<Rightarrow> ref list" where
  "lv5 = (\<lambda>_. [])(100 := [1, 0])"


text \<open>
  A book whose tracking list is full: the user has pressed the key for a limit buy of one
  share a hundred times, on a pool of 102 orders with bid 100 and ask 101, so that two
  slots are still free.
\<close>

fun userLimitBuys :: "nat \<Rightarrow> book \<Rightarrow> book" where
  "userLimitBuys 0 s = s"
| "userLimitBuys (Suc n) s =
     (case userLimitOrder True False 1 1 s of
        Some (Inr s') \<Rightarrow> userLimitBuys n s'
      | _ \<Rightarrow> s)"

definition book9 :: book where
  "book9 = userLimitBuys 100 ((setupBook 102 True True)\<lparr>bid := 100, ask := 101\<rparr>)"


text \<open>
  A book with bid 500 and ask 505: a buy of 5 at 500 in slot 2, a sell of 5 at 505 in
  slot 1, and slot 0 free.
\<close>

definition book6 :: book where
  "book6 =
     place 505 5 1000 False (place 500 5 1000 False
       ((setupBook 3 False True)\<lparr>bid := 500, ask := 505\<rparr>))"

section \<open>Evaluating the model on concrete books\<close>

lemmas book_eval =
  addLimitOrder_def setupBook_def Let_def marketSell_def marketSell_loop.simps
  marketBuy_def marketBuy_loop.simps updateLimitOrders_def updateLimitOrders_head.simps
  updateLimitOrders_rest.simps fillOrders_def fillOrders_loop.simps lastLimitOrder.simps
  fillCompletely_def fillPartially_def ledgerFill_def NUM_PRICES_def UINT_MAX_def
  ULLONG_MAX_def MAX_NUM_USER_LIMIT_ORDERS_def

lemma word_max_le: "(- 1 \<le> (x::'a::len word)) = (x = - 1)"
  by (rule word_order.extremum_unique)

lemma word_less_max: "(x::'a::len word) < y \<Longrightarrow> x \<noteq> - 1"
  by auto

section \<open>Lists in the store\<close>

lemma chain_None [simp]: "chain h None as = (as = [])"
  by (cases as) auto

lemma chain_Some: "chain h (Some a) as = (\<exists>bs. as = a # bs \<and> chain h (lo_next (h a)) bs)"
  by (cases as) auto

lemma chain_unique: "chain h x as \<Longrightarrow> chain h x bs \<Longrightarrow> as = bs"
proof (induction as arbitrary: x bs)
  case Nil
  then show ?case by simp
next
  case (Cons a as)
  then show ?case by (cases bs) auto
qed

lemma chain_append: "chain h x (as @ bs) \<Longrightarrow> \<exists>y. chain h y bs"
  by (induction as arbitrary: x) auto

lemma chain_suffix_at: "chain h x (as @ a # bs) \<Longrightarrow> chain h (lo_next (h a)) bs"
  by (induction as arbitrary: x) auto

lemma chain_next_notin: 
  assumes "chain h (lo_next (h a)) as" shows "a \<notin> set as"
proof
  assume "a \<in> set as"
  then obtain bs cs where "as = bs @ a # cs" by (auto simp: in_set_conv_decomp)
  with assms have "chain h (lo_next (h a)) cs" by (auto dest: chain_suffix_at)
  with assms have "as = cs" by (rule chain_unique)
  with \<open>as = bs @ a # cs\<close> have "length cs = length bs + Suc (length cs)" by simp
  then show False by simp
qed

lemma chain_distinct: "chain h x as \<Longrightarrow> distinct as"
  by (induction as arbitrary: x) (auto dest: chain_next_notin)

lemma chain_upd_notin: "a \<notin> set as \<Longrightarrow> chain (h(a := v)) x as = chain h x as"
  by (induction as arbitrary: x) auto

lemma chain_cong_next: "(\<And>a. a \<in> set as \<Longrightarrow> lo_next (h' a) = lo_next (h a)) \<Longrightarrow> chain h' x as = chain h x as"
  by (induction as arbitrary: x) auto

section \<open>The two loops of updateLimitOrders on a level\<close>

lemma updateLimitOrders_head_chain:
  assumes "chain (pool s) (Some c) as"
  shows "updateLimitOrders_head p t c s =
     Some (case dropWhile (expired s t) as of [] \<Rightarrow> None | b # _ \<Rightarrow> Some b,
           if expired s t c then
             s\<lparr>freeLimitOrders := rev (takeWhile (expired s t) as) @ freeLimitOrders s,
               limitOrderHead := (limitOrderHead s)
                 (p := case dropWhile (expired s t) as of [] \<Rightarrow> None | b # _ \<Rightarrow> Some b)\<rparr>
           else s)"
  using assms
proof (induction as arbitrary: c s)
  case Nil
  then show ?case by simp
next
  case (Cons a as)
  then have ca: "c = a" and tl: "chain (pool s) (lo_next (pool s a)) as" by auto
  show ?case
  proof (cases "expired s t a")
    case False
    then show ?thesis using ca
      by (subst updateLimitOrders_head.simps) (simp add: expired_def)
  next
    case True
    let ?s' = "s\<lparr>freeLimitOrders := a # freeLimitOrders s,
                 limitOrderHead := (limitOrderHead s)(p := lo_next (pool s a))\<rparr>"
    have ex: "expired ?s' t = expired s t" by (simp add: expired_def fun_eq_iff)
    show ?thesis
    proof (cases "lo_next (pool s a)")
      case None
      with tl have "as = []" by simp
      with True None ca show ?thesis
        by (subst updateLimitOrders_head.simps) (simp add: expired_def)
    next
      case (Some b)
      with tl have tl': "chain (pool ?s') (Some b) as" by simp
      from tl Some obtain bs where as: "as = b # bs" by (auto simp: chain_Some)
      have "updateLimitOrders_head p t a s = updateLimitOrders_head p t b ?s'"
        using True Some by (subst updateLimitOrders_head.simps) (simp add: expired_def)
      also note Cons.IH [OF tl', unfolded ex]
      finally show ?thesis using True ca as Some
        by (cases "expired s t b") (auto simp: expired_def split: list.splits)
    qed
  qed
qed

lemma expired_pool_cong:
  "(\<And>a. lo_expirationTime (pool s' a) = lo_expirationTime (pool s a)) \<Longrightarrow> expired s' t = expired s t"
  by (simp add: expired_def fun_eq_iff)

lemma updateLimitOrders_rest_chain:
  assumes "chain (pool s) (Some c) (c # as)"
  shows "\<exists>s'. updateLimitOrders_rest t c s = Some s' \<and>
      chain (pool s') (Some c) (c # filter (\<lambda>a. \<not> expired s t a) as) \<and>
      freeLimitOrders s' = rev (filter (expired s t) as) @ freeLimitOrders s \<and>
      s' = s\<lparr>pool := pool s', freeLimitOrders := freeLimitOrders s'\<rparr> \<and>
      (\<forall>a. pool s' a = (pool s a)\<lparr>lo_next := lo_next (pool s' a)\<rparr>) \<and>
      (\<forall>a. a \<notin> set (c # filter (\<lambda>a. \<not> expired s t a) as) \<longrightarrow> pool s' a = pool s a)"
  using assms
proof (induction as arbitrary: c s)
  case Nil
  then have "lo_next (pool s c) = None" by simp
  then show ?case by (subst updateLimitOrders_rest.simps) simp
next
  case (Cons n as)
  then have nx: "lo_next (pool s c) = Some n"
    and tl: "chain (pool s) (lo_next (pool s n)) as" by auto
  from Cons.prems have "distinct (c # n # as)" by (rule chain_distinct)
  then have cn: "c \<noteq> n" and c_as: "c \<notin> set as" and n_as: "n \<notin> set as" by auto
  show ?case
  proof (cases "expired s t n")
    case True
    let ?s1 = "s\<lparr>freeLimitOrders := n # freeLimitOrders s,
                 pool := (pool s)(c := (pool s c)\<lparr>lo_next := lo_next (pool s n)\<rparr>)\<rparr>"
    have ex: "expired ?s1 t = expired s t" by (rule expired_pool_cong) simp
    have step: "updateLimitOrders_rest t c s = updateLimitOrders_rest t c ?s1"
      using True nx by (subst updateLimitOrders_rest.simps) (simp add: expired_def)
    have "chain (pool ?s1) (Some c) (c # as)"
      using tl c_as by (simp add: chain_upd_notin)
    from Cons.IH [OF this] obtain s' where
      r: "updateLimitOrders_rest t c ?s1 = Some s'"
      and ch: "chain (pool s') (Some c) (c # filter (\<lambda>a. \<not> expired s t a) as)"
      and fr: "freeLimitOrders s' = rev (filter (expired s t) as) @ n # freeLimitOrders s"
      and eq: "s' = ?s1\<lparr>pool := pool s', freeLimitOrders := freeLimitOrders s'\<rparr>"
      and nxt: "\<forall>a. pool s' a = (pool ?s1 a)\<lparr>lo_next := lo_next (pool s' a)\<rparr>"
      and out: "\<forall>a. a \<notin> set (c # filter (\<lambda>a. \<not> expired s t a) as) \<longrightarrow> pool s' a = pool ?s1 a"
      unfolding ex by auto
    have "s' = s\<lparr>pool := pool s', freeLimitOrders := freeLimitOrders s'\<rparr>"
      by (subst eq) simp
    moreover have "\<forall>a. pool s' a = (pool s a)\<lparr>lo_next := lo_next (pool s' a)\<rparr>"
    proof
      fix a
      from nxt have "pool s' a = (pool ?s1 a)\<lparr>lo_next := lo_next (pool s' a)\<rparr>" ..
      then show "pool s' a = (pool s a)\<lparr>lo_next := lo_next (pool s' a)\<rparr>"
        by (cases "a = c") simp_all
    qed
    moreover have "\<forall>a. a \<notin> set (c # filter (\<lambda>a. \<not> expired s t a) (n # as)) \<longrightarrow> pool s' a = pool s a"
      using out True by auto
    ultimately show ?thesis using step r ch fr True by simp
  next
    case False
    have step: "updateLimitOrders_rest t c s = updateLimitOrders_rest t n s"
      using False nx by (subst updateLimitOrders_rest.simps) (simp add: expired_def)
    from Cons.prems have "chain (pool s) (Some n) (n # as)" by simp
    from Cons.IH [OF this] obtain s' where
      r: "updateLimitOrders_rest t n s = Some s'"
      and ch: "chain (pool s') (Some n) (n # filter (\<lambda>a. \<not> expired s t a) as)"
      and fr: "freeLimitOrders s' = rev (filter (expired s t) as) @ freeLimitOrders s"
      and eq: "s' = s\<lparr>pool := pool s', freeLimitOrders := freeLimitOrders s'\<rparr>"
      and nxt: "\<forall>a. pool s' a = (pool s a)\<lparr>lo_next := lo_next (pool s' a)\<rparr>"
      and out: "\<forall>a. a \<notin> set (n # filter (\<lambda>a. \<not> expired s t a) as) \<longrightarrow> pool s' a = pool s a"
      by auto
    from out cn c_as have "pool s' c = pool s c" by auto
    with nx ch have "chain (pool s') (Some c) (c # n # filter (\<lambda>a. \<not> expired s t a) as)"
      by simp
    then show ?thesis using step r fr eq nxt out False by auto
  qed
qed

lemma chain_dropWhile:
  "chain h x as \<Longrightarrow>
   chain h (case dropWhile P as of [] \<Rightarrow> None | b # _ \<Rightarrow> Some b) (dropWhile P as)"
  by (induction as arbitrary: x) auto

lemma filter_takeWhile_dropWhile:
  "filter P as = takeWhile P as @ filter P (dropWhile P as)"
  by (induction as) auto

lemma filter_not_dropWhile:
  "filter (\<lambda>a. \<not> P a) as = filter (\<lambda>a. \<not> P a) (dropWhile P as)"
  by (induction as) auto

lemma head_upd_same:
  "limitOrderHead s p = x \<Longrightarrow> s\<lparr>limitOrderHead := (limitOrderHead s)(p := x)\<rparr> = s"
  by auto

lemma updateLimitOrders_level:
  assumes lv: "level s p as" and p: "p < NUM_PRICES"
  shows "\<exists>s'. updateLimitOrders p t s = Some (Inr s') \<and>
     level s' p (filter (\<lambda>a. \<not> expired s t a) as) \<and>
     freeLimitOrders s' = rev (filter (expired s t) as) @ freeLimitOrders s \<and>
     s' = s\<lparr>pool := pool s', freeLimitOrders := freeLimitOrders s',
             limitOrderHead := (limitOrderHead s)(p := limitOrderHead s' p)\<rparr> \<and>
     (\<forall>a. pool s' a = (pool s a)\<lparr>lo_next := lo_next (pool s' a)\<rparr>) \<and>
     (\<forall>a. a \<notin> set (filter (\<lambda>a. \<not> expired s t a) as) \<longrightarrow> pool s' a = pool s a)"
proof (cases "limitOrderHead s p")
  case None
  from p have np: "\<not> NUM_PRICES \<le> p" by (simp add: not_le)
  from None lv have "as = []" by (simp add: level_def)
  with None np show ?thesis by (simp add: updateLimitOrders_def level_def fun_upd_idem)
next
  case (Some c)
  from p have np: "\<not> NUM_PRICES \<le> p" by (simp add: not_le)
  from Some lv have ch: "chain (pool s) (Some c) as" by (simp add: level_def)
  then obtain bs where as: "as = c # bs" by (auto simp: chain_Some)
  let ?P = "expired s t"
  let ?r = "case dropWhile ?P as of [] \<Rightarrow> None | b # _ \<Rightarrow> Some b"
  let ?s1 = "if ?P c then
             s\<lparr>freeLimitOrders := rev (takeWhile ?P as) @ freeLimitOrders s,
               limitOrderHead := (limitOrderHead s)(p := ?r)\<rparr>
           else s"
  have hd: "updateLimitOrders_head p t c s = Some (?r, ?s1)"
    by (rule updateLimitOrders_head_chain [OF ch])
  have pool1: "pool ?s1 = pool s" by simp
  have head1: "limitOrderHead ?s1 p = ?r" using Some as by simp
  have free1: "freeLimitOrders ?s1 = rev (takeWhile ?P as) @ freeLimitOrders s"
    using as by simp
  have eq1: "?s1 = s\<lparr>freeLimitOrders := freeLimitOrders ?s1,
                 limitOrderHead := (limitOrderHead s)(p := limitOrderHead ?s1 p)\<rparr>"
    using Some as by (simp add: head_upd_same)
  show ?thesis
  proof (cases "dropWhile ?P as")
    case Nil
    then have allP: "\<forall>x\<in>set as. ?P x" by simp
    then have all: "filter (\<lambda>a. \<not> ?P a) as = []" by (simp add: filter_empty_conv)
    from allP have tw: "takeWhile ?P as = as" by (simp add: takeWhile_eq_all_conv)
    from allP have fl: "filter ?P as = as" by (simp add: filter_id_conv)
    have res: "updateLimitOrders p t s = Some (Inr ?s1)"
      using np Some hd Nil by (simp add: updateLimitOrders_def)
    have "level ?s1 p []" using head1 Nil by (simp add: level_def)
    moreover have "freeLimitOrders ?s1 = rev (filter ?P as) @ freeLimitOrders s"
      using free1 tw fl by simp
    moreover have "?s1 = s\<lparr>pool := pool ?s1, freeLimitOrders := freeLimitOrders ?s1,
             limitOrderHead := (limitOrderHead s)(p := limitOrderHead ?s1 p)\<rparr>"
      using Some as by (simp add: head_upd_same)
    ultimately show ?thesis using res all by (intro exI [of _ ?s1]) simp
  next
    case (Cons b rest)
    then have r: "?r = Some b" by simp
    from chain_dropWhile [OF ch, of ?P] Cons
    have "chain (pool s) (Some b) (b # rest)" by simp
    then have "chain (pool ?s1) (Some b) (b # rest)" by (simp only: pool1)
    from updateLimitOrders_rest_chain [OF this, of t] obtain s' where
      rr: "updateLimitOrders_rest t b ?s1 = Some s'"
      and ch': "chain (pool s') (Some b) (b # filter (\<lambda>a. \<not> expired ?s1 t a) rest)"
      and fr: "freeLimitOrders s' = rev (filter (expired ?s1 t) rest) @ freeLimitOrders ?s1"
      and eq: "s' = ?s1\<lparr>pool := pool s', freeLimitOrders := freeLimitOrders s'\<rparr>"
      and nxt: "\<forall>a. pool s' a = (pool ?s1 a)\<lparr>lo_next := lo_next (pool s' a)\<rparr>"
      and out: "\<forall>a. a \<notin> set (b # filter (\<lambda>a. \<not> expired ?s1 t a) rest) \<longrightarrow> pool s' a = pool ?s1 a"
      by blast
    have ex: "expired ?s1 t = ?P" by (rule expired_pool_cong) simp
    have live_b: "\<not> ?P b" using Cons by (metis hd_dropWhile list.sel(1) list.distinct(1))
    have surv: "filter (\<lambda>a. \<not> ?P a) as = b # filter (\<lambda>a. \<not> ?P a) rest"
      using Cons live_b by (subst filter_not_dropWhile) simp
    have gone: "filter ?P as = takeWhile ?P as @ filter ?P rest"
      using Cons live_b by (subst filter_takeWhile_dropWhile) simp
    have res: "updateLimitOrders p t s = Some (Inr s')"
      using np Some hd r rr by (simp add: updateLimitOrders_def)
    have hd': "limitOrderHead s' p = Some b"
      using head1 r by (subst eq) simp
    have "level s' p (filter (\<lambda>a. \<not> ?P a) as)"
      using ch' hd' surv by (simp add: level_def ex)
    moreover have "freeLimitOrders s' = rev (filter ?P as) @ freeLimitOrders s"
      using fr free1 gone by (simp add: ex)
    moreover have "s' = s\<lparr>pool := pool s', freeLimitOrders := freeLimitOrders s',
             limitOrderHead := (limitOrderHead s)(p := limitOrderHead s' p)\<rparr>"
      using hd' head1 r Some as by (subst eq) (auto simp: head_upd_same fun_upd_idem)
    moreover have "\<forall>a. pool s' a = (pool s a)\<lparr>lo_next := lo_next (pool s' a)\<rparr>"
      using nxt unfolding pool1 .
    moreover have "\<forall>a. a \<notin> set (filter (\<lambda>a. \<not> ?P a) as) \<longrightarrow> pool s' a = pool s a"
      using out unfolding pool1 ex surv .
    ultimately show ?thesis using res by blast
  qed
qed

section \<open>fillOrders, addLimitOrder and the market loops on a partitioned pool\<close>

lemma pool_fillCompletely [simp]: "pool (fillCompletely p isSell c s) = pool s"
  by (simp add: fillCompletely_def ledgerFill_def Let_def)

lemma head_fillCompletely [simp]:
  "limitOrderHead (fillCompletely p isSell c s) = (limitOrderHead s)(p := lo_next (pool s c))"
  by (simp add: fillCompletely_def ledgerFill_def Let_def)

lemma free_fillCompletely [simp]:
  "freeLimitOrders (fillCompletely p isSell c s) = c # freeLimitOrders s"
  by (simp add: fillCompletely_def ledgerFill_def Let_def)

lemma bid_ask_fillCompletely [simp]:
  "bid (fillCompletely p isSell c s) = bid s" "ask (fillCompletely p isSell c s) = ask s"
  by (simp_all add: fillCompletely_def ledgerFill_def Let_def)

lemma pool_fillPartially [simp]:
  "pool (fillPartially p sz isSell c s) =
     (pool s)(c := (pool s c)\<lparr>lo_size := lo_size (pool s c) - sz\<rparr>)"
  by (simp add: fillPartially_def ledgerFill_def Let_def)

lemma head_fillPartially [simp]:
  "limitOrderHead (fillPartially p sz isSell c s) = limitOrderHead s"
  by (simp add: fillPartially_def ledgerFill_def Let_def)

lemma free_fillPartially [simp]:
  "freeLimitOrders (fillPartially p sz isSell c s) = freeLimitOrders s"
  by (simp add: fillPartially_def ledgerFill_def Let_def)

lemma bid_ask_fillPartially [simp]:
  "bid (fillPartially p sz isSell c s) = bid s" "ask (fillPartially p sz isSell c s) = ask s"
  by (simp_all add: fillPartially_def ledgerFill_def Let_def)

lemma sizes_fillCompletely [simp]: "sizes (fillCompletely p isSell c s) as = sizes s as"
  by (simp add: sizes_def)

lemma fillOrders_loop_fillList:
  "chain (pool s) cur as \<Longrightarrow>
   fillOrders_loop p isSell cur sz ou s = Some (fillList p isSell as sz ou s)"
proof (induction as arbitrary: cur sz ou s)
  case Nil
  then show ?case by (subst fillOrders_loop.simps) simp
next
  case (Cons c cs)
  then have cur: "cur = Some c" and tl: "chain (pool s) (lo_next (pool s c)) cs" by auto
  from tl have "chain (pool (fillCompletely p isSell c s))
      (lo_next (pool (fillCompletely p isSell c s) c)) cs" by simp
  from Cons.IH [OF this] cur show ?case
    by (subst fillOrders_loop.simps) (simp add: Let_def)
qed

lemma fillList_pool:
  "fillList p isSell as sz ou s = (sz', ou', s') \<Longrightarrow>
   (\<forall>a. pool s' a = (pool s a)\<lparr>lo_size := lo_size (pool s' a)\<rparr>) \<and>
   (\<forall>a. a \<notin> set as \<longrightarrow> pool s' a = pool s a)"
proof (induction as arbitrary: sz ou s)
  case Nil
  then show ?case by simp
next
  case (Cons c cs)
  show ?case
  proof (cases "lo_size (pool s c) \<le> sz")
    case True
    with Cons.prems have "fillList p isSell cs (sz - lo_size (pool s c))
        (ou + lo_size (pool s c) * p) (fillCompletely p isSell c s) = (sz', ou', s')"
      by (simp add: Let_def)
    from Cons.IH [OF this] show ?thesis by simp
  next
    case False
    with Cons.prems have "s' = fillPartially p sz isSell c s" by (simp add: Let_def)
    then show ?thesis by simp
  qed
qed

lemma fillList_free:
  "fillList p isSell as sz ou s = (sz', ou', s') \<Longrightarrow>
   freeLimitOrders s' = rev (take (fullCount sz (sizes s as)) as) @ freeLimitOrders s"
proof (induction as arbitrary: sz ou s)
  case Nil
  then show ?case by simp
next
  case (Cons c cs)
  show ?case
  proof (cases "lo_size (pool s c) \<le> sz")
    case True
    with Cons.prems have "fillList p isSell cs (sz - lo_size (pool s c))
        (ou + lo_size (pool s c) * p) (fillCompletely p isSell c s) = (sz', ou', s')"
      by (simp add: Let_def)
    from Cons.IH [OF this] True show ?thesis by (simp add: sizes_def)
  next
    case False
    with Cons.prems have "s' = fillPartially p sz isSell c s" by (simp add: Let_def)
    with False show ?thesis by (simp add: sizes_def)
  qed
qed

lemma fillList_level:
  "chain (pool s) (limitOrderHead s p) as \<Longrightarrow>
   fillList p isSell as sz ou s = (sz', ou', s') \<Longrightarrow>
   chain (pool s') (limitOrderHead s' p) (drop (fullCount sz (sizes s as)) as) \<and>
   (\<forall>q. q \<noteq> p \<longrightarrow> limitOrderHead s' q = limitOrderHead s q) \<and>
   bid s' = bid s \<and> ask s' = ask s"
proof (induction as arbitrary: sz ou s)
  case Nil
  then show ?case by simp
next
  case (Cons c cs)
  from Cons.prems(1) have hd: "limitOrderHead s p = Some c"
    and tl: "chain (pool s) (lo_next (pool s c)) cs" by auto
  show ?case
  proof (cases "lo_size (pool s c) \<le> sz")
    case True
    let ?s1 = "fillCompletely p isSell c s"
    from True Cons.prems(2) have r: "fillList p isSell cs (sz - lo_size (pool s c))
        (ou + lo_size (pool s c) * p) ?s1 = (sz', ou', s')"
      by (simp add: Let_def)
    from tl have "chain (pool ?s1) (limitOrderHead ?s1 p) cs" by simp
    from Cons.IH [OF this r] True show ?thesis by (simp add: sizes_def)
  next
    case False
    with Cons.prems(2) have s': "s' = fillPartially p sz isSell c s" by (simp add: Let_def)
    have "chain (pool s') (limitOrderHead s p) (c # cs) =
        chain (pool s) (limitOrderHead s p) (c # cs)"
      by (rule chain_cong_next) (simp add: s')
    with Cons.prems(1) have ch: "chain (pool s') (limitOrderHead s p) (c # cs)" by blast
    have same: "limitOrderHead s' = limitOrderHead s" "bid s' = bid s" "ask s' = ask s"
      by (simp_all add: s')
    from False have "fullCount sz (sizes s (c # cs)) = 0" by (simp add: sizes_def)
    with ch same show ?thesis by (simp del: chain.simps)
  qed
qed

lemma lastLimitOrder_chain:
  "chain h (Some c) as \<Longrightarrow> lastLimitOrder h c = Some (last as)"
proof (induction as arbitrary: c)
  case Nil
  then show ?case by simp
next
  case (Cons a as)
  then have ca: "c = a" and tl: "chain h (lo_next (h a)) as" by auto
  show ?case
  proof (cases "lo_next (h a)")
    case None
    with tl have "as = []" by simp
    with None ca show ?thesis by (subst lastLimitOrder.simps) simp
  next
    case (Some b)
    with tl have "chain h (Some b) as" by simp
    from Cons.IH [OF this] have "lastLimitOrder h b = Some (last as)" .
    moreover from Some tl have "as \<noteq> []" by auto
    ultimately show ?thesis using Some ca by (subst lastLimitOrder.simps) simp
  qed
qed

lemma chain_snoc:
  "chain h x as \<Longrightarrow> as \<noteq> [] \<Longrightarrow> lo \<notin> set as \<Longrightarrow> lo_next (h lo) = None \<Longrightarrow>
   chain (h(last as := (h (last as))\<lparr>lo_next := Some lo\<rparr>)) x (as @ [lo])"
proof (induction as arbitrary: x)
  case Nil
  then show ?case by simp
next
  case (Cons a as)
  show ?case
  proof (cases "as = []")
    case True
    with Cons.prems show ?thesis by auto
  next
    case False
    from Cons.prems(1) have x: "x = Some a" and tl: "chain h (lo_next (h a)) as" by auto
    from tl have "a \<notin> set as" by (rule chain_next_notin)
    with False have ne: "a \<noteq> last as" by (metis last_in_set)
    define h' where "h' = h(last as := (h (last as))\<lparr>lo_next := Some lo\<rparr>)"
    from Cons.prems(3) have "lo \<notin> set as" by simp
    from Cons.IH [OF tl False this Cons.prems(4)]
    have ih: "chain h' (lo_next (h a)) (as @ [lo])" unfolding h'_def .
    from ne have "h' a = h a" by (simp add: h'_def)
    with ih x have "chain h' x ((a # as) @ [lo])" by simp
    moreover from False have lastq: "last (a # as) = last as" by simp
    ultimately show ?thesis unfolding h'_def lastq by blast
  qed
qed

lemma addLimitOrder_level:
  assumes lv: "level s p as" and fr: "freeLimitOrders s = lo # fr" and lo: "lo \<notin> set as"
    and p: "p < NUM_PRICES"
    and room: "usr \<longrightarrow> length (userLimitOrders s) < MAX_NUM_USER_LIMIT_ORDERS"
  shows "\<exists>s'. addLimitOrder p sz e usr s = Some (Inr s') \<and>
     level s' p (if fillTiesInStackOrder s then lo # as else as @ [lo]) \<and>
     freeLimitOrders s' = fr \<and>
     lo_size (pool s' lo) = sz \<and> lo_p (pool s' lo) = p \<and>
     lo_expirationTime (pool s' lo) = e \<and> lo_user (pool s' lo) = usr \<and>
     (\<forall>a. a \<noteq> lo \<longrightarrow> pool s' a = (pool s a)\<lparr>lo_next := lo_next (pool s' a)\<rparr>) \<and>
     (\<forall>a. a \<notin> set (lo # as) \<longrightarrow> pool s' a = pool s a) \<and>
     (\<forall>q. q \<noteq> p \<longrightarrow> limitOrderHead s' q = limitOrderHead s q) \<and>
     userLimitOrders s' = (if usr then userLimitOrders s @ [lo] else userLimitOrders s) \<and>
     bid s' = bid s \<and> ask s' = ask s \<and> balance s' = balance s \<and>
     sharesOpen s' = sharesOpen s \<and> fillTiesInStackOrder s' = fillTiesInStackOrder s \<and>
     realisticUserMarketOrders s' = realisticUserMarketOrders s"
proof -
  let ?rec = "\<lparr>lo_size = sz, lo_p = p, lo_expirationTime = e, lo_next = None, lo_user = usr\<rparr>"
  let ?s1 = "s\<lparr>freeLimitOrders := fr, pool := (pool s)(lo := ?rec),
               userLimitOrders := (if usr then userLimitOrders s @ [lo] else userLimitOrders s)\<rparr>"
  from p have np: "\<not> NUM_PRICES \<le> p" by (simp add: not_le)
  from room have nroom: "\<not> (usr \<and> MAX_NUM_USER_LIMIT_ORDERS \<le> length (userLimitOrders s))"
    by auto
  from lv lo have ch1: "chain (pool ?s1) (limitOrderHead s p) as"
    by (simp add: level_def chain_upd_notin)
  show ?thesis
  proof (cases "limitOrderHead s p")
    case None
    with lv have "as = []" by (simp add: level_def)
    with None fr np nroom show ?thesis
      by (simp add: addLimitOrder_def Let_def level_def)
  next
    case (Some c)
    with lv obtain bs where as: "as = c # bs" by (auto simp: level_def chain_Some)
    show ?thesis
    proof (cases "fillTiesInStackOrder s")
      case True
      from ch1 have "chain ((pool ?s1)(lo := (pool ?s1 lo)\<lparr>lo_next := Some c\<rparr>)) (Some c) as"
        using lo Some by (simp add: chain_upd_notin)
      with Some fr np nroom True show ?thesis
        by (simp add: addLimitOrder_def Let_def level_def)
    next
      case False
      from ch1 Some have "lastLimitOrder (pool ?s1) c = Some (last as)"
        by (simp add: lastLimitOrder_chain)
      moreover
      have "chain ((pool ?s1)(last as := (pool ?s1 (last as))\<lparr>lo_next := Some lo\<rparr>))
          (limitOrderHead s p) (as @ [lo])"
        using ch1 as lo by (intro chain_snoc) simp_all
      moreover have "last as \<noteq> lo" using lo as by (metis last_in_set list.distinct(1))
      moreover have "last as \<in> set as" using as by (metis last_in_set list.distinct(1))
      ultimately show ?thesis using Some fr np nroom False
        by (auto simp: addLimitOrder_def Let_def level_def)
    qed
  qed
qed

lemma slotInv_level: "slotInv n s lv \<Longrightarrow> level s p (lv p)"
  by (simp add: slotInv_def)

lemma slotInv_move:
  assumes inv: "slotInv n s lv"
    and lv': "level s' p as'"
    and heads: "\<forall>q. q \<noteq> p \<longrightarrow> limitOrderHead s' q = limitOrderHead s q"
    and nxt: "\<forall>a. a \<notin> set (lv p) \<union> set (freeLimitOrders s) \<longrightarrow>
               lo_next (pool s' a) = lo_next (pool s a)"
    and dist: "distinct (freeLimitOrders s')"
    and disj: "set as' \<inter> set (freeLimitOrders s') = {}"
    and same: "set (freeLimitOrders s') \<union> set as' = set (freeLimitOrders s) \<union> set (lv p)"
  shows "slotInv n s' (lv(p := as'))"
proof -
  from inv have lvs: "\<And>q. level s q (lv q)"
    and d1: "\<And>q. set (lv q) \<inter> set (freeLimitOrders s) = {}"
    and d2: "\<And>q r. q \<noteq> r \<Longrightarrow> set (lv q) \<inter> set (lv r) = {}"
    and un: "set (freeLimitOrders s) \<union> (\<Union>q. set (lv q)) = {..<n}"
    by (auto simp: slotInv_def)
  have other: "level s' q (lv q)" if "q \<noteq> p" for q
  proof -
    have "chain (pool s') (limitOrderHead s q) (lv q) = chain (pool s) (limitOrderHead s q) (lv q)"
    proof (rule chain_cong_next)
      fix a assume "a \<in> set (lv q)"
      with d1 [of q] d2 [OF that] have "a \<notin> set (lv p) \<union> set (freeLimitOrders s)" by auto
      with nxt show "lo_next (pool s' a) = lo_next (pool s a)" by blast
    qed
    with lvs [of q] heads that show ?thesis by (simp add: level_def)
  qed
  have a: "\<forall>q. level s' q ((lv(p := as')) q)" using lv' other by simp
  have sub: "\<And>q. q \<noteq> p \<Longrightarrow> set (lv q) \<inter> (set (freeLimitOrders s) \<union> set (lv p)) = {}"
    using d1 d2 by blast
  have in1: "set as' \<subseteq> set (freeLimitOrders s) \<union> set (lv p)"
    and in2: "set (freeLimitOrders s') \<subseteq> set (freeLimitOrders s) \<union> set (lv p)"
    using same by blast+
  have b: "\<forall>q. set ((lv(p := as')) q) \<inter> set (freeLimitOrders s') = {}"
  proof
    fix q
    show "set ((lv(p := as')) q) \<inter> set (freeLimitOrders s') = {}"
    proof (cases "q = p")
      case True
      with disj show ?thesis by simp
    next
      case False
      with sub [OF False] in2 show ?thesis by auto
    qed
  qed
  have c: "\<forall>q r. q \<noteq> r \<longrightarrow> set ((lv(p := as')) q) \<inter> set ((lv(p := as')) r) = {}"
  proof (intro allI impI)
    fix q r :: u32
    assume qr: "q \<noteq> r"
    consider "q = p" "r \<noteq> p" | "r = p" "q \<noteq> p" | "q \<noteq> p" "r \<noteq> p"
      using qr by blast
    then show "set ((lv(p := as')) q) \<inter> set ((lv(p := as')) r) = {}"
    proof cases
      case 1
      with sub [of r] in1 show ?thesis by auto
    next
      case 2
      with sub [of q] in1 show ?thesis by auto
    next
      case 3
      with d2 [OF qr] show ?thesis by simp
    qed
  qed
  have "(\<Union>q. set ((lv(p := as')) q)) = set as' \<union> (\<Union>q\<in>{q. q \<noteq> p}. set (lv q))"
    by (auto split: if_splits)
  moreover have "(\<Union>q. set (lv q)) = set (lv p) \<union> (\<Union>q\<in>{q. q \<noteq> p}. set (lv q))"
    by auto
  ultimately have d: "set (freeLimitOrders s') \<union> (\<Union>q. set ((lv(p := as')) q)) = {..<n}"
    using un same by (simp add: Un_assoc [symmetric])
  from a dist b c d show ?thesis unfolding slotInv_def by blast
qed

lemma slotInv_updateLimitOrders:
  assumes inv: "slotInv n s lv" and p: "p < NUM_PRICES"
  shows "\<exists>s'. updateLimitOrders p t s = Some (Inr s') \<and>
     slotInv n s' (lv(p := filter (\<lambda>a. \<not> expired s t a) (lv p))) \<and>
     s' = s\<lparr>pool := pool s', freeLimitOrders := freeLimitOrders s',
             limitOrderHead := (limitOrderHead s)(p := limitOrderHead s' p)\<rparr> \<and>
     (\<forall>a. pool s' a = (pool s a)\<lparr>lo_next := lo_next (pool s' a)\<rparr>) \<and>
     (\<forall>a. a \<notin> set (lv p) \<longrightarrow> pool s' a = pool s a)"
proof -
  let ?live = "filter (\<lambda>a. \<not> expired s t a) (lv p)"
  let ?dead = "filter (expired s t) (lv p)"
  from inv have lv: "level s p (lv p)" by (rule slotInv_level)
  from updateLimitOrders_level [OF lv p, of t] obtain s' where
    r: "updateLimitOrders p t s = Some (Inr s')"
    and lv': "level s' p ?live"
    and fr: "freeLimitOrders s' = rev ?dead @ freeLimitOrders s"
    and eq: "s' = s\<lparr>pool := pool s', freeLimitOrders := freeLimitOrders s',
             limitOrderHead := (limitOrderHead s)(p := limitOrderHead s' p)\<rparr>"
    and nxt: "\<forall>a. pool s' a = (pool s a)\<lparr>lo_next := lo_next (pool s' a)\<rparr>"
    and out: "\<forall>a. a \<notin> set ?live \<longrightarrow> pool s' a = pool s a"
    by blast
  from inv have df: "distinct (freeLimitOrders s)"
    and dj: "set (lv p) \<inter> set (freeLimitOrders s) = {}" by (auto simp: slotInv_def)
  from lv have dl: "distinct (lv p)" unfolding level_def by (rule chain_distinct)
  have heads: "\<forall>q. q \<noteq> p \<longrightarrow> limitOrderHead s' q = limitOrderHead s q"
    by (subst eq) simp
  have out': "\<forall>a. a \<notin> set (lv p) \<longrightarrow> pool s' a = pool s a" using out by auto
  then have nx: "\<forall>a. a \<notin> set (lv p) \<union> set (freeLimitOrders s) \<longrightarrow>
      lo_next (pool s' a) = lo_next (pool s a)" by auto
  have d: "distinct (freeLimitOrders s')" using df dl dj by (auto simp: fr)
  have e: "set ?live \<inter> set (freeLimitOrders s') = {}" using dj by (auto simp: fr)
  have f: "set (freeLimitOrders s') \<union> set ?live = set (freeLimitOrders s) \<union> set (lv p)"
    by (auto simp: fr)
  from slotInv_move [OF inv lv' heads nx d e f] r eq nxt out' show ?thesis by blast
qed

lemma slotInv_fillOrders:
  assumes inv: "slotInv n s lv" and p: "p < NUM_PRICES"
  shows "\<exists>sz' ou' s'. fillOrders p sz ou isSell s = Some (Inr (sz', ou', s')) \<and>
     fillList p isSell (lv p) sz ou s = (sz', ou', s') \<and>
     slotInv n s' (lv(p := drop (fullCount sz (sizes s (lv p))) (lv p)))"
proof -
  let ?k = "fullCount sz (sizes s (lv p))"
  obtain sz' ou' s' where fl: "fillList p isSell (lv p) sz ou s = (sz', ou', s')"
    by (cases "fillList p isSell (lv p) sz ou s") auto
  from inv have lv: "level s p (lv p)" by (rule slotInv_level)
  then have ch: "chain (pool s) (limitOrderHead s p) (lv p)" by (simp add: level_def)
  from p have np: "\<not> NUM_PRICES \<le> p" by (simp add: not_le)
  have r: "fillOrders p sz ou isSell s = Some (Inr (sz', ou', s'))"
    using np fl fillOrders_loop_fillList [OF ch] by (simp add: fillOrders_def)
  from fillList_level [OF ch fl]
  have lv': "level s' p (drop ?k (lv p))"
    and heads: "\<forall>q. q \<noteq> p \<longrightarrow> limitOrderHead s' q = limitOrderHead s q"
    by (simp_all add: level_def)
  from fillList_free [OF fl]
  have fr: "freeLimitOrders s' = rev (take ?k (lv p)) @ freeLimitOrders s" .
  from fillList_pool [OF fl]
  have "\<forall>a. pool s' a = (pool s a)\<lparr>lo_size := lo_size (pool s' a)\<rparr>" by blast
  then have "\<forall>a. lo_next (pool s' a) = lo_next ((pool s a)\<lparr>lo_size := lo_size (pool s' a)\<rparr>)"
    by metis
  then have nx: "\<forall>a. a \<notin> set (lv p) \<union> set (freeLimitOrders s) \<longrightarrow>
      lo_next (pool s' a) = lo_next (pool s a)" by simp
  from inv have df: "distinct (freeLimitOrders s)"
    and dj: "set (lv p) \<inter> set (freeLimitOrders s) = {}" by (auto simp: slotInv_def)
  from ch have dl: "distinct (lv p)" by (rule chain_distinct)
  have sp: "lv p = take ?k (lv p) @ drop ?k (lv p)" by simp
  from dl have dtd: "distinct (take ?k (lv p))"
    and tdd: "set (take ?k (lv p)) \<inter> set (drop ?k (lv p)) = {}"
    by (simp, metis sp distinct_append)
  have sub1: "set (take ?k (lv p)) \<subseteq> set (lv p)" by (rule set_take_subset)
  have sub2: "set (drop ?k (lv p)) \<subseteq> set (lv p)" by (rule set_drop_subset)
  have d: "distinct (freeLimitOrders s')" using df dtd dj sub1 by (auto simp: fr)
  have e: "set (drop ?k (lv p)) \<inter> set (freeLimitOrders s') = {}"
    using dj tdd sub2 by (auto simp: fr)
  have "set (take ?k (lv p)) \<union> set (drop ?k (lv p)) = set (lv p)"
    by (metis sp set_append)
  then have f: "set (freeLimitOrders s') \<union> set (drop ?k (lv p)) =
      set (freeLimitOrders s) \<union> set (lv p)"
    by (auto simp: fr)
  from slotInv_move [OF inv lv' heads nx d e f] r fl show ?thesis by blast
qed

lemma slotInv_addLimitOrder:
  assumes inv: "slotInv n s lv" and fr: "freeLimitOrders s = lo # fr" and p: "p < NUM_PRICES"
    and room: "usr \<longrightarrow> length (userLimitOrders s) < MAX_NUM_USER_LIMIT_ORDERS"
  shows "\<exists>s'. addLimitOrder p sz e usr s = Some (Inr s') \<and>
     slotInv n s' (lv(p := if fillTiesInStackOrder s then lo # lv p else lv p @ [lo]))"
proof -
  let ?as' = "if fillTiesInStackOrder s then lo # lv p else lv p @ [lo]"
  from inv have lv: "level s p (lv p)" by (rule slotInv_level)
  from inv have df: "distinct (freeLimitOrders s)"
    and dj: "set (lv p) \<inter> set (freeLimitOrders s) = {}" by (auto simp: slotInv_def)
  from dj fr have lo: "lo \<notin> set (lv p)" by auto
  from addLimitOrder_level [OF lv fr lo p room, of sz e] obtain s' where
    r: "addLimitOrder p sz e usr s = Some (Inr s')"
    and lv': "level s' p ?as'"
    and fr': "freeLimitOrders s' = fr"
    and out: "\<forall>a. a \<notin> set (lo # lv p) \<longrightarrow> pool s' a = pool s a"
    and heads: "\<forall>q. q \<noteq> p \<longrightarrow> limitOrderHead s' q = limitOrderHead s q"
    by blast
  from out fr have nx: "\<forall>a. a \<notin> set (lv p) \<union> set (freeLimitOrders s) \<longrightarrow>
      lo_next (pool s' a) = lo_next (pool s a)" by auto
  have d: "distinct (freeLimitOrders s')" using df fr fr' by simp
  have e: "set ?as' \<inter> set (freeLimitOrders s') = {}" using df dj fr fr' by auto
  have f: "set (freeLimitOrders s') \<union> set ?as' = set (freeLimitOrders s) \<union> set (lv p)"
    using fr fr' by auto
  from slotInv_move [OF inv lv' heads nx d e f] r show ?thesis by blast
qed

lemma slotInv_setupBook:
  "slotInv n (setupBook n stackOrder realistic) (\<lambda>_. [])"
  by (auto simp: slotInv_def setupBook_def level_def)

lemma takenAt_zero: "notional32 (takenAt 0 xs) = 0 \<and> quantity32 (takenAt 0 xs) = 0"
  by (induction xs) (auto simp: notional32_def quantity32_def)

lemma notional32_append: "notional32 (xs @ ys) = notional32 xs + notional32 ys"
  by (simp add: notional32_def)

lemma quantity32_append: "quantity32 (xs @ ys) = quantity32 xs + quantity32 ys"
  by (simp add: quantity32_def)

lemma takenAt_append:
  "takenAt sz (xs @ ys) = takenAt sz xs @ takenAt (sz - quantity32 (takenAt sz xs)) ys"
proof (induction xs arbitrary: sz)
  case Nil
  then show ?case by (simp add: quantity32_def)
next
  case (Cons x xs)
  obtain pr q where x: "x = (pr, q)" by (cases x)
  show ?case by (simp add: x Cons.IH quantity32_def diff_diff_eq)
qed

lemma fillList_value:
  "fillList p isSell as sz ou s = (sz', ou', s') \<Longrightarrow>
   ou' = ou + notional32 (takenAt sz (map (\<lambda>a. (p, lo_size (pool s a))) as)) \<and>
   sz' = sz - quantity32 (takenAt sz (map (\<lambda>a. (p, lo_size (pool s a))) as))"
proof (induction as arbitrary: sz ou s)
  case Nil
  then show ?case by (simp add: notional32_def quantity32_def)
next
  case (Cons c cs)
  let ?q = "lo_size (pool s c)"
  let ?rest = "map (\<lambda>a. (p, lo_size (pool s a))) cs"
  show ?case
  proof (cases "?q \<le> sz")
    case True
    then have m: "min ?q sz = ?q" by (simp add: min_def)
    from True Cons.prems have "fillList p isSell cs (sz - ?q) (ou + ?q * p)
        (fillCompletely p isSell c s) = (sz', ou', s')"
      by (simp add: Let_def)
    from Cons.IH [OF this]
    have "ou' = ou + ?q * p + notional32 (takenAt (sz - ?q) ?rest)"
      and "sz' = sz - ?q - quantity32 (takenAt (sz - ?q) ?rest)" by simp_all
    then show ?thesis by (simp add: m notional32_def quantity32_def diff_diff_eq add.assoc)
  next
    case False
    then have m: "min ?q sz = sz" by (simp add: min_def)
    from False Cons.prems have "sz' = 0" "ou' = ou + sz * p" by (simp_all add: Let_def)
    moreover have "notional32 (takenAt sz ((p, ?q) # ?rest)) = sz * p"
      and "quantity32 (takenAt sz ((p, ?q) # ?rest)) = sz"
      using takenAt_zero [of ?rest] by (simp_all add: m notional32_def quantity32_def)
    ultimately show ?thesis by simp
  qed
qed

lemma word_less_succ: "(p::'a::len word) < y \<Longrightarrow> p < p + 1"
  using word_succ_unat [of p y] by (simp add: word_less_nat_alt)

lemma word_pred_lt: "(p::'a::len word) \<noteq> 0 \<Longrightarrow> p - 1 < p"
  using word_pred_less [of p] by (simp add: word_less_nat_alt)

lemma pricesFrom_ge: "q \<in> set (pricesFrom p) \<Longrightarrow> p \<le> q"
proof (induction p rule: pricesFrom.induct)
  case (1 p)
  show ?case
  proof (cases "p < NUM_PRICES")
    case True
    with "1.prems" have "q = p \<or> q \<in> set (pricesFrom (p + 1))"
      by (subst (asm) pricesFrom.simps) simp
    then show ?thesis
    proof
      assume "q = p" then show ?thesis by simp
    next
      assume "q \<in> set (pricesFrom (p + 1))"
      with "1.IH" [OF True] have "p + 1 \<le> q" by simp
      moreover from True have "p < p + 1" by (rule word_less_succ)
      ultimately show ?thesis by simp
    qed
  next
    case False
    with "1.prems" show ?thesis by (subst (asm) pricesFrom.simps) simp
  qed
qed

lemma pricesFrom_notin: "p < NUM_PRICES \<Longrightarrow> p \<notin> set (pricesFrom (p + 1))"
proof
  assume lt: "p < NUM_PRICES" and "p \<in> set (pricesFrom (p + 1))"
  then have "p + 1 \<le> p" by (simp add: pricesFrom_ge)
  moreover from lt have "p < p + 1" by (rule word_less_succ)
  ultimately show False by simp
qed

lemma pricesDownFrom_le: "q \<in> set (pricesDownFrom p) \<Longrightarrow> q \<le> p"
proof (induction p rule: pricesDownFrom.induct)
  case (1 p)
  show ?case
  proof (cases "p = UINT_MAX")
    case True
    then show ?thesis by (simp add: UINT_MAX_def)
  next
    case False
    with "1.prems" have "q = p \<or> q \<in> set (pricesDownFrom (p - 1))"
      by (subst (asm) pricesDownFrom.simps) simp
    then show ?thesis
    proof
      assume "q = p" then show ?thesis by simp
    next
      assume a: "q \<in> set (pricesDownFrom (p - 1))"
      with "1.IH" [OF False] have le: "q \<le> p - 1" by simp
      show ?thesis
      proof (cases "p = 0")
        case True
        with a show ?thesis by (subst (asm) pricesDownFrom.simps) (simp add: UINT_MAX_def)
      next
        case False
        then have "p - 1 < p" by (rule word_pred_lt)
        with le show ?thesis by simp
      qed
    qed
  qed
qed

lemma pricesDownFrom_notin: "p \<notin> set (pricesDownFrom (p - 1))"
proof (cases "p = 0")
  case True
  then show ?thesis by (subst pricesDownFrom.simps) (simp add: UINT_MAX_def)
next
  case False
  show ?thesis
  proof
    assume "p \<in> set (pricesDownFrom (p - 1))"
    then have "p \<le> p - 1" by (rule pricesDownFrom_le)
    moreover from False have "p - 1 < p" by (rule word_pred_lt)
    ultimately show False by simp
  qed
qed

lemma slotInv_bid_ask [simp]:
  "slotInv n (s\<lparr>ask := x\<rparr>) lv = slotInv n s lv"
  "slotInv n (s\<lparr>bid := x\<rparr>) lv = slotInv n s lv"
  by (simp_all add: slotInv_def level_def)

lemma expired_bid_ask [simp]:
  "expired (s\<lparr>ask := x\<rparr>) = expired s" "expired (s\<lparr>bid := x\<rparr>) = expired s"
  by (simp_all add: expired_def fun_eq_iff)

lemma resting_bid_ask [simp]:
  "resting (s\<lparr>ask := x\<rparr>) = resting s" "resting (s\<lparr>bid := x\<rparr>) = resting s"
  by (simp_all add: resting_def fun_eq_iff)

lemma fillList_hungry:
  "fillList p isSell as sz ou s = (sz', ou', s') \<Longrightarrow> sz' \<noteq> 0 \<Longrightarrow>
   fullCount sz (sizes s as) = length as"
proof (induction as arbitrary: sz ou s)
  case Nil
  then show ?case by (simp add: sizes_def)
next
  case (Cons c cs)
  show ?case
  proof (cases "lo_size (pool s c) \<le> sz")
    case True
    with Cons.prems have "fillList p isSell cs (sz - lo_size (pool s c))
        (ou + lo_size (pool s c) * p) (fillCompletely p isSell c s) = (sz', ou', s')"
      by (simp add: Let_def)
    from Cons.IH [OF this Cons.prems(2)] True show ?thesis by (simp add: sizes_def)
  next
    case False
    with Cons.prems show ?thesis by (simp add: Let_def)
  qed
qed

lemma level_step:
  assumes inv: "slotInv n s lv" and p: "p < NUM_PRICES"
  shows "\<exists>s1 sz' ou' s2 lv2.
     updateLimitOrders p t s = Some (Inr s1) \<and>
     fillOrders p sz ou isSell s1 = Some (Inr (sz', ou', s2)) \<and>
     slotInv n s2 lv2 \<and>
     (\<forall>q. q \<noteq> p \<longrightarrow> lv2 q = lv q) \<and>
     (\<forall>q. q \<noteq> p \<longrightarrow> limitOrderHead s2 q = limitOrderHead s q) \<and>
     (\<forall>a. a \<notin> set (lv p) \<longrightarrow> pool s2 a = pool s a) \<and>
     ou' = ou + notional32 (takenAt sz (resting s t p (lv p))) \<and>
     sz' = sz - quantity32 (takenAt sz (resting s t p (lv p))) \<and>
     (sz' \<noteq> 0 \<longrightarrow> limitOrderHead s2 p = None) \<and>
     bid s2 = bid s \<and> ask s2 = ask s"
proof -
  let ?live = "filter (\<lambda>a. \<not> expired s t a) (lv p)"
  let ?lv1 = "lv(p := ?live)"
  from slotInv_updateLimitOrders [OF inv p, of t] obtain s1 where
    r1: "updateLimitOrders p t s = Some (Inr s1)"
    and inv1: "slotInv n s1 ?lv1"
    and eq1: "s1 = s\<lparr>pool := pool s1, freeLimitOrders := freeLimitOrders s1,
             limitOrderHead := (limitOrderHead s)(p := limitOrderHead s1 p)\<rparr>"
    and nxt1: "\<forall>a. pool s1 a = (pool s a)\<lparr>lo_next := lo_next (pool s1 a)\<rparr>"
    and out1: "\<forall>a. a \<notin> set (lv p) \<longrightarrow> pool s1 a = pool s a"
    by blast
  let ?k = "fullCount sz (sizes s1 (?lv1 p))"
  let ?lv2 = "?lv1(p := drop ?k (?lv1 p))"
  from slotInv_fillOrders [OF inv1 p, of sz ou isSell] obtain sz' ou' s2 where
    r2: "fillOrders p sz ou isSell s1 = Some (Inr (sz', ou', s2))"
    and fl: "fillList p isSell (?lv1 p) sz ou s1 = (sz', ou', s2)"
    and inv2: "slotInv n s2 ?lv2"
    by blast
  from fl have fl': "fillList p isSell ?live sz ou s1 = (sz', ou', s2)" by simp
  have sz1: "\<And>a. lo_size (pool s1 a) = lo_size (pool s a)"
    by (subst nxt1 [rule_format]) simp
  have "map (\<lambda>a. (p, lo_size (pool s1 a))) ?live = resting s t p (lv p)"
    by (simp add: resting_def sz1)
  with fillList_value [OF fl']
  have val: "ou' = ou + notional32 (takenAt sz (resting s t p (lv p)))"
    and rem: "sz' = sz - quantity32 (takenAt sz (resting s t p (lv p)))" by simp_all
  from inv1 have ch1: "chain (pool s1) (limitOrderHead s1 p) ?live"
    by (auto dest: slotInv_level [of _ _ _ p] simp: level_def)
  from fillList_level [OF ch1 fl']
  have heads2: "\<forall>q. q \<noteq> p \<longrightarrow> limitOrderHead s2 q = limitOrderHead s1 q"
    and ba2: "bid s2 = bid s1" "ask s2 = ask s1" by simp_all
  have heads1: "\<forall>q. q \<noteq> p \<longrightarrow> limitOrderHead s1 q = limitOrderHead s q"
    by (subst eq1) simp
  have ba1: "bid s1 = bid s" "ask s1 = ask s" by (subst eq1, simp)+
  from fillList_pool [OF fl'] have "\<forall>a. a \<notin> set ?live \<longrightarrow> pool s2 a = pool s1 a" by blast
  with out1 have out2: "\<forall>a. a \<notin> set (lv p) \<longrightarrow> pool s2 a = pool s a" by auto
  have empty: "sz' \<noteq> 0 \<longrightarrow> limitOrderHead s2 p = None"
  proof
    assume "sz' \<noteq> 0"
    from fillList_hungry [OF fl' this] have "drop ?k (?lv1 p) = []" by simp
    with inv2 have "level s2 p []" by (auto dest: slotInv_level [of _ _ _ p])
    then show "limitOrderHead s2 p = None" by (simp add: level_def)
  qed
  have "\<forall>q. q \<noteq> p \<longrightarrow> ?lv2 q = lv q" by simp
  with r1 r2 inv2 heads1 heads2 out2 val rem empty ba1 ba2 show ?thesis
    by (intro exI [of _ s1] exI [of _ sz'] exI [of _ ou'] exI [of _ s2] exI [of _ ?lv2]) simp
qed

lemma resting_frame:
  assumes inv: "slotInv n s lv"
    and lv2: "\<forall>q. q \<noteq> p \<longrightarrow> lv2 q = lv q"
    and out: "\<forall>a. a \<notin> set (lv p) \<longrightarrow> pool s2 a = pool s a"
    and notin: "p \<notin> set qs"
  shows "concat (map (\<lambda>q. resting s2 t q (lv2 q)) qs) = concat (map (\<lambda>q. resting s t q (lv q)) qs)"
proof -
  have "resting s2 t q (lv2 q) = resting s t q (lv q)" if "q \<in> set qs" for q
  proof -
    from that notin have qp: "q \<noteq> p" by auto
    with inv have "set (lv q) \<inter> set (lv p) = {}" by (simp add: slotInv_def)
    with out have same: "\<And>a. a \<in> set (lv q) \<Longrightarrow> pool s2 a = pool s a" by auto
    have "filter (\<lambda>a. \<not> expired s2 t a) (lv q) = filter (\<lambda>a. \<not> expired s t a) (lv q)"
      by (rule filter_cong) (simp_all add: expired_def same)
    moreover have "map (\<lambda>a. (q, lo_size (pool s2 a))) (filter (\<lambda>a. \<not> expired s t a) (lv q)) =
        map (\<lambda>a. (q, lo_size (pool s a))) (filter (\<lambda>a. \<not> expired s t a) (lv q))"
      by (rule map_cong) (simp_all add: same)
    ultimately show ?thesis using qp lv2 by (simp add: resting_def)
  qed
  then have "map (\<lambda>q. resting s2 t q (lv2 q)) qs = map (\<lambda>q. resting s t q (lv q)) qs"
    by (intro map_cong) simp_all
  then show ?thesis by (rule arg_cong)
qed

lemma word_succ_le: "(p::'a::len word) < q \<Longrightarrow> p + 1 \<le> q"
  using word_succ_unat [of p q] by (simp add: word_less_nat_alt word_le_nat_alt)

lemma restingSells_unfold:
  "p < NUM_PRICES \<Longrightarrow> restingSells s lv t p = resting s t p (lv p) @ restingSells s lv t (p + 1)"
  by (subst restingSells_def, subst pricesFrom.simps) (simp add: restingSells_def)

lemma takenAt_split:
  "notional32 (takenAt sz (xs @ ys)) =
     notional32 (takenAt sz xs) + notional32 (takenAt (sz - quantity32 (takenAt sz xs)) ys)"
  "quantity32 (takenAt sz (xs @ ys)) =
     quantity32 (takenAt sz xs) + quantity32 (takenAt (sz - quantity32 (takenAt sz xs)) ys)"
  by (simp_all add: takenAt_append notional32_append quantity32_append)

lemma buyPostI:
  assumes "ou' = ou + notional32 (takenAt sz (restingSells s lv t p))"
    and "quantity32 (takenAt sz (restingSells s lv t p)) = sz"
    and "\<exists>lv'. slotInv n s' lv'"
    and "bid s' = bid s"
    and "sz = 0 \<Longrightarrow> s' = s"
    and "0 < sz \<Longrightarrow> p \<le> ask s' \<and> ask s' < NUM_PRICES \<and> limitOrderHead s (ask s') \<noteq> None"
    and "\<And>q. 0 < sz \<Longrightarrow> p \<le> q \<Longrightarrow> q < ask s' \<Longrightarrow> limitOrderHead s' q = None"
    and "\<And>q. q < p \<Longrightarrow> limitOrderHead s' q = limitOrderHead s q"
  shows "buyPost n lv t p sz ou s ou' s'"
  unfolding buyPost_def using assms by simp

lemma buyPost_value:
  "buyPost n lv t p sz ou s ou' s' \<Longrightarrow>
   ou' = ou + notional32 (takenAt sz (restingSells s lv t p)) \<and>
   quantity32 (takenAt sz (restingSells s lv t p)) = sz"
  by (simp add: buyPost_def)

lemma buyPost_inv: "buyPost n lv t p sz ou s ou' s' \<Longrightarrow> \<exists>lv'. slotInv n s' lv'"
  by (simp add: buyPost_def)

lemma buyPost_bid: "buyPost n lv t p sz ou s ou' s' \<Longrightarrow> bid s' = bid s"
  by (simp add: buyPost_def)

lemma buyPost_zero: "buyPost n lv t p sz ou s ou' s' \<Longrightarrow> sz = 0 \<Longrightarrow> s' = s"
  by (simp add: buyPost_def)

lemma buyPost_ask:
  "buyPost n lv t p sz ou s ou' s' \<Longrightarrow> 0 < sz \<Longrightarrow>
   p \<le> ask s' \<and> ask s' < NUM_PRICES \<and> limitOrderHead s (ask s') \<noteq> None"
  by (simp add: buyPost_def)

lemma buyPost_emptied:
  "buyPost n lv t p sz ou s ou' s' \<Longrightarrow> 0 < sz \<Longrightarrow> p \<le> q \<Longrightarrow> q < ask s' \<Longrightarrow>
   limitOrderHead s' q = None"
  by (simp add: buyPost_def)

lemma buyPost_below:
  "buyPost n lv t p sz ou s ou' s' \<Longrightarrow> q < p \<Longrightarrow> limitOrderHead s' q = limitOrderHead s q"
  by (simp add: buyPost_def)

lemma marketBuy_loop_inv:
  "slotInv n s lv \<Longrightarrow>
   \<exists>r. marketBuy_loop p t sz ou s = Some r \<and>
     (\<forall>ou' s'. r = Inr (ou', s') \<longrightarrow> buyPost n lv t p sz ou s ou' s')"
proof (induction p t sz ou s arbitrary: lv rule: marketBuy_loop.induct)
  case (1 p t sz ou s)
  show ?case
  proof (cases "0 < sz")
    case False
    then have z: "sz = 0" using word_neq_0_conv by blast
    have "marketBuy_loop p t sz ou s = Some (Inr (ou, s))"
      by (subst marketBuy_loop.simps) (simp add: z)
    moreover have "buyPost n lv t p sz ou s ou s"
      using takenAt_zero [of "restingSells s lv t p"] "1.prems" z
      by (intro buyPostI) auto
    ultimately show ?thesis by simp
  next
    case pos: True
    show ?thesis
    proof (cases "NUM_PRICES \<le> p")
      case True
      with pos have "marketBuy_loop p t sz ou s = Some (Inl FilledAllSellLimitOrders)"
        by (subst marketBuy_loop.simps) simp
      then show ?thesis by simp
    next
      case inr: False
      then have p: "p < NUM_PRICES" by (simp add: not_le)
      from p have psucc: "p < p + 1" by (rule word_less_succ)
      show ?thesis
      proof (cases "limitOrderHead s p")
        case None
        with "1.prems" have e: "lv p = []"
          by (auto dest: slotInv_level [of _ _ _ p] simp: level_def)
        have step: "marketBuy_loop p t sz ou s = marketBuy_loop (p + 1) t sz ou s"
          using pos inr None by (subst marketBuy_loop.simps) simp
        have rs: "restingSells s lv t p = restingSells s lv t (p + 1)"
          using p e by (simp add: restingSells_unfold resting_def)
        from "1.IH"(1) [OF pos inr None "1.prems"] obtain r where
          r: "marketBuy_loop (p + 1) t sz ou s = Some r"
          and ih: "\<And>ou' s'. r = Inr (ou', s') \<Longrightarrow> buyPost n lv t (p + 1) sz ou s ou' s'"
          by blast
        have "buyPost n lv t p sz ou s ou' s'" if re: "r = Inr (ou', s')" for ou' s'
        proof (rule buyPostI)
          note f = ih [OF re]
          from buyPost_value [OF f]
          show "ou' = ou + notional32 (takenAt sz (restingSells s lv t p))"
            and "quantity32 (takenAt sz (restingSells s lv t p)) = sz"
            by (simp_all add: rs)
          from f show "\<exists>lv'. slotInv n s' lv'" by (rule buyPost_inv)
          from f show "bid s' = bid s" by (rule buyPost_bid)
          from pos show "s' = s" if "sz = 0" using that by simp
          show "p \<le> ask s' \<and> ask s' < NUM_PRICES \<and> limitOrderHead s (ask s') \<noteq> None"
          proof -
            from buyPost_ask [OF f pos] have a: "p + 1 \<le> ask s'" and b: "ask s' < NUM_PRICES"
              and c: "limitOrderHead s (ask s') \<noteq> None" by simp_all
            from psucc a have "p < ask s'" by (rule less_le_trans)
            with b c show ?thesis by simp
          qed
          show "limitOrderHead s' q = None" if "p \<le> q" "q < ask s'" for q
          proof (cases "q = p")
            case True
            with buyPost_below [OF f psucc] None show ?thesis by simp
          next
            case False
            with that have "p < q" by simp
            then have "p + 1 \<le> q" by (rule word_succ_le)
            from buyPost_emptied [OF f pos this that(2)] show ?thesis .
          qed
          show "limitOrderHead s' q = limitOrderHead s q" if "q < p" for q
          proof -
            from that psucc have "q < p + 1" by (rule less_trans)
            from buyPost_below [OF f this] show ?thesis .
          qed
        qed
        with step r show ?thesis by simp
      next
        case (Some c)
        then have ne: "limitOrderHead s p \<noteq> None" by simp
        let ?s0 = "s\<lparr>ask := p\<rparr>"
        from "1.prems" have inv0: "slotInv n ?s0 lv" by simp
        from level_step [OF inv0 p, of t sz ou False] obtain s1 sz' ou1 s2 lv2 where
          r1: "updateLimitOrders p t ?s0 = Some (Inr s1)"
          and r2: "fillOrders p sz ou False s1 = Some (Inr (sz', ou1, s2))"
          and inv2: "slotInv n s2 lv2"
          and lv2: "\<forall>q. q \<noteq> p \<longrightarrow> lv2 q = lv q"
          and hd0: "\<forall>q. q \<noteq> p \<longrightarrow> limitOrderHead s2 q = limitOrderHead ?s0 q"
          and out0: "\<forall>a. a \<notin> set (lv p) \<longrightarrow> pool s2 a = pool ?s0 a"
          and val0: "ou1 = ou + notional32 (takenAt sz (resting ?s0 t p (lv p)))"
          and rem0: "sz' = sz - quantity32 (takenAt sz (resting ?s0 t p (lv p)))"
          and emp: "sz' \<noteq> 0 \<longrightarrow> limitOrderHead s2 p = None"
          and bid0: "bid s2 = bid ?s0" and ask0: "ask s2 = ask ?s0"
          by blast
        from hd0 have hd2: "\<forall>q. q \<noteq> p \<longrightarrow> limitOrderHead s2 q = limitOrderHead s q" by simp
        from out0 have out2: "\<forall>a. a \<notin> set (lv p) \<longrightarrow> pool s2 a = pool s a" by simp
        from val0 have val: "ou1 = ou + notional32 (takenAt sz (resting s t p (lv p)))" by simp
        from rem0 have rem: "sz' = sz - quantity32 (takenAt sz (resting s t p (lv p)))" by simp
        from bid0 have bid2: "bid s2 = bid s" by simp
        from ask0 have ask2: "ask s2 = p" by simp
        have step: "marketBuy_loop p t sz ou s = marketBuy_loop (p + 1) t sz' ou1 s2"
          using pos inr Some r1 r2 by (subst marketBuy_loop.simps) simp
        have fr: "restingSells s2 lv2 t (p + 1) = restingSells s lv t (p + 1)"
          unfolding restingSells_def
          by (rule resting_frame [OF "1.prems" lv2 out2 pricesFrom_notin [OF p]])
        from "1.IH"(2) [OF pos inr ne r1 refl r2 refl refl refl inv2] obtain r where
          r: "marketBuy_loop (p + 1) t sz' ou1 s2 = Some r"
          and ih: "\<And>ou' s'. r = Inr (ou', s') \<Longrightarrow> buyPost n lv2 t (p + 1) sz' ou1 s2 ou' s'"
          by blast
        have "buyPost n lv t p sz ou s ou' s'" if re: "r = Inr (ou', s')" for ou' s'
        proof (rule buyPostI)
          note f = ih [OF re]
          from buyPost_value [OF f]
          show "ou' = ou + notional32 (takenAt sz (restingSells s lv t p))"
            by (simp add: restingSells_unfold [OF p] takenAt_split val rem fr add.assoc)
          from buyPost_value [OF f]
          show "quantity32 (takenAt sz (restingSells s lv t p)) = sz"
            by (simp add: restingSells_unfold [OF p] takenAt_split rem fr)
          from f show "\<exists>lv'. slotInv n s' lv'" by (rule buyPost_inv)
          from buyPost_bid [OF f] bid2 show "bid s' = bid s" by simp
          from pos show "s' = s" if "sz = 0" using that by simp
          show "p \<le> ask s' \<and> ask s' < NUM_PRICES \<and> limitOrderHead s (ask s') \<noteq> None"
          proof (cases "sz' = 0")
            case True
            from buyPost_zero [OF f True] ask2 p ne show ?thesis by simp
          next
            case False
            then have pos': "0 < sz'" using word_neq_0_conv by blast
            from buyPost_ask [OF f pos'] have a: "p + 1 \<le> ask s'" and b: "ask s' < NUM_PRICES"
              and c: "limitOrderHead s2 (ask s') \<noteq> None" by simp_all
            from psucc a have pa: "p < ask s'" by (rule less_le_trans)
            then have "ask s' \<noteq> p" by simp
            with hd2 c have "limitOrderHead s (ask s') \<noteq> None" by simp
            with pa b show ?thesis by simp
          qed
          show "limitOrderHead s' q = None" if "p \<le> q" "q < ask s'" for q
          proof (cases "sz' = 0")
            case True
            from buyPost_zero [OF f True] ask2 that show ?thesis by simp
          next
            case False
            then have pos': "0 < sz'" using word_neq_0_conv by blast
            show ?thesis
            proof (cases "q = p")
              case True
              with buyPost_below [OF f psucc] emp False show ?thesis by simp
            next
              case False
              with that have "p < q" by simp
              then have "p + 1 \<le> q" by (rule word_succ_le)
              from buyPost_emptied [OF f pos' this that(2)] show ?thesis .
            qed
          qed
          show "limitOrderHead s' q = limitOrderHead s q" if "q < p" for q
          proof -
            from that psucc have "q < p + 1" by (rule less_trans)
            from buyPost_below [OF f this] have "limitOrderHead s' q = limitOrderHead s2 q" .
            moreover from that have "q \<noteq> p" by simp
            ultimately show ?thesis using hd2 by simp
          qed
        qed
        with step r show ?thesis by simp
      qed
    qed
  qed
qed

lemma word_le_pred: "(q::'a::len word) < p \<Longrightarrow> q \<le> p - 1"
proof -
  assume a: "q < p"
  then have "p \<noteq> 0" by auto
  then have "unat (p - 1) = unat p - 1" by (rule unat_minus_one)
  with a show ?thesis by (simp add: word_less_nat_alt word_le_nat_alt)
qed

lemma restingBuys_unfold:
  "p \<noteq> UINT_MAX \<Longrightarrow> restingBuys s lv t p = resting s t p (lv p) @ restingBuys s lv t (p - 1)"
  by (subst restingBuys_def, subst pricesDownFrom.simps) (simp add: restingBuys_def)

lemma sellPostI:
  assumes "ou' = ou + notional32 (takenAt sz (restingBuys s lv t p))"
    and "quantity32 (takenAt sz (restingBuys s lv t p)) = sz"
    and "\<exists>lv'. slotInv n s' lv'"
    and "ask s' = ask s"
    and "sz = 0 \<Longrightarrow> s' = s"
    and "0 < sz \<Longrightarrow> bid s' \<le> p \<and> bid s' < NUM_PRICES \<and> limitOrderHead s (bid s') \<noteq> None"
    and "\<And>q. 0 < sz \<Longrightarrow> bid s' < q \<Longrightarrow> q \<le> p \<Longrightarrow> limitOrderHead s' q = None"
    and "\<And>q. p < q \<Longrightarrow> limitOrderHead s' q = limitOrderHead s q"
  shows "sellPost n lv t p sz ou s ou' s'"
  unfolding sellPost_def using assms by simp

lemma sellPost_value:
  "sellPost n lv t p sz ou s ou' s' \<Longrightarrow>
   ou' = ou + notional32 (takenAt sz (restingBuys s lv t p)) \<and>
   quantity32 (takenAt sz (restingBuys s lv t p)) = sz"
  by (simp add: sellPost_def)

lemma sellPost_inv: "sellPost n lv t p sz ou s ou' s' \<Longrightarrow> \<exists>lv'. slotInv n s' lv'"
  by (simp add: sellPost_def)

lemma sellPost_ask: "sellPost n lv t p sz ou s ou' s' \<Longrightarrow> ask s' = ask s"
  by (simp add: sellPost_def)

lemma sellPost_zero: "sellPost n lv t p sz ou s ou' s' \<Longrightarrow> sz = 0 \<Longrightarrow> s' = s"
  by (simp add: sellPost_def)

lemma sellPost_bid:
  "sellPost n lv t p sz ou s ou' s' \<Longrightarrow> 0 < sz \<Longrightarrow>
   bid s' \<le> p \<and> bid s' < NUM_PRICES \<and> limitOrderHead s (bid s') \<noteq> None"
  by (simp add: sellPost_def)

lemma sellPost_emptied:
  "sellPost n lv t p sz ou s ou' s' \<Longrightarrow> 0 < sz \<Longrightarrow> bid s' < q \<Longrightarrow> q \<le> p \<Longrightarrow>
   limitOrderHead s' q = None"
  by (simp add: sellPost_def)

lemma sellPost_above:
  "sellPost n lv t p sz ou s ou' s' \<Longrightarrow> p < q \<Longrightarrow> limitOrderHead s' q = limitOrderHead s q"
  by (simp add: sellPost_def)

lemma marketSell_loop_inv:
  "slotInv n s lv \<Longrightarrow>
   \<exists>r. marketSell_loop p t sz ou s = Some r \<and>
     (\<forall>ou' s'. r = Inr (ou', s') \<longrightarrow> sellPost n lv t p sz ou s ou' s')"
proof (induction p t sz ou s arbitrary: lv rule: marketSell_loop.induct)
  case (1 p t sz ou s)
  show ?case
  proof (cases "0 < sz")
    case False
    then have z: "sz = 0" using word_neq_0_conv by blast
    have "marketSell_loop p t sz ou s = Some (Inr (ou, s))"
      by (subst marketSell_loop.simps) (simp add: z)
    moreover have "sellPost n lv t p sz ou s ou s"
      using takenAt_zero [of "restingBuys s lv t p"] "1.prems" z
      by (intro sellPostI) auto
    ultimately show ?thesis by simp
  next
    case pos: True
    show ?thesis
    proof (cases "p = UINT_MAX")
      case True
      with pos have "marketSell_loop p t sz ou s = Some (Inl FilledAllBuyLimitOrders)"
        by (subst marketSell_loop.simps) simp
      then show ?thesis by simp
    next
      case nmax: False
      show ?thesis
      proof (cases "NUM_PRICES \<le> p")
        case True
        with pos nmax have "marketSell_loop p t sz ou s = Some (Inl OutOfBounds)"
          by (subst marketSell_loop.simps) simp
        then show ?thesis by simp
      next
        case inr: False
        then have p: "p < NUM_PRICES" by (simp add: not_le)
        have stop: "marketSell_loop (p - 1) t sz'' ou'' s'' = Some (Inl FilledAllBuyLimitOrders)"
          if "p = 0" "0 < sz''" for sz'' ou'' s''
          using that by (subst marketSell_loop.simps) (simp add: UINT_MAX_def)
        show ?thesis
        proof (cases "limitOrderHead s p")
          case None
          with "1.prems" have e: "lv p = []"
            by (auto dest: slotInv_level [of _ _ _ p] simp: level_def)
          have step: "marketSell_loop p t sz ou s = marketSell_loop (p - 1) t sz ou s"
            using pos nmax inr None by (subst marketSell_loop.simps) simp
          have rs: "restingBuys s lv t p = restingBuys s lv t (p - 1)"
            using nmax e by (simp add: restingBuys_unfold resting_def)
          from "1.IH"(1) [OF pos nmax inr None "1.prems"] obtain r where
            r: "marketSell_loop (p - 1) t sz ou s = Some r"
            and ih: "\<And>ou' s'. r = Inr (ou', s') \<Longrightarrow> sellPost n lv t (p - 1) sz ou s ou' s'"
            by blast
          have "sellPost n lv t p sz ou s ou' s'" if re: "r = Inr (ou', s')" for ou' s'
          proof (rule sellPostI)
            note f = ih [OF re]
            have pne: "p \<noteq> 0"
            proof
              assume "p = 0"
              from stop [OF this pos, of ou s] r re show False by simp
            qed
            then have ppred: "p - 1 < p" by (rule word_pred_lt)
            from sellPost_value [OF f]
            show "ou' = ou + notional32 (takenAt sz (restingBuys s lv t p))"
              and "quantity32 (takenAt sz (restingBuys s lv t p)) = sz"
              by (simp_all add: rs)
            from f show "\<exists>lv'. slotInv n s' lv'" by (rule sellPost_inv)
            from f show "ask s' = ask s" by (rule sellPost_ask)
            from pos show "s' = s" if "sz = 0" using that by simp
            show "bid s' \<le> p \<and> bid s' < NUM_PRICES \<and> limitOrderHead s (bid s') \<noteq> None"
            proof -
              from sellPost_bid [OF f pos] have a: "bid s' \<le> p - 1" and b: "bid s' < NUM_PRICES"
                and c: "limitOrderHead s (bid s') \<noteq> None" by simp_all
              from a ppred have "bid s' < p" by (rule le_less_trans)
              with b c show ?thesis by simp
            qed
            show "limitOrderHead s' q = None" if "bid s' < q" "q \<le> p" for q
            proof (cases "q = p")
              case True
              with sellPost_above [OF f ppred] None show ?thesis by simp
            next
              case False
              with that have "q < p" by simp
              then have "q \<le> p - 1" by (rule word_le_pred)
              from sellPost_emptied [OF f pos that(1) this] show ?thesis .
            qed
            show "limitOrderHead s' q = limitOrderHead s q" if "p < q" for q
            proof -
              from ppred that have "p - 1 < q" by (rule less_trans)
              from sellPost_above [OF f this] show ?thesis .
            qed
          qed
          with step r show ?thesis by simp
        next
          case (Some c)
          then have ne: "limitOrderHead s p \<noteq> None" by simp
          let ?s0 = "s\<lparr>bid := p\<rparr>"
          from "1.prems" have inv0: "slotInv n ?s0 lv" by simp
          from level_step [OF inv0 p, of t sz ou True] obtain s1 sz' ou1 s2 lv2 where
            r1: "updateLimitOrders p t ?s0 = Some (Inr s1)"
            and r2: "fillOrders p sz ou True s1 = Some (Inr (sz', ou1, s2))"
            and inv2: "slotInv n s2 lv2"
            and lv2: "\<forall>q. q \<noteq> p \<longrightarrow> lv2 q = lv q"
            and hd0: "\<forall>q. q \<noteq> p \<longrightarrow> limitOrderHead s2 q = limitOrderHead ?s0 q"
            and out0: "\<forall>a. a \<notin> set (lv p) \<longrightarrow> pool s2 a = pool ?s0 a"
            and val0: "ou1 = ou + notional32 (takenAt sz (resting ?s0 t p (lv p)))"
            and rem0: "sz' = sz - quantity32 (takenAt sz (resting ?s0 t p (lv p)))"
            and emp: "sz' \<noteq> 0 \<longrightarrow> limitOrderHead s2 p = None"
            and bid0: "bid s2 = bid ?s0" and ask0: "ask s2 = ask ?s0"
            by blast
          from hd0 have hd2: "\<forall>q. q \<noteq> p \<longrightarrow> limitOrderHead s2 q = limitOrderHead s q" by simp
          from out0 have out2: "\<forall>a. a \<notin> set (lv p) \<longrightarrow> pool s2 a = pool s a" by simp
          from val0 have val: "ou1 = ou + notional32 (takenAt sz (resting s t p (lv p)))" by simp
          from rem0 have rem: "sz' = sz - quantity32 (takenAt sz (resting s t p (lv p)))" by simp
          from bid0 have bid2: "bid s2 = p" by simp
          from ask0 have ask2: "ask s2 = ask s" by simp
          have step: "marketSell_loop p t sz ou s = marketSell_loop (p - 1) t sz' ou1 s2"
            using pos nmax inr Some r1 r2 by (subst marketSell_loop.simps) simp
          have fr: "restingBuys s2 lv2 t (p - 1) = restingBuys s lv t (p - 1)"
            unfolding restingBuys_def
            by (rule resting_frame [OF "1.prems" lv2 out2 pricesDownFrom_notin])
          from "1.IH"(2) [OF pos nmax inr ne r1 refl r2 refl refl refl inv2] obtain r where
            r: "marketSell_loop (p - 1) t sz' ou1 s2 = Some r"
            and ih: "\<And>ou' s'. r = Inr (ou', s') \<Longrightarrow> sellPost n lv2 t (p - 1) sz' ou1 s2 ou' s'"
            by blast
          have "sellPost n lv t p sz ou s ou' s'" if re: "r = Inr (ou', s')" for ou' s'
          proof (rule sellPostI)
            note f = ih [OF re]
            have ppred: "p - 1 < p" if "0 < sz'"
            proof -
              have "p \<noteq> 0"
              proof
                assume "p = 0"
                from stop [OF this that, of ou1 s2] r re show False by simp
              qed
              then show ?thesis by (rule word_pred_lt)
            qed
            from sellPost_value [OF f]
            show "ou' = ou + notional32 (takenAt sz (restingBuys s lv t p))"
              by (simp add: restingBuys_unfold [OF nmax] takenAt_split val rem fr add.assoc)
            from sellPost_value [OF f]
            show "quantity32 (takenAt sz (restingBuys s lv t p)) = sz"
              by (simp add: restingBuys_unfold [OF nmax] takenAt_split rem fr)
            from f show "\<exists>lv'. slotInv n s' lv'" by (rule sellPost_inv)
            from sellPost_ask [OF f] ask2 show "ask s' = ask s" by simp
            from pos show "s' = s" if "sz = 0" using that by simp
            show "bid s' \<le> p \<and> bid s' < NUM_PRICES \<and> limitOrderHead s (bid s') \<noteq> None"
            proof (cases "sz' = 0")
              case True
              from sellPost_zero [OF f True] bid2 p ne show ?thesis by simp
            next
              case False
              then have pos': "0 < sz'" using word_neq_0_conv by blast
              from sellPost_bid [OF f pos'] have a: "bid s' \<le> p - 1" and b: "bid s' < NUM_PRICES"
                and c: "limitOrderHead s2 (bid s') \<noteq> None" by simp_all
              from a ppred [OF pos'] have pa: "bid s' < p" by (rule le_less_trans)
              then have "bid s' \<noteq> p" by simp
              with hd2 c have "limitOrderHead s (bid s') \<noteq> None" by simp
              with pa b show ?thesis by simp
            qed
            show "limitOrderHead s' q = None" if "bid s' < q" "q \<le> p" for q
            proof (cases "sz' = 0")
              case True
              from sellPost_zero [OF f True] bid2 that show ?thesis by simp
            next
              case False
              then have pos': "0 < sz'" using word_neq_0_conv by blast
              show ?thesis
              proof (cases "q = p")
                case True
                with sellPost_above [OF f ppred [OF pos']] emp False show ?thesis by simp
              next
                case False
                with that have "q < p" by simp
                then have "q \<le> p - 1" by (rule word_le_pred)
                from sellPost_emptied [OF f pos' that(1) this] show ?thesis .
              qed
            qed
            show "limitOrderHead s' q = limitOrderHead s q" if "p < q" for q
            proof (cases "sz' = 0")
              case True
              from that have "q \<noteq> p" by simp
              with sellPost_zero [OF f True] hd2 show ?thesis by simp
            next
              case False
              then have pos': "0 < sz'" using word_neq_0_conv by blast
              from ppred [OF pos'] that have "p - 1 < q" by (rule less_trans)
              from sellPost_above [OF f this] have "limitOrderHead s' q = limitOrderHead s2 q" .
              moreover from that have "q \<noteq> p" by simp
              ultimately show ?thesis using hd2 by simp
            qed
          qed
          with step r show ?thesis by simp
        qed
      qed
    qed
  qed
qed

section \<open>The operations return, and keep the partition\<close>

lemma addLimitOrder_total:
  assumes inv: "slotInv n s lv"
  shows "\<exists>r. addLimitOrder p sz e usr s = Some r \<and>
     (\<forall>s'. r = Inr s' \<longrightarrow> (\<exists>lo fr. freeLimitOrders s = lo # fr \<and>
        slotInv n s' (lv(p := if fillTiesInStackOrder s then lo # lv p else lv p @ [lo])) \<and>
        p < NUM_PRICES \<and> bid s' = bid s \<and> ask s' = ask s))"
proof (cases "freeLimitOrders s")
  case Nil
  then show ?thesis by (simp add: addLimitOrder_def)
next
  case (Cons lo fr)
  show ?thesis
  proof (cases "(usr \<and> MAX_NUM_USER_LIMIT_ORDERS \<le> length (userLimitOrders s)) \<or> NUM_PRICES \<le> p")
    case True
    with Cons show ?thesis by (simp add: addLimitOrder_def)
  next
    case False
    then have p: "p < NUM_PRICES"
      and room: "usr \<longrightarrow> length (userLimitOrders s) < MAX_NUM_USER_LIMIT_ORDERS"
      by (auto simp: not_le)
    from inv have lvp: "level s p (lv p)" by (rule slotInv_level)
    from inv Cons have lo: "lo \<notin> set (lv p)" by (auto simp: slotInv_def)
    from slotInv_addLimitOrder [OF inv Cons p room, of sz e] obtain s1 where
      r1: "addLimitOrder p sz e usr s = Some (Inr s1)"
      and i1: "slotInv n s1 (lv(p := if fillTiesInStackOrder s then lo # lv p else lv p @ [lo]))"
      by blast
    from addLimitOrder_level [OF lvp Cons lo p room, of sz e] obtain s2 where
      r2: "addLimitOrder p sz e usr s = Some (Inr s2)"
      and b2: "bid s2 = bid s" and a2: "ask s2 = ask s"
      by blast
    from r1 r2 have "s2 = s1" by simp
    with r1 i1 b2 a2 Cons p show ?thesis by simp
  qed
qed

lemma slotInv_partition:
  assumes "slotInv n s lv"
  shows "(\<forall>a. a < n \<longrightarrow> (a \<in> set (freeLimitOrders s)) \<noteq> (\<exists>p. a \<in> set (lv p))) \<and>
     (\<forall>a p q. a \<in> set (lv p) \<and> a \<in> set (lv q) \<longrightarrow> p = q) \<and>
     (\<forall>a. a \<in> set (freeLimitOrders s) \<or> (\<exists>p. a \<in> set (lv p)) \<longrightarrow> a < n) \<and>
     distinct (freeLimitOrders s) \<and> (\<forall>p. distinct (lv p))"
proof -
  from assms have lvs: "\<And>q. level s q (lv q)"
    and d0: "distinct (freeLimitOrders s)"
    and d1: "\<And>q. set (lv q) \<inter> set (freeLimitOrders s) = {}"
    and d2: "\<And>q r. q \<noteq> r \<Longrightarrow> set (lv q) \<inter> set (lv r) = {}"
    and un: "set (freeLimitOrders s) \<union> (\<Union>q. set (lv q)) = {..<n}"
    by (auto simp: slotInv_def)
  have a: "\<forall>a. a < n \<longrightarrow> (a \<in> set (freeLimitOrders s)) \<noteq> (\<exists>p. a \<in> set (lv p))"
  proof (intro allI impI)
    fix a assume "a < n"
    with un have "a \<in> set (freeLimitOrders s) \<union> (\<Union>q. set (lv q))" by simp
    then have "a \<in> set (freeLimitOrders s) \<or> (\<exists>p. a \<in> set (lv p))" by auto
    moreover have "\<not> (a \<in> set (freeLimitOrders s) \<and> (\<exists>p. a \<in> set (lv p)))"
      using d1 by auto
    ultimately show "(a \<in> set (freeLimitOrders s)) \<noteq> (\<exists>p. a \<in> set (lv p))" by blast
  qed
  have b: "\<forall>a p q. a \<in> set (lv p) \<and> a \<in> set (lv q) \<longrightarrow> p = q"
    using d2 by blast
  have c: "\<forall>a. a \<in> set (freeLimitOrders s) \<or> (\<exists>p. a \<in> set (lv p)) \<longrightarrow> a < n"
    using un by auto
  have d: "\<forall>p. distinct (lv p)" using lvs by (auto simp: level_def dest: chain_distinct)
  from a b c d0 d show ?thesis by blast
qed

lemma marketBuy_inv:
  "slotInv n s lv \<Longrightarrow>
   \<exists>r. marketBuy sz t s = Some r \<and>
     (\<forall>ou' s'. r = Inr (ou', s') \<longrightarrow> buyPost n lv t (ask s) sz 0 s ou' s')"
  unfolding marketBuy_def by (rule marketBuy_loop_inv)

lemma marketSell_inv:
  "slotInv n s lv \<Longrightarrow>
   \<exists>r. marketSell sz t s = Some r \<and>
     (\<forall>ou' s'. r = Inr (ou', s') \<longrightarrow> sellPost n lv t (bid s) sz 0 s ou' s')"
  unfolding marketSell_def by (rule marketSell_loop_inv)

lemma place_slotInv:
  assumes inv: "slotInv n s lv" and fr: "freeLimitOrders s = lo # fr" and p: "p < NUM_PRICES"
    and room: "usr \<longrightarrow> length (userLimitOrders s) < MAX_NUM_USER_LIMIT_ORDERS"
  shows "slotInv n (place p sz e usr s)
     (lv(p := if fillTiesInStackOrder s then lo # lv p else lv p @ [lo]))"
  using slotInv_addLimitOrder [OF inv fr p room, of sz e] by (auto simp: place_def)

lemma book8_slotInv: "slotInv 5 book8 ((\<lambda>_. [])(100 := [4, 3, 2, 1, 0]))"
proof -
  let ?s0 = "setupBook 5 False True"
  let ?s1 = "place 100 1 5 False ?s0"
  let ?s2 = "place 100 1 6 False ?s1"
  let ?s3 = "place 100 1 50 False ?s2"
  let ?s4 = "place 100 1 7 False ?s3"
  have p: "(100 :: u32) < NUM_PRICES" by (simp add: NUM_PRICES_def)
  have f0: "freeLimitOrders ?s0 = 4 # [3, 2, 1, 0]" by (simp add: setupBook_def upt_rec)
  have f1: "freeLimitOrders ?s1 = 3 # [2, 1, 0]"
    by (simp add: place_def book_eval upt_rec)
  have f2: "freeLimitOrders ?s2 = 2 # [1, 0]"
    by (simp add: place_def book_eval upt_rec)
  have f3: "freeLimitOrders ?s3 = 1 # [0]"
    by (simp add: place_def book_eval upt_rec)
  have f4: "freeLimitOrders ?s4 = 0 # []"
    by (simp add: place_def book_eval upt_rec)
  have t: "\<not> fillTiesInStackOrder ?s0" "\<not> fillTiesInStackOrder ?s1" "\<not> fillTiesInStackOrder ?s2"
    "\<not> fillTiesInStackOrder ?s3" "\<not> fillTiesInStackOrder ?s4"
    by (simp_all add: place_def book_eval upt_rec)
  note i0 = slotInv_setupBook [of 5 False True]
  note i1 = place_slotInv [OF i0 f0 p, of False 1 5]
  note i2 = place_slotInv [OF i1 f1 p, of False 1 6]
  note i3 = place_slotInv [OF i2 f2 p, of False 1 50]
  note i4 = place_slotInv [OF i3 f3 p, of False 1 7]
  note i5 = place_slotInv [OF i4 f4 p, of False 1 60]
  from i5 t show ?thesis by (simp add: book8_def)
qed

section \<open>The sum a market order returns, as a number\<close>

lemma takenAt_nat: "asNat (takenAt sz xs) = consumedPortions (unat sz) (asNat xs)"
proof (induction xs arbitrary: sz)
  case Nil
  then show ?case by (simp add: asNat_def)
next
  case (Cons x xs)
  obtain pr q where x: "x = (pr, q)" by (cases x)
  have m: "unat (min q sz) = min (unat q) (unat sz)"
    by (simp add: min_def word_le_nat_alt)
  have "min q sz \<le> sz" by simp
  then have d: "unat (sz - min q sz) = unat sz - unat (min q sz)" by (rule unat_sub)
  from Cons.IH [of "sz - min q sz"] show ?case
    by (simp add: x asNat_def d m)
qed

lemma notional32_nat: "notional32 xs = of_nat (sumOfNotionals (asNat xs))"
  by (induction xs) (auto simp: notional32_def sumOfNotionals_def asNat_def mult.commute)

lemma quantity32_nat: "quantity32 xs = of_nat (sum_list (map snd (asNat xs)))"
  by (induction xs) (auto simp: quantity32_def asNat_def)

lemma consumedPortions_le: "sum_list (map snd (consumedPortions S ys)) \<le> S"
proof (induction ys arbitrary: S)
  case Nil
  then show ?case by simp
next
  case (Cons y ys)
  obtain pr q where y: "y = (pr, q)" by (cases y)
  from Cons.IH [of "S - min q S"] show ?case by (simp add: y)
qed

lemma unat_of_nat32: "(w :: u32) = of_nat k \<Longrightarrow> unat w = k mod 2 ^ 32"
  by (simp add: unat_of_nat)

lemma market_value_nat:
  assumes v: "ou = 0 + notional32 (takenAt sz xs)" and q: "quantity32 (takenAt sz xs) = sz"
  shows "unat ou = sumOfNotionals (consumedPortions (unat sz) (asNat xs)) mod 2 ^ 32 \<and>
     sum_list (map snd (consumedPortions (unat sz) (asNat xs))) = unat sz"
proof -
  let ?c = "consumedPortions (unat sz) (asNat xs)"
  from v have "ou = of_nat (sumOfNotionals ?c)"
    by (simp add: notional32_nat takenAt_nat)
  then have a: "unat ou = sumOfNotionals ?c mod 2 ^ 32" by (rule unat_of_nat32)
  from q have "sz = of_nat (sum_list (map snd ?c))"
    by (simp add: quantity32_nat takenAt_nat)
  then have "unat sz = sum_list (map snd ?c) mod 2 ^ 32" by (rule unat_of_nat32)
  moreover have "sum_list (map snd ?c) \<le> unat sz" by (rule consumedPortions_le)
  moreover have "unat sz < 2 ^ 32" using unsigned_less [of sz] by simp
  ultimately have "sum_list (map snd ?c) = unat sz" by simp
  with a show ?thesis by simp
qed

lemma pricesFrom_sorted: "sorted_wrt (<) (pricesFrom p)"
proof (induction p rule: pricesFrom.induct)
  case (1 p)
  show ?case
  proof (cases "p < NUM_PRICES")
    case True
    from True have "p < p + 1" by (rule word_less_succ)
    then have "\<forall>q\<in>set (pricesFrom (p + 1)). p < q"
      by (auto dest!: pricesFrom_ge)
    with "1.IH" [OF True] True show ?thesis by (subst pricesFrom.simps) simp
  next
    case False
    then show ?thesis by (subst pricesFrom.simps) simp
  qed
qed

lemma pricesDownFrom_sorted: "sorted_wrt (>) (pricesDownFrom p)"
proof (induction p rule: pricesDownFrom.induct)
  case (1 p)
  show ?case
  proof (cases "p = UINT_MAX")
    case True
    then show ?thesis by (subst pricesDownFrom.simps) simp
  next
    case False
    have "\<forall>q\<in>set (pricesDownFrom (p - 1)). q < p"
    proof
      fix q assume q: "q \<in> set (pricesDownFrom (p - 1))"
      show "q < p"
      proof (cases "p = 0")
        case True
        with q show ?thesis by (subst (asm) pricesDownFrom.simps) (simp add: UINT_MAX_def)
      next
        case False
        then have "p - 1 < p" by (rule word_pred_lt)
        with pricesDownFrom_le [OF q] show ?thesis by simp
      qed
    qed
    with "1.IH" [OF False] False show ?thesis by (subst pricesDownFrom.simps) simp
  qed
qed

lemma resting_price: "x \<in> set (resting s t q as) \<Longrightarrow> fst x = q"
  by (auto simp: resting_def)

lemma sorted_wrt_all: "(\<And>x y. x \<in> set xs \<Longrightarrow> y \<in> set xs \<Longrightarrow> P x y) \<Longrightarrow> sorted_wrt P xs"
  by (induction xs) auto

lemma concat_sorted_up:
  "sorted_wrt (<) qs \<Longrightarrow> (\<And>q x. x \<in> set (f q) \<Longrightarrow> fst x = q) \<Longrightarrow>
   sorted_wrt (\<le>) (map fst (concat (map f qs)) :: u32 list)"
proof (induction qs)
  case Nil
  then show ?case by simp
next
  case (Cons q qs)
  have "\<And>x. x \<in> set (map fst (f q)) \<Longrightarrow> x = q" using Cons.prems(2) by auto
  then have one: "sorted_wrt (\<le>) (map fst (f q))"
    by (intro sorted_wrt_all) (metis order_refl)
  from Cons have rest: "sorted_wrt (\<le>) (map fst (concat (map f qs)))" by simp
  have "\<forall>x\<in>set (f q). \<forall>y\<in>set (concat (map f qs)). fst x \<le> fst y"
  proof (intro ballI)
    fix x y assume x: "x \<in> set (f q)" and y: "y \<in> set (concat (map f qs))"
    from y obtain r where r: "r \<in> set qs" and yr: "y \<in> set (f r)" by auto
    from Cons.prems(1) r have "q < r" by simp
    with Cons.prems(2) [OF x] Cons.prems(2) [OF yr] show "fst x \<le> fst y" by simp
  qed
  with one rest show ?case by (simp add: sorted_wrt_append)
qed

lemma concat_sorted_down:
  "sorted_wrt (>) qs \<Longrightarrow> (\<And>q x. x \<in> set (f q) \<Longrightarrow> fst x = q) \<Longrightarrow>
   sorted_wrt (\<ge>) (map fst (concat (map f qs)) :: u32 list)"
proof (induction qs)
  case Nil
  then show ?case by simp
next
  case (Cons q qs)
  have "\<And>x. x \<in> set (map fst (f q)) \<Longrightarrow> x = q" using Cons.prems(2) by auto
  then have one: "sorted_wrt (\<ge>) (map fst (f q))"
    by (intro sorted_wrt_all) (metis order_refl)
  from Cons have rest: "sorted_wrt (\<ge>) (map fst (concat (map f qs)))" by simp
  have "\<forall>x\<in>set (f q). \<forall>y\<in>set (concat (map f qs)). fst y \<le> fst x"
  proof (intro ballI)
    fix x y assume x: "x \<in> set (f q)" and y: "y \<in> set (concat (map f qs))"
    from y obtain r where r: "r \<in> set qs" and yr: "y \<in> set (f r)" by auto
    from Cons.prems(1) r have "r < q" by simp
    with Cons.prems(2) [OF x] Cons.prems(2) [OF yr] show "fst y \<le> fst x" by simp
  qed
  with one rest show ?case by (simp add: sorted_wrt_append)
qed

lemma restingSells_sorted: "sorted_wrt (\<le>) (map fst (restingSells s lv t p))"
  unfolding restingSells_def
  by (rule concat_sorted_up [OF pricesFrom_sorted]) (rule resting_price)

lemma restingBuys_sorted: "sorted_wrt (\<ge>) (map fst (restingBuys s lv t p))"
  unfolding restingBuys_def
  by (rule concat_sorted_down [OF pricesDownFrom_sorted]) (rule resting_price)

lemma bookAsk_slotInv: "slotInv 4 bookAsk lvAsk"
proof -
  let ?s0 = "(setupBook 4 False True)\<lparr>bid := 100, ask := 105\<rparr>"
  let ?s1 = "place 100 5 1000 False ?s0"
  let ?s2 = "place 105 5 1000 False ?s1"
  let ?s3 = "place 107 4 1000 False ?s2"
  have p: "(100 :: u32) < NUM_PRICES" "(105 :: u32) < NUM_PRICES" "(107 :: u32) < NUM_PRICES"
    by (simp_all add: NUM_PRICES_def)
  have f0: "freeLimitOrders ?s0 = 3 # [2, 1, 0]" by (simp add: setupBook_def upt_rec)
  have f1: "freeLimitOrders ?s1 = 2 # [1, 0]" by (simp add: place_def book_eval upt_rec)
  have f2: "freeLimitOrders ?s2 = 1 # [0]" by (simp add: place_def book_eval upt_rec)
  have f3: "freeLimitOrders ?s3 = 0 # []" by (simp add: place_def book_eval upt_rec)
  have t: "\<not> fillTiesInStackOrder ?s0" "\<not> fillTiesInStackOrder ?s1"
    "\<not> fillTiesInStackOrder ?s2" "\<not> fillTiesInStackOrder ?s3"
    by (simp_all add: place_def book_eval upt_rec)
  have i0: "slotInv 4 ?s0 (\<lambda>_. [])" using slotInv_setupBook [of 4 False True] by simp
  note i1 = place_slotInv [OF i0 f0 p(1), of False 5 1000]
  note i2 = place_slotInv [OF i1 f1 p(2), of False 5 1000]
  note i3 = place_slotInv [OF i2 f2 p(3), of False 4 1000]
  note i4 = place_slotInv [OF i3 f3 p(3), of False 6 1000]
  from i4 t show ?thesis by (simp add: bookAsk_def lvAsk_def)
qed

lemma bookAsk_buy7: "\<exists>s'. marketBuy 7 10 bookAsk = Some (Inr (739, s'))"
  by (simp add: bookAsk_def place_def book_eval upt_rec)

lemma bookAsk_ask: "ask bookAsk = 105"
  by (simp add: bookAsk_def place_def book_eval upt_rec)

section \<open>updateBidAndAsk, and a market buy that takes exactly the order at the ask\<close>

lemma updateAsk_next:
  "ask s \<le> q \<Longrightarrow> q < NUM_PRICES \<Longrightarrow> limitOrderHead s q \<noteq> None \<Longrightarrow>
   (\<forall>r. ask s \<le> r \<and> r < q \<longrightarrow> limitOrderHead s r = None) \<Longrightarrow>
   updateAsk s = Inr (s\<lparr>ask := q\<rparr>)"
proof (induction s rule: updateAsk.induct)
  case (1 s)
  from "1.prems"(1,2) have lt: "ask s < NUM_PRICES" by simp
  then have inr: "\<not> NUM_PRICES \<le> ask s" by (simp add: not_le)
  show ?case
  proof (cases "ask s = q")
    case True
    with "1.prems"(3) inr show ?thesis by (subst updateAsk.simps) auto
  next
    case False
    with "1.prems"(1) have aq: "ask s < q" by simp
    with "1.prems"(4) have none: "limitOrderHead s (ask s) = None" by simp
    from aq have le: "ask s + 1 \<le> q" by (rule word_succ_le)
    with "1.prems"(2) have inr': "\<not> NUM_PRICES \<le> ask s + 1" by (simp add: not_le)
    from lt have succ: "ask s < ask s + 1" by (rule word_less_succ)
    let ?s' = "s\<lparr>ask := ask s + 1\<rparr>"
    have "\<forall>r. ask ?s' \<le> r \<and> r < q \<longrightarrow> limitOrderHead ?s' r = None"
    proof (intro allI impI)
      fix r assume "ask ?s' \<le> r \<and> r < q"
      then have a: "ask s + 1 \<le> r" and b: "r < q" by simp_all
      from succ a have "ask s \<le> r" by simp
      with "1.prems"(4) b show "limitOrderHead ?s' r = None" by simp
    qed
    with "1.IH" [OF inr none inr'] le "1.prems"(2,3)
    have "updateAsk ?s' = Inr (?s'\<lparr>ask := q\<rparr>)" by simp
    with inr none inr' show ?thesis by (subst updateAsk.simps) simp
  qed
qed

lemma updateBid_same:
  "bid s < NUM_PRICES \<Longrightarrow> limitOrderHead s (bid s) \<noteq> None \<Longrightarrow> updateBid s = Inr s"
  by (subst updateBid.simps) (auto simp: not_le)

lemma single_order_buy:
  assumes inv: "slotInv n s lv" and pa: "ask s < NUM_PRICES" and lvp: "lv (ask s) = [a]"
    and sz: "lo_size (pool s a) = sz" and pos: "0 < sz"
    and fresh: "t < lo_expirationTime (pool s a)"
  shows "\<exists>s'. marketBuy sz t s = Some (Inr (sz * ask s, s')) \<and> ask s' = ask s \<and>
     bid s' = bid s \<and> limitOrderHead s' (ask s) = None \<and>
     freeLimitOrders s' = a # freeLimitOrders s \<and>
     (\<forall>q. q \<noteq> ask s \<longrightarrow> limitOrderHead s' q = limitOrderHead s q)"
proof -
  let ?p = "ask s"
  from pa have inr: "\<not> NUM_PRICES \<le> ?p" by (simp add: not_le)
  from inv have lv: "level s ?p [a]" using slotInv_level [of n s lv ?p] lvp by simp
  then have hd: "limitOrderHead s ?p = Some a" by (simp add: level_def)
  from fresh have live: "\<not> expired s t a" by (simp add: expired_def not_le)
  from updateLimitOrders_level [OF lv pa, of t] live obtain s1 where
    r1: "updateLimitOrders ?p t s = Some (Inr s1)"
    and lv1: "level s1 ?p [a]"
    and fr1: "freeLimitOrders s1 = freeLimitOrders s"
    and eq1: "s1 = s\<lparr>pool := pool s1, freeLimitOrders := freeLimitOrders s1,
             limitOrderHead := (limitOrderHead s)(?p := limitOrderHead s1 ?p)\<rparr>"
    and nxt1: "\<forall>a. pool s1 a = (pool s a)\<lparr>lo_next := lo_next (pool s1 a)\<rparr>"
    by auto
  have sz1: "lo_size (pool s1 a) = sz" using sz by (subst nxt1 [rule_format]) simp
  from lv1 have ch1: "chain (pool s1) (limitOrderHead s1 ?p) [a]" by (simp add: level_def)
  then have nx1: "lo_next (pool s1 a) = None" by simp
  let ?s2 = "fillCompletely ?p False a s1"
  have fl: "fillList ?p False [a] sz 0 s1 = (0, sz * ?p, ?s2)" by (simp add: sz1 Let_def)
  have r2: "fillOrders ?p sz 0 False s1 = Some (Inr (0, sz * ?p, ?s2))"
    using inr fillOrders_loop_fillList [OF ch1, of ?p False sz 0] fl
    by (simp add: fillOrders_def)
  have ba1: "bid s1 = bid s" "ask s1 = ask s" by (subst eq1, simp)+
  have hd1: "\<forall>q. q \<noteq> ?p \<longrightarrow> limitOrderHead s1 q = limitOrderHead s q" by (subst eq1) simp
  have last: "marketBuy_loop (?p + 1) t 0 (sz * ?p) ?s2 = Some (Inr (sz * ?p, ?s2))"
    by (subst marketBuy_loop.simps) simp
  have "marketBuy sz t s = Some (Inr (sz * ?p, ?s2))"
    unfolding marketBuy_def
    using pos inr hd r1 r2 last by (subst marketBuy_loop.simps) simp
  moreover have "ask ?s2 = ask s" "bid ?s2 = bid s" using ba1 by simp_all
  moreover have "limitOrderHead ?s2 ?p = None" using nx1 by simp
  moreover have "freeLimitOrders ?s2 = a # freeLimitOrders s" using fr1 by simp
  moreover have "\<forall>q. q \<noteq> ?p \<longrightarrow> limitOrderHead ?s2 q = limitOrderHead s q" using hd1 by simp
  ultimately show ?thesis by blast
qed

lemma bookAsk_facts:
  "ask bookAsk = 105" "bid bookAsk = 100" "lo_size (pool bookAsk 2) = 5"
  "lo_expirationTime (pool bookAsk 2) = 1000" "limitOrderHead bookAsk 100 = Some 3"
  "limitOrderHead bookAsk 107 = Some 1" "limitOrderHead bookAsk 106 = None"
  "freeLimitOrders bookAsk = []"
  by (simp_all add: bookAsk_def place_def book_eval upt_rec)

section \<open>The book of the scenario\<close>

lemma book5_facts:
  "level book5 100 [1, 0]" "lo_user (pool book5 1)" "lo_size (pool book5 1) = 10"
  "userLimitOrders book5 = [1]" "balance book5 = 0" "sharesOpen book5 = 0"
  "freeLimitOrders book5 = []" "lo_size (pool book5 0) = 5" "\<not> lo_user (pool book5 0)"
  by (simp_all add: book5_def place_def level_def book_eval upt_rec)

section \<open>The withdrawal of the user's orders\<close>

text \<open>
  The withdrawal writes the expiration time 0 into every tracked order and nothing else
  into the pool, so every level is the list it was.
\<close>

lemma withdraw_fold:
  "fold (\<lambda>u h. h(u := (h u)\<lparr>lo_expirationTime := 0\<rparr>)) us h x =
     (if x \<in> set us then (h x)\<lparr>lo_expirationTime := 0\<rparr> else h x)"
  by (induction us arbitrary: h) auto

lemma pool_withdraw:
  "pool (withdrawUserLimitOrders s) x =
     (if x \<in> set (userLimitOrders s) then (pool s x)\<lparr>lo_expirationTime := 0\<rparr> else pool s x)"
  by (simp add: withdrawUserLimitOrders_def withdraw_fold)

lemma withdraw_fields [simp]:
  "userLimitOrders (withdrawUserLimitOrders s) = []"
  "limitOrderHead (withdrawUserLimitOrders s) = limitOrderHead s"
  "freeLimitOrders (withdrawUserLimitOrders s) = freeLimitOrders s"
  "bid (withdrawUserLimitOrders s) = bid s" "ask (withdrawUserLimitOrders s) = ask s"
  "balance (withdrawUserLimitOrders s) = balance s"
  "sharesOpen (withdrawUserLimitOrders s) = sharesOpen s"
  "fillTiesInStackOrder (withdrawUserLimitOrders s) = fillTiesInStackOrder s"
  by (simp_all add: withdrawUserLimitOrders_def)

lemma level_withdraw:
  assumes "level s p as"
  shows "level (withdrawUserLimitOrders s) p as"
proof -
  have "chain (pool (withdrawUserLimitOrders s)) (limitOrderHead s p) as =
      chain (pool s) (limitOrderHead s p) as"
    by (rule chain_cong_next) (simp add: pool_withdraw)
  with assms show ?thesis by (simp add: level_def)
qed

section \<open>The tracking list of the user's orders\<close>

text \<open>
  As long as there is room in the tracking list and on the free list, every limit buy of
  the user takes the next free slot and appends it to the tracking list.
\<close>

lemma userLimitBuys_tracked:
  assumes "fillTiesInStackOrder s" and "bid s < NUM_PRICES"
    and "n \<le> length (freeLimitOrders s)"
    and "length (userLimitOrders s) + n \<le> MAX_NUM_USER_LIMIT_ORDERS"
  shows "userLimitOrders (userLimitBuys n s) = userLimitOrders s @ take n (freeLimitOrders s) \<and>
     freeLimitOrders (userLimitBuys n s) = drop n (freeLimitOrders s) \<and>
     bid (userLimitBuys n s) = bid s \<and> ask (userLimitBuys n s) = ask s \<and>
     balance (userLimitBuys n s) = balance s \<and> sharesOpen (userLimitBuys n s) = sharesOpen s"
  using assms
proof (induction n arbitrary: s)
  case 0
  then show ?case by simp
next
  case (Suc n)
  from Suc.prems(3) obtain lo fr where fr: "freeLimitOrders s = lo # fr"
    by (cases "freeLimitOrders s") auto
  from Suc.prems(2) have np: "\<not> NUM_PRICES \<le> bid s" by (simp add: not_le)
  from Suc.prems(4) have room: "length (userLimitOrders s) < MAX_NUM_USER_LIMIT_ORDERS"
    and nf: "\<not> MAX_NUM_USER_LIMIT_ORDERS \<le> length (userLimitOrders s)" by simp_all
  obtain s' where r: "userLimitOrder True False 1 1 s = Some (Inr s')"
    and u: "userLimitOrders s' = userLimitOrders s @ [lo]"
    and f: "freeLimitOrders s' = fr" and st: "fillTiesInStackOrder s'"
    and b: "bid s' = bid s" and a: "ask s' = ask s"
    and bl: "balance s' = balance s" and sh: "sharesOpen s' = sharesOpen s"
    using fr np room nf Suc.prems(1)
    by (cases "limitOrderHead s (bid s)")
       (simp_all add: userLimitOrder_def addLimitOrder_def Let_def)
  have "userLimitOrders (userLimitBuys n s') = userLimitOrders s' @ take n (freeLimitOrders s') \<and>
     freeLimitOrders (userLimitBuys n s') = drop n (freeLimitOrders s') \<and>
     bid (userLimitBuys n s') = bid s' \<and> ask (userLimitBuys n s') = ask s' \<and>
     balance (userLimitBuys n s') = balance s' \<and> sharesOpen (userLimitBuys n s') = sharesOpen s'"
    using Suc.prems st b u f fr by (intro Suc.IH) simp_all
  with r u f fr b a bl sh show ?case by simp
qed

lemma book9_facts:
  "length (userLimitOrders book9) = 100" "freeLimitOrders book9 = [1, 0]"
  "bid book9 = 100" "ask book9 = 101"
proof -
  let ?s = "(setupBook 102 True True)\<lparr>bid := 100, ask := 101\<rparr>"
  have "fillTiesInStackOrder ?s" "bid ?s < NUM_PRICES" "100 \<le> length (freeLimitOrders ?s)"
    "length (userLimitOrders ?s) + 100 \<le> MAX_NUM_USER_LIMIT_ORDERS"
    by (simp_all add: setupBook_def NUM_PRICES_def MAX_NUM_USER_LIMIT_ORDERS_def)
  from userLimitBuys_tracked [OF this]
  have u: "userLimitOrders book9 = userLimitOrders ?s @ take 100 (freeLimitOrders ?s)"
    and f: "freeLimitOrders book9 = drop 100 (freeLimitOrders ?s)"
    and b: "bid book9 = bid ?s" and a: "ask book9 = ask ?s"
    unfolding book9_def by simp_all
  from u show "length (userLimitOrders book9) = 100" by (simp add: setupBook_def)
  have "rev [0..<102] = rev [0..<2 + 100]" by simp
  also have "\<dots> = rev [2..<2+100] @ rev [0..<2]" by (simp only: upt_add_eq_append [of 0 2 100] rev_append)
  finally have "drop 100 (rev [0..<102]) = rev [0..<2]" by simp
  with f show "freeLimitOrders book9 = [1, 0]" by (simp add: setupBook_def upt_rec)
  from b show "bid book9 = 100" by (simp add: setupBook_def)
  from a show "ask book9 = 101" by (simp add: setupBook_def)
qed

section \<open>The limit orders of the order creation\<close>

text \<open>
  The price of a limit sell is the bid plus the distance drawn, the price of a limit buy
  the ask minus the distance drawn, as long as the 32 bits hold the sum and the distance
  is not larger than the ask. On a partitioned pool with a free slot, the creation of a
  limit order inside the price range returns, the new order is in the level of its price
  and the pool is partitioned as before.
\<close>

lemma unat_ucast_mod:
  "unat (ucast (w :: 'a::len word) :: 'b::len word) = unat w mod 2 ^ LENGTH('b)"
  by (simp add: unsigned_ucast_eq take_bit_eq_mod)

lemma limitSellPrice_nat:
  assumes "unat (bid s) + unat d < 2 ^ 32"
  shows "unat (limitSellPrice d s) = unat (bid s) + unat d"
proof -
  have b: "unat (bid s) < 2 ^ 32" using unsigned_less [of "bid s", where ?'a = nat] by simp
  have ub: "unat (ucast (bid s) :: u64) = unat (bid s)"
    using b by (simp add: unat_ucast_mod)
  have "unat ((ucast (bid s) :: u64) + d) = (unat (bid s) + unat d) mod 2 ^ 64"
    by (simp add: unat_word_ariths ub)
  also have "\<dots> = unat (bid s) + unat d" using assms by simp
  finally have "unat (limitSellPrice d s) = (unat (bid s) + unat d) mod 2 ^ 32"
    by (simp add: limitSellPrice_def unat_ucast_mod)
  with assms show ?thesis by simp
qed

lemma limitBuyPrice_nat:
  assumes "unat d \<le> unat (ask s)"
  shows "unat (limitBuyPrice d s) = unat (ask s) - unat d"
proof -
  have b: "unat (ask s) < 2 ^ 32" using unsigned_less [of "ask s", where ?'a = nat] by simp
  have ub: "unat (ucast (ask s) :: u64) = unat (ask s)"
    using b by (simp add: unat_ucast_mod)
  from assms ub have "d \<le> (ucast (ask s) :: u64)" by (simp add: word_le_nat_alt)
  then have "unat ((ucast (ask s) :: u64) - d) = unat (ask s) - unat d"
    by (simp add: unat_sub ub)
  then have "unat (limitBuyPrice d s) = (unat (ask s) - unat d) mod 2 ^ 32"
    by (simp add: limitBuyPrice_def unat_ucast_mod)
  moreover have "unat (ask s) - unat d < 2 ^ 32" using b by simp
  ultimately show ?thesis by simp
qed

lemma addLimitOrder_inv:
  assumes inv: "slotInv n s lv" and fr: "freeLimitOrders s = lo # fr" and p: "p < NUM_PRICES"
    and room: "usr \<longrightarrow> length (userLimitOrders s) < MAX_NUM_USER_LIMIT_ORDERS"
  shows "\<exists>s'. addLimitOrder p sz e usr s = Some (Inr s') \<and>
     slotInv n s' (lv(p := if fillTiesInStackOrder s then lo # lv p else lv p @ [lo])) \<and>
     limitOrderHead s' p \<noteq> None \<and>
     freeLimitOrders s' = fr \<and>
     lo_size (pool s' lo) = sz \<and> lo_p (pool s' lo) = p \<and>
     lo_expirationTime (pool s' lo) = e \<and> lo_user (pool s' lo) = usr \<and>
     (\<forall>q. q \<noteq> p \<longrightarrow> limitOrderHead s' q = limitOrderHead s q) \<and>
     userLimitOrders s' = (if usr then userLimitOrders s @ [lo] else userLimitOrders s) \<and>
     bid s' = bid s \<and> ask s' = ask s \<and> balance s' = balance s \<and>
     sharesOpen s' = sharesOpen s \<and> fillTiesInStackOrder s' = fillTiesInStackOrder s \<and>
     realisticUserMarketOrders s' = realisticUserMarketOrders s"
proof -
  let ?as' = "if fillTiesInStackOrder s then lo # lv p else lv p @ [lo]"
  from inv have lvp: "level s p (lv p)" by (rule slotInv_level)
  from inv fr have lo: "lo \<notin> set (lv p)" by (auto simp: slotInv_def)
  from slotInv_addLimitOrder [OF inv fr p room, of sz e] obtain s1 where
    r1: "addLimitOrder p sz e usr s = Some (Inr s1)"
    and i1: "slotInv n s1 (lv(p := ?as'))" by blast
  from addLimitOrder_level [OF lvp fr lo p room, of sz e] obtain s2 where
    r2: "addLimitOrder p sz e usr s = Some (Inr s2)"
    and l2: "level s2 p ?as'"
    and rest: "freeLimitOrders s2 = fr"
     "lo_size (pool s2 lo) = sz" "lo_p (pool s2 lo) = p"
     "lo_expirationTime (pool s2 lo) = e" "lo_user (pool s2 lo) = usr"
     "\<forall>q. q \<noteq> p \<longrightarrow> limitOrderHead s2 q = limitOrderHead s q"
     "userLimitOrders s2 = (if usr then userLimitOrders s @ [lo] else userLimitOrders s)"
     "bid s2 = bid s" "ask s2 = ask s" "balance s2 = balance s"
     "sharesOpen s2 = sharesOpen s" "fillTiesInStackOrder s2 = fillTiesInStackOrder s"
     "realisticUserMarketOrders s2 = realisticUserMarketOrders s"
    by blast
  from r1 r2 have eq: "s2 = s1" by simp
  have "?as' \<noteq> []" by simp
  with l2 have "limitOrderHead s2 p \<noteq> None"
    unfolding level_def by (cases "limitOrderHead s2 p") auto
  with r2 i1 rest show ?thesis unfolding eq by blast
qed


lemma orderCreation_sell:
  assumes inv: "slotInv n s lv" and fr: "freeLimitOrders s = lo # fr"
    and p: "limitSellPrice d s < NUM_PRICES"
  shows "\<exists>s'. orderCreation (LimitSell d sz l) t s = Some (Inr s') \<and>
     slotInv n s' (lv(limitSellPrice d s :=
        if fillTiesInStackOrder s then lo # lv (limitSellPrice d s)
        else lv (limitSellPrice d s) @ [lo])) \<and>
     limitOrderHead s' (limitSellPrice d s) \<noteq> None \<and>
     (\<forall>q. q \<noteq> limitSellPrice d s \<longrightarrow> limitOrderHead s' q = limitOrderHead s q) \<and>
     lo_p (pool s' lo) = limitSellPrice d s \<and> lo_size (pool s' lo) = ucast sz \<and>
     lo_expirationTime (pool s' lo) = t + l \<and> \<not> lo_user (pool s' lo) \<and>
     ask s' = min (ask s) (limitSellPrice d s) \<and> bid s' = bid s \<and>
     userLimitOrders s' = userLimitOrders s \<and> balance s' = balance s \<and>
     sharesOpen s' = sharesOpen s \<and> fillTiesInStackOrder s' = fillTiesInStackOrder s"
proof -
  let ?p = "limitSellPrice d s"
  have room: "False \<longrightarrow> length (userLimitOrders s) < MAX_NUM_USER_LIMIT_ORDERS" by simp
  from addLimitOrder_inv [OF inv fr p room, of "ucast sz" "t + l"] obtain s1 where
    r: "addLimitOrder ?p (ucast sz) (t + l) False s = Some (Inr s1)"
    and i: "slotInv n s1 (lv(?p := if fillTiesInStackOrder s then lo # lv ?p else lv ?p @ [lo]))"
    and h: "limitOrderHead s1 ?p \<noteq> None"
    and hs: "\<forall>q. q \<noteq> ?p \<longrightarrow> limitOrderHead s1 q = limitOrderHead s q"
    and f: "lo_p (pool s1 lo) = ?p" "lo_size (pool s1 lo) = ucast sz"
      "lo_expirationTime (pool s1 lo) = t + l" "lo_user (pool s1 lo) = False"
    and g: "bid s1 = bid s" "ask s1 = ask s" "userLimitOrders s1 = userLimitOrders s"
      "balance s1 = balance s" "sharesOpen s1 = sharesOpen s"
      "fillTiesInStackOrder s1 = fillTiesInStackOrder s"
    by auto
  let ?s' = "if ?p < ask s1 then s1\<lparr>ask := ?p\<rparr> else s1"
  from r have "orderCreation (LimitSell d sz l) t s = Some (Inr ?s')"
    by (simp add: orderCreation_def Let_def)
  moreover from i have "slotInv n ?s' (lv(?p := if fillTiesInStackOrder s then lo # lv ?p else lv ?p @ [lo]))"
    by simp
  moreover have "ask ?s' = min (ask s) ?p" using g(2) by (auto simp: min_def)
  moreover have "limitOrderHead ?s' = limitOrderHead s1" "pool ?s' = pool s1"
    "bid ?s' = bid s1" "userLimitOrders ?s' = userLimitOrders s1" "balance ?s' = balance s1"
    "sharesOpen ?s' = sharesOpen s1" "fillTiesInStackOrder ?s' = fillTiesInStackOrder s1"
    by simp_all
  ultimately show ?thesis using h hs f g by metis
qed

lemma orderCreation_buy:
  assumes inv: "slotInv n s lv" and fr: "freeLimitOrders s = lo # fr"
    and p: "limitBuyPrice d s < NUM_PRICES"
  shows "\<exists>s'. orderCreation (LimitBuy d sz l) t s = Some (Inr s') \<and>
     slotInv n s' (lv(limitBuyPrice d s :=
        if fillTiesInStackOrder s then lo # lv (limitBuyPrice d s)
        else lv (limitBuyPrice d s) @ [lo])) \<and>
     limitOrderHead s' (limitBuyPrice d s) \<noteq> None \<and>
     (\<forall>q. q \<noteq> limitBuyPrice d s \<longrightarrow> limitOrderHead s' q = limitOrderHead s q) \<and>
     lo_p (pool s' lo) = limitBuyPrice d s \<and> lo_size (pool s' lo) = ucast sz \<and>
     lo_expirationTime (pool s' lo) = t + l \<and> \<not> lo_user (pool s' lo) \<and>
     bid s' = max (bid s) (limitBuyPrice d s) \<and> ask s' = ask s \<and>
     userLimitOrders s' = userLimitOrders s \<and> balance s' = balance s \<and>
     sharesOpen s' = sharesOpen s \<and> fillTiesInStackOrder s' = fillTiesInStackOrder s"
proof -
  let ?p = "limitBuyPrice d s"
  have room: "False \<longrightarrow> length (userLimitOrders s) < MAX_NUM_USER_LIMIT_ORDERS" by simp
  from addLimitOrder_inv [OF inv fr p room, of "ucast sz" "t + l"] obtain s1 where
    r: "addLimitOrder ?p (ucast sz) (t + l) False s = Some (Inr s1)"
    and i: "slotInv n s1 (lv(?p := if fillTiesInStackOrder s then lo # lv ?p else lv ?p @ [lo]))"
    and h: "limitOrderHead s1 ?p \<noteq> None"
    and hs: "\<forall>q. q \<noteq> ?p \<longrightarrow> limitOrderHead s1 q = limitOrderHead s q"
    and f: "lo_p (pool s1 lo) = ?p" "lo_size (pool s1 lo) = ucast sz"
      "lo_expirationTime (pool s1 lo) = t + l" "lo_user (pool s1 lo) = False"
    and g: "bid s1 = bid s" "ask s1 = ask s" "userLimitOrders s1 = userLimitOrders s"
      "balance s1 = balance s" "sharesOpen s1 = sharesOpen s"
      "fillTiesInStackOrder s1 = fillTiesInStackOrder s"
    by auto
  let ?s' = "if bid s1 < ?p then s1\<lparr>bid := ?p\<rparr> else s1"
  from r have "orderCreation (LimitBuy d sz l) t s = Some (Inr ?s')"
    by (simp add: orderCreation_def Let_def)
  moreover from i have "slotInv n ?s' (lv(?p := if fillTiesInStackOrder s then lo # lv ?p else lv ?p @ [lo]))"
    by simp
  moreover have "bid ?s' = max (bid s) ?p" using g(1) by (auto simp: max_def)
  moreover have "limitOrderHead ?s' = limitOrderHead s1" "pool ?s' = pool s1"
    "ask ?s' = ask s1" "userLimitOrders ?s' = userLimitOrders s1" "balance ?s' = balance s1"
    "sharesOpen ?s' = sharesOpen s1" "fillTiesInStackOrder ?s' = fillTiesInStackOrder s1"
    by simp_all
  ultimately show ?thesis using h hs f g by metis
qed


lemma orderCreation_out_of_range:
  assumes fr: "freeLimitOrders s = lo # fr"
  shows "NUM_PRICES \<le> limitSellPrice d s \<Longrightarrow>
      orderCreation (LimitSell d sz l) t s = Some (Inl OutOfBounds)"
    and "NUM_PRICES \<le> limitBuyPrice d s \<Longrightarrow>
      orderCreation (LimitBuy d sz l) t s = Some (Inl OutOfBounds)"
  using fr by (simp_all add: orderCreation_def addLimitOrder_def Let_def)

lemma book6_slotInv:
  "slotInv 3 book6 ((\<lambda>_. [])(500 := [2], 505 := [1]))"
proof -
  let ?s0 = "(setupBook 3 False True)\<lparr>bid := 500, ask := 505\<rparr>"
  have "slotInv 3 (setupBook 3 False True) (\<lambda>_. [])" by (rule slotInv_setupBook)
  then have i0: "slotInv 3 ?s0 (\<lambda>_. [])" by simp
  have f0: "freeLimitOrders ?s0 = 2 # [1, 0]" by (simp add: setupBook_def upt_rec)
  have room: "False \<longrightarrow> length (userLimitOrders s) < MAX_NUM_USER_LIMIT_ORDERS" for s :: book
    by simp
  have p0: "(500 :: u32) < NUM_PRICES" and p1: "(505 :: u32) < NUM_PRICES"
    by (simp_all add: NUM_PRICES_def)
  from addLimitOrder_inv [OF i0 f0 p0 room, of 5 1000] obtain s1 where
    r1: "addLimitOrder 500 5 1000 False ?s0 = Some (Inr s1)"
    and i1: "slotInv 3 s1 ((\<lambda>_. [])(500 := [2]))" and f1: "freeLimitOrders s1 = [1, 0]"
    and st: "fillTiesInStackOrder s1 = False"
    by (auto simp: setupBook_def)
  from addLimitOrder_inv [OF i1 f1 p1 room, of 5 1000] obtain s2 where
    r2: "addLimitOrder 505 5 1000 False s1 = Some (Inr s2)"
    and i2: "slotInv 3 s2 ((\<lambda>_. [])(500 := [2], 505 := [1]))"
    using st by auto
  from r1 r2 have "book6 = s2" by (simp add: book6_def place_def)
  with i2 show ?thesis by simp
qed

lemma book6_facts:
  "freeLimitOrders book6 = [0]" "bid book6 = 500" "ask book6 = 505"
  "limitSellPrice 2 book6 = 502" "limitBuyPrice 2 book6 = 503"
  "fillTiesInStackOrder book6 = False"
  by (simp_all add: book6_def place_def book_eval upt_rec limitSellPrice_def limitBuyPrice_def)

section \<open>The trace of a market order\<close>

lemma pricesBetween_ge: "r \<in> set (pricesBetween p q) \<Longrightarrow> p \<le> r \<and> r < q"
proof (induction p q rule: pricesBetween.induct)
  case (1 p q)
  show ?case
  proof (cases "p < q")
    case True
    then have ps: "p < p + 1" by (rule word_less_succ)
    from True "1.prems" have "r = p \<or> r \<in> set (pricesBetween (p + 1) q)"
      by (subst (asm) pricesBetween.simps) simp
    then show ?thesis
    proof
      assume "r = p"
      with True show ?thesis by simp
    next
      assume "r \<in> set (pricesBetween (p + 1) q)"
      from "1.IH" [OF True this] have a: "p + 1 \<le> r" and b: "r < q" by simp_all
      from ps a have "p < r" by (rule less_le_trans)
      with b show ?thesis by simp
    qed
  next
    case False
    with "1.prems" show ?thesis by (subst (asm) pricesBetween.simps) simp
  qed
qed

lemma pricesDownTo_le: "r \<in> set (pricesDownTo p q) \<Longrightarrow> q < r \<and> r \<le> p"
proof (induction p q rule: pricesDownTo.induct)
  case (1 p q)
  show ?case
  proof (cases "q < p")
    case True
    then have "p \<noteq> 0" by auto
    then have ps: "p - 1 < p" by (rule word_pred_lt)
    from True "1.prems" have "r = p \<or> r \<in> set (pricesDownTo (p - 1) q)"
      by (subst (asm) pricesDownTo.simps) simp
    then show ?thesis
    proof
      assume "r = p"
      with True show ?thesis by simp
    next
      assume "r \<in> set (pricesDownTo (p - 1) q)"
      from "1.IH" [OF True this] have a: "q < r" and b: "r \<le> p - 1" by simp_all
      from b ps have "r < p" by (rule le_less_trans)
      with a show ?thesis by simp
    qed
  next
    case False
    with "1.prems" show ?thesis by (subst (asm) pricesDownTo.simps) simp
  qed
qed

lemma qtyBetween_same [simp]: "qtyBetween s lv t p p = 0"
  by (simp add: qtyBetween_def pricesBetween.simps)

lemma qtyBetween_step:
  "p < q \<Longrightarrow> qtyBetween s lv t p q = liveQty s lv t p + qtyBetween s lv t (p + 1) q"
  by (subst qtyBetween_def, subst pricesBetween.simps) (simp add: qtyBetween_def)

lemma qtyDownTo_same [simp]: "qtyDownTo s lv t p p = 0"
  by (simp add: qtyDownTo_def pricesDownTo.simps)

lemma qtyDownTo_step:
  "q < p \<Longrightarrow> qtyDownTo s lv t p q = liveQty s lv t p + qtyDownTo s lv t (p - 1) q"
  by (subst qtyDownTo_def, subst pricesDownTo.simps) (simp add: qtyDownTo_def)

lemma consumedPortions_sum:
  "sum_list (map snd (consumedPortions S ys)) = min S (sum_list (map snd ys))"
proof (induction ys arbitrary: S)
  case Nil
  then show ?case by simp
next
  case (Cons y ys)
  obtain pr q where y: "y = (pr, q)" by (cases y)
  show ?case
  proof (cases "q \<le> S")
    case True
    with Cons.IH [of "S - q"] show ?thesis by (simp add: y)
  next
    case False
    with Cons.IH [of 0] show ?thesis by (simp add: y)
  qed
qed

lemma liveQty_resting:
  "liveQty s lv t r = sum_list (map snd (asNat (resting s t r (lv r))))"
  by (simp add: liveQty_def liveAt_def resting_def asNat_def comp_def)

lemma taken_quantity_nat:
  "unat (quantity32 (takenAt sz (resting s t r (lv r)))) = min (unat sz) (liveQty s lv t r)"
proof -
  let ?xs = "resting s t r (lv r)"
  have "quantity32 (takenAt sz ?xs) = of_nat (min (unat sz) (liveQty s lv t r))"
    by (simp add: quantity32_nat takenAt_nat consumedPortions_sum liveQty_resting)
  then have "unat (quantity32 (takenAt sz ?xs)) = min (unat sz) (liveQty s lv t r) mod 2 ^ 32"
    by (rule unat_of_nat32)
  moreover have "unat sz < 2 ^ 32" using unsigned_less [of sz] by simp
  then have "min (unat sz) (liveQty s lv t r) < 2 ^ 32" by simp
  ultimately show ?thesis by simp
qed

lemma remaining_nat:
  assumes "sz' = sz - quantity32 (takenAt sz (resting s t r (lv r)))"
  shows "unat sz' = unat sz - min (unat sz) (liveQty s lv t r)"
proof -
  let ?x = "quantity32 (takenAt sz (resting s t r (lv r)))"
  have u: "unat ?x = min (unat sz) (liveQty s lv t r)" by (rule taken_quantity_nat)
  then have "?x \<le> sz" by (simp add: word_le_nat_alt)
  then have "unat (sz - ?x) = unat sz - unat ?x" by (rule unat_sub)
  with assms u show ?thesis by simp
qed

lemma fillList_no_user:
  "fillList p isSell as sz ou s = (sz', ou', s') \<Longrightarrow> \<forall>a \<in> set as. \<not> lo_user (pool s a) \<Longrightarrow>
   balance s' = balance s \<and> sharesOpen s' = sharesOpen s \<and>
   userLimitOrders s' = userLimitOrders s"
proof (induction as arbitrary: sz ou s)
  case Nil
  then show ?case by simp
next
  case (Cons c cs)
  from Cons.prems(2) have nu: "\<not> lo_user (pool s c)" by simp
  show ?case
  proof (cases "lo_size (pool s c) \<le> sz")
    case True
    let ?s1 = "fillCompletely p isSell c s"
    from True Cons.prems(1) have r: "fillList p isSell cs (sz - lo_size (pool s c))
        (ou + lo_size (pool s c) * p) ?s1 = (sz', ou', s')"
      by (simp add: Let_def)
    from Cons.prems(2) have "\<forall>a \<in> set cs. \<not> lo_user (pool ?s1 a)" by simp
    from Cons.IH [OF r this] nu show ?thesis by (simp add: fillCompletely_def Let_def)
  next
    case False
    with Cons.prems(1) have "s' = fillPartially p sz isSell c s" by (simp add: Let_def)
    with nu show ?thesis by (simp add: fillPartially_def Let_def)
  qed
qed

lemma level_step2:
  assumes inv: "slotInv n s lv" and p: "p < NUM_PRICES"
  shows "\<exists>s1 sz' ou' s2.
     updateLimitOrders p t s = Some (Inr s1) \<and>
     fillOrders p sz ou isSell s1 = Some (Inr (sz', ou', s2)) \<and>
     slotInv n s2 (lv(p := drop (fullCount sz (sizes s (liveAt s lv t p))) (liveAt s lv t p))) \<and>
     (\<forall>q. q \<noteq> p \<longrightarrow> limitOrderHead s2 q = limitOrderHead s q) \<and>
     (\<forall>a. a \<notin> set (liveAt s lv t p) \<longrightarrow> pool s2 a = pool s a) \<and>
     (\<forall>a. lo_p (pool s2 a) = lo_p (pool s a) \<and>
          lo_expirationTime (pool s2 a) = lo_expirationTime (pool s a) \<and>
          lo_user (pool s2 a) = lo_user (pool s a)) \<and>
     ou' = ou + notional32 (takenAt sz (resting s t p (lv p))) \<and>
     sz' = sz - quantity32 (takenAt sz (resting s t p (lv p))) \<and>
     (sz' \<noteq> 0 \<longrightarrow> limitOrderHead s2 p = None) \<and>
     freeLimitOrders s2 =
       rev (take (fullCount sz (sizes s (liveAt s lv t p))) (liveAt s lv t p)) @
       rev (filter (expired s t) (lv p)) @ freeLimitOrders s \<and>
     bid s2 = bid s \<and> ask s2 = ask s \<and>
     ((\<forall>a \<in> set (liveAt s lv t p). \<not> lo_user (pool s a)) \<longrightarrow>
        balance s2 = balance s \<and> sharesOpen s2 = sharesOpen s \<and>
        userLimitOrders s2 = userLimitOrders s)"
proof -
  let ?live = "liveAt s lv t p"
  have live: "?live = filter (\<lambda>a. \<not> expired s t a) (lv p)" by (simp add: liveAt_def)
  let ?lv1 = "lv(p := ?live)"
  from inv have lvp: "level s p (lv p)" by (rule slotInv_level)
  from updateLimitOrders_level [OF lvp p, of t] obtain s1 where
    r1: "updateLimitOrders p t s = Some (Inr s1)"
    and fr1: "freeLimitOrders s1 = rev (filter (expired s t) (lv p)) @ freeLimitOrders s"
    and eq1: "s1 = s\<lparr>pool := pool s1, freeLimitOrders := freeLimitOrders s1,
             limitOrderHead := (limitOrderHead s)(p := limitOrderHead s1 p)\<rparr>"
    and nxt1: "\<forall>a. pool s1 a = (pool s a)\<lparr>lo_next := lo_next (pool s1 a)\<rparr>"
    and out1: "\<forall>a. a \<notin> set ?live \<longrightarrow> pool s1 a = pool s a"
    unfolding live by blast
  from slotInv_updateLimitOrders [OF inv p, of t] r1
  have inv1: "slotInv n s1 ?lv1" unfolding live by auto
  have f1: "\<And>a. lo_size (pool s1 a) = lo_size (pool s a)"
    "\<And>a. lo_p (pool s1 a) = lo_p (pool s a)"
    "\<And>a. lo_expirationTime (pool s1 a) = lo_expirationTime (pool s a)"
    "\<And>a. lo_user (pool s1 a) = lo_user (pool s a)"
    by (subst nxt1 [rule_format], simp)+
  have sz1: "sizes s1 ?live = sizes s ?live" by (simp add: sizes_def f1)
  let ?k = "fullCount sz (sizes s ?live)"
  from slotInv_fillOrders [OF inv1 p, of sz ou isSell] obtain sz' ou' s2 where
    r2: "fillOrders p sz ou isSell s1 = Some (Inr (sz', ou', s2))"
    and fl: "fillList p isSell (?lv1 p) sz ou s1 = (sz', ou', s2)"
    and inv2': "slotInv n s2 (?lv1(p := drop (fullCount sz (sizes s1 (?lv1 p))) (?lv1 p)))"
    by blast
  from fl have fl': "fillList p isSell ?live sz ou s1 = (sz', ou', s2)" by simp
  from inv2' have inv2: "slotInv n s2 (lv(p := drop ?k ?live))" by (simp add: sz1)
  have "map (\<lambda>a. (p, lo_size (pool s1 a))) ?live = resting s t p (lv p)"
    by (simp add: resting_def f1 live)
  with fillList_value [OF fl']
  have val: "ou' = ou + notional32 (takenAt sz (resting s t p (lv p)))"
    and rem: "sz' = sz - quantity32 (takenAt sz (resting s t p (lv p)))" by simp_all
  from inv1 have ch1: "chain (pool s1) (limitOrderHead s1 p) ?live"
    by (auto dest: slotInv_level [of _ _ _ p] simp: level_def)
  from fillList_level [OF ch1 fl']
  have heads2: "\<forall>q. q \<noteq> p \<longrightarrow> limitOrderHead s2 q = limitOrderHead s1 q"
    and ba2: "bid s2 = bid s1" "ask s2 = ask s1" by simp_all
  have heads1: "\<forall>q. q \<noteq> p \<longrightarrow> limitOrderHead s1 q = limitOrderHead s q"
    by (subst eq1) simp
  from heads1 heads2 have hd: "\<forall>q. q \<noteq> p \<longrightarrow> limitOrderHead s2 q = limitOrderHead s q"
    by simp
  have ba1: "bid s1 = bid s" "ask s1 = ask s" by (subst eq1, simp)+
  have led1: "balance s1 = balance s" "sharesOpen s1 = sharesOpen s"
    "userLimitOrders s1 = userLimitOrders s" by (subst eq1, simp)+
  from fillList_pool [OF fl']
  have fp: "\<forall>a. pool s2 a = (pool s1 a)\<lparr>lo_size := lo_size (pool s2 a)\<rparr>"
    and fo: "\<forall>a. a \<notin> set ?live \<longrightarrow> pool s2 a = pool s1 a" by blast+
  from fo out1 have out: "\<forall>a. a \<notin> set ?live \<longrightarrow> pool s2 a = pool s a" by simp
  have f2: "\<And>a. lo_p (pool s2 a) = lo_p (pool s1 a)"
    "\<And>a. lo_expirationTime (pool s2 a) = lo_expirationTime (pool s1 a)"
    "\<And>a. lo_user (pool s2 a) = lo_user (pool s1 a)"
    by (subst fp [rule_format], simp)+
  have imm: "\<forall>a. lo_p (pool s2 a) = lo_p (pool s a) \<and>
          lo_expirationTime (pool s2 a) = lo_expirationTime (pool s a) \<and>
          lo_user (pool s2 a) = lo_user (pool s a)"
    by (simp add: f1 f2)
  have emp: "sz' \<noteq> 0 \<longrightarrow> limitOrderHead s2 p = None"
  proof
    assume "sz' \<noteq> 0"
    from fillList_hungry [OF fl' this] have "drop ?k ?live = []" by (simp add: sz1)
    with inv2 have "level s2 p []" by (auto dest: slotInv_level [of _ _ _ p])
    then show "limitOrderHead s2 p = None" by (simp add: level_def)
  qed
  from fillList_free [OF fl']
  have fr: "freeLimitOrders s2 =
      rev (take ?k ?live) @ rev (filter (expired s t) (lv p)) @ freeLimitOrders s"
    by (simp add: sz1 fr1)
  have led: "(\<forall>a \<in> set ?live. \<not> lo_user (pool s a)) \<longrightarrow>
        balance s2 = balance s \<and> sharesOpen s2 = sharesOpen s \<and>
        userLimitOrders s2 = userLimitOrders s"
  proof
    assume "\<forall>a \<in> set ?live. \<not> lo_user (pool s a)"
    then have "\<forall>a \<in> set ?live. \<not> lo_user (pool s1 a)" by (simp add: f1)
    from fillList_no_user [OF fl' this] led1
    show "balance s2 = balance s \<and> sharesOpen s2 = sharesOpen s \<and>
        userLimitOrders s2 = userLimitOrders s" by simp
  qed
  from ba1 ba2 have ba: "bid s2 = bid s" "ask s2 = ask s" by simp_all
  show ?thesis
    using r1 r2 inv2 hd out imm val rem emp fr ba led
    by (intro exI [of _ s1] exI [of _ sz'] exI [of _ ou'] exI [of _ s2] conjI) assumption+
qed

lemma live_frame:
  assumes inv: "slotInv n s lv"
    and lv2: "\<forall>q. q \<noteq> p \<longrightarrow> lv2 q = lv q"
    and out: "\<forall>a. a \<notin> set (lv p) \<longrightarrow> pool s2 a = pool s a"
    and r: "r \<noteq> p"
  shows "liveAt s2 lv2 t r = liveAt s lv t r" "liveQty s2 lv2 t r = liveQty s lv t r"
    "\<And>a. a \<in> set (lv r) \<Longrightarrow> pool s2 a = pool s a"
proof -
  from inv r have "set (lv r) \<inter> set (lv p) = {}" by (simp add: slotInv_def)
  with out show same: "\<And>a. a \<in> set (lv r) \<Longrightarrow> pool s2 a = pool s a" by auto
  have "filter (\<lambda>a. \<not> expired s2 t a) (lv r) = filter (\<lambda>a. \<not> expired s t a) (lv r)"
    by (rule filter_cong) (simp_all add: expired_def same)
  with r lv2 show l: "liveAt s2 lv2 t r = liveAt s lv t r" by (simp add: liveAt_def)
  have m: "map (\<lambda>a. unat (lo_size (pool s2 a))) (liveAt s lv t r) =
      map (\<lambda>a. unat (lo_size (pool s a))) (liveAt s lv t r)"
    by (rule map_cong) (simp_all add: same liveAt_def)
  show "liveQty s2 lv2 t r = liveQty s lv t r"
    unfolding liveQty_def l by (rule arg_cong [OF m])
qed

lemma qtyBetween_frame:
  assumes inv: "slotInv n s lv"
    and lv2: "\<forall>q. q \<noteq> p \<longrightarrow> lv2 q = lv q"
    and out: "\<forall>a. a \<notin> set (lv p) \<longrightarrow> pool s2 a = pool s a"
    and p: "p < p + 1"
  shows "qtyBetween s2 lv2 t (p + 1) q = qtyBetween s lv t (p + 1) q"
proof -
  have m: "map (liveQty s2 lv2 t) (pricesBetween (p + 1) q) =
      map (liveQty s lv t) (pricesBetween (p + 1) q)"
  proof (rule map_cong [OF refl])
    fix r assume "r \<in> set (pricesBetween (p + 1) q)"
    then have "p + 1 \<le> r" by (simp add: pricesBetween_ge)
    with p have "p < r" by (rule less_le_trans)
    then have "r \<noteq> p" by simp
    from live_frame(2) [OF inv lv2 out this] show "liveQty s2 lv2 t r = liveQty s lv t r" .
  qed
  show ?thesis unfolding qtyBetween_def by (rule arg_cong [OF m])
qed

lemma qtyDownTo_frame:
  assumes inv: "slotInv n s lv"
    and lv2: "\<forall>q. q \<noteq> p \<longrightarrow> lv2 q = lv q"
    and out: "\<forall>a. a \<notin> set (lv p) \<longrightarrow> pool s2 a = pool s a"
    and p: "p - 1 < p"
  shows "qtyDownTo s2 lv2 t (p - 1) q = qtyDownTo s lv t (p - 1) q"
proof -
  have m: "map (liveQty s2 lv2 t) (pricesDownTo (p - 1) q) =
      map (liveQty s lv t) (pricesDownTo (p - 1) q)"
  proof (rule map_cong [OF refl])
    fix r assume "r \<in> set (pricesDownTo (p - 1) q)"
    then have "r \<le> p - 1" by (simp add: pricesDownTo_le)
    from this p have "r < p" by (rule le_less_trans)
    then have "r \<noteq> p" by simp
    from live_frame(2) [OF inv lv2 out this] show "liveQty s2 lv2 t r = liveQty s lv t r" .
  qed
  show ?thesis unfolding qtyDownTo_def by (rule arg_cong [OF m])
qed

lemma buyTraceI:
  assumes "\<And>a. lo_p (pool s' a) = lo_p (pool s a) \<and>
          lo_expirationTime (pool s' a) = lo_expirationTime (pool s a) \<and>
          lo_user (pool s' a) = lo_user (pool s a)"
    and "set (freeLimitOrders s) \<subseteq> set (freeLimitOrders s')"
    and "\<And>r. 0 < sz \<Longrightarrow> ask s' < r \<Longrightarrow> limitOrderHead s' r = limitOrderHead s r"
    and "\<And>a. 0 < sz \<Longrightarrow> \<forall>r. p \<le> r \<and> r \<le> ask s' \<longrightarrow> a \<notin> set (liveAt s lv t r) \<Longrightarrow>
           pool s' a = pool s a"
    and "\<And>r a. 0 < sz \<Longrightarrow> p \<le> r \<Longrightarrow> r \<le> ask s' \<Longrightarrow> a \<in> set (lv r) \<Longrightarrow> expired s t a \<Longrightarrow>
           a \<in> set (freeLimitOrders s')"
    and "0 < sz \<Longrightarrow> qtyBetween s lv t p (ask s') < unat sz \<and>
           unat sz \<le> qtyBetween s lv t p (ask s') + liveQty s lv t (ask s')"
    and "0 < sz \<Longrightarrow> \<exists>k. level s' (ask s') (drop k (liveAt s lv t (ask s')))"
    and "\<forall>r a. a \<in> set (lv r) \<and> lo_user (pool s a) \<longrightarrow> expired s t a \<Longrightarrow>
           balance s' = balance s \<and> sharesOpen s' = sharesOpen s \<and>
           userLimitOrders s' = userLimitOrders s"
  shows "buyTrace lv t p sz s s'"
  unfolding buyTrace_def using assms by (intro conjI allI impI; blast)

lemma buyTrace_imm:
  "buyTrace lv t p sz s s' \<Longrightarrow> lo_p (pool s' a) = lo_p (pool s a) \<and>
     lo_expirationTime (pool s' a) = lo_expirationTime (pool s a) \<and>
     lo_user (pool s' a) = lo_user (pool s a)"
  by (simp add: buyTrace_def)

lemma buyTrace_free:
  "buyTrace lv t p sz s s' \<Longrightarrow> set (freeLimitOrders s) \<subseteq> set (freeLimitOrders s')"
  by (simp add: buyTrace_def)

lemma buyTrace_above:
  "buyTrace lv t p sz s s' \<Longrightarrow> 0 < sz \<Longrightarrow> ask s' < r \<Longrightarrow>
   limitOrderHead s' r = limitOrderHead s r"
  by (simp add: buyTrace_def)

lemma buyTrace_pool:
  "buyTrace lv t p sz s s' \<Longrightarrow> 0 < sz \<Longrightarrow>
   \<forall>r. p \<le> r \<and> r \<le> ask s' \<longrightarrow> a \<notin> set (liveAt s lv t r) \<Longrightarrow> pool s' a = pool s a"
  by (simp add: buyTrace_def)

lemma buyTrace_swept:
  "buyTrace lv t p sz s s' \<Longrightarrow> 0 < sz \<Longrightarrow> p \<le> r \<Longrightarrow> r \<le> ask s' \<Longrightarrow> a \<in> set (lv r) \<Longrightarrow>
   expired s t a \<Longrightarrow> a \<in> set (freeLimitOrders s')"
  unfolding buyTrace_def by blast

lemma buyTrace_qty:
  "buyTrace lv t p sz s s' \<Longrightarrow> 0 < sz \<Longrightarrow>
   qtyBetween s lv t p (ask s') < unat sz \<and>
   unat sz \<le> qtyBetween s lv t p (ask s') + liveQty s lv t (ask s')"
  by (simp add: buyTrace_def)

lemma buyTrace_level:
  "buyTrace lv t p sz s s' \<Longrightarrow> 0 < sz \<Longrightarrow>
   \<exists>k. level s' (ask s') (drop k (liveAt s lv t (ask s')))"
  by (simp add: buyTrace_def)

lemma buyTrace_ledger:
  "buyTrace lv t p sz s s' \<Longrightarrow>
   \<forall>r a. a \<in> set (lv r) \<and> lo_user (pool s a) \<longrightarrow> expired s t a \<Longrightarrow>
   balance s' = balance s \<and> sharesOpen s' = sharesOpen s \<and>
   userLimitOrders s' = userLimitOrders s"
  by (simp add: buyTrace_def)

lemma liveAt_bid_ask [simp]:
  "liveAt (s\<lparr>ask := x\<rparr>) = liveAt s" "liveAt (s\<lparr>bid := x\<rparr>) = liveAt s"
  by (simp_all add: liveAt_def fun_eq_iff)

lemma liveQty_bid_ask [simp]:
  "liveQty (s\<lparr>ask := x\<rparr>) = liveQty s" "liveQty (s\<lparr>bid := x\<rparr>) = liveQty s"
  by (simp_all add: liveQty_def fun_eq_iff)

lemma sizes_bid_ask [simp]:
  "sizes (s\<lparr>ask := x\<rparr>) = sizes s" "sizes (s\<lparr>bid := x\<rparr>) = sizes s"
  by (simp_all add: sizes_def fun_eq_iff)

lemma expired_imm:
  "lo_expirationTime (pool s' a) = lo_expirationTime (pool s a) \<Longrightarrow>
   expired s' t a = expired s t a"
  by (simp add: expired_def)

lemma level_step2_ask:
  assumes inv: "slotInv n s lv" and p: "p < NUM_PRICES"
  shows "\<exists>s1 sz' ou' s2.
     updateLimitOrders p t (s\<lparr>ask := p\<rparr>) = Some (Inr s1) \<and>
     fillOrders p sz ou isSell s1 = Some (Inr (sz', ou', s2)) \<and>
     slotInv n s2 (lv(p := drop (fullCount sz (sizes s (liveAt s lv t p))) (liveAt s lv t p))) \<and>
     (\<forall>q. q \<noteq> p \<longrightarrow> limitOrderHead s2 q = limitOrderHead s q) \<and>
     (\<forall>a. a \<notin> set (liveAt s lv t p) \<longrightarrow> pool s2 a = pool s a) \<and>
     (\<forall>a. lo_p (pool s2 a) = lo_p (pool s a) \<and>
          lo_expirationTime (pool s2 a) = lo_expirationTime (pool s a) \<and>
          lo_user (pool s2 a) = lo_user (pool s a)) \<and>
     ou' = ou + notional32 (takenAt sz (resting s t p (lv p))) \<and>
     sz' = sz - quantity32 (takenAt sz (resting s t p (lv p))) \<and>
     (sz' \<noteq> 0 \<longrightarrow> limitOrderHead s2 p = None) \<and>
     freeLimitOrders s2 =
       rev (take (fullCount sz (sizes s (liveAt s lv t p))) (liveAt s lv t p)) @
       rev (filter (expired s t) (lv p)) @ freeLimitOrders s \<and>
     bid s2 = bid s \<and> ask s2 = p \<and>
     ((\<forall>a \<in> set (liveAt s lv t p). \<not> lo_user (pool s a)) \<longrightarrow>
        balance s2 = balance s \<and> sharesOpen s2 = sharesOpen s \<and>
        userLimitOrders s2 = userLimitOrders s)"
proof -
  from inv have "slotInv n (s\<lparr>ask := p\<rparr>) lv" by simp
  from level_step2 [OF this p, of t sz ou isSell] show ?thesis by simp
qed

lemma level_step2_bid:
  assumes inv: "slotInv n s lv" and p: "p < NUM_PRICES"
  shows "\<exists>s1 sz' ou' s2.
     updateLimitOrders p t (s\<lparr>bid := p\<rparr>) = Some (Inr s1) \<and>
     fillOrders p sz ou isSell s1 = Some (Inr (sz', ou', s2)) \<and>
     slotInv n s2 (lv(p := drop (fullCount sz (sizes s (liveAt s lv t p))) (liveAt s lv t p))) \<and>
     (\<forall>q. q \<noteq> p \<longrightarrow> limitOrderHead s2 q = limitOrderHead s q) \<and>
     (\<forall>a. a \<notin> set (liveAt s lv t p) \<longrightarrow> pool s2 a = pool s a) \<and>
     (\<forall>a. lo_p (pool s2 a) = lo_p (pool s a) \<and>
          lo_expirationTime (pool s2 a) = lo_expirationTime (pool s a) \<and>
          lo_user (pool s2 a) = lo_user (pool s a)) \<and>
     ou' = ou + notional32 (takenAt sz (resting s t p (lv p))) \<and>
     sz' = sz - quantity32 (takenAt sz (resting s t p (lv p))) \<and>
     (sz' \<noteq> 0 \<longrightarrow> limitOrderHead s2 p = None) \<and>
     freeLimitOrders s2 =
       rev (take (fullCount sz (sizes s (liveAt s lv t p))) (liveAt s lv t p)) @
       rev (filter (expired s t) (lv p)) @ freeLimitOrders s \<and>
     bid s2 = p \<and> ask s2 = ask s \<and>
     ((\<forall>a \<in> set (liveAt s lv t p). \<not> lo_user (pool s a)) \<longrightarrow>
        balance s2 = balance s \<and> sharesOpen s2 = sharesOpen s \<and>
        userLimitOrders s2 = userLimitOrders s)"
proof -
  from inv have "slotInv n (s\<lparr>bid := p\<rparr>) lv" by simp
  from level_step2 [OF this p, of t sz ou isSell] show ?thesis by simp
qed

lemma marketBuy_loop_trace:
  "slotInv n s lv \<Longrightarrow> marketBuy_loop p t sz ou s = Some (Inr (ou', s')) \<Longrightarrow>
   buyTrace lv t p sz s s'"
proof (induction p t sz ou s arbitrary: lv rule: marketBuy_loop.induct)
  case (1 p t sz ou s)
  note inv = "1.prems"(1) and res = "1.prems"(2)
  from marketBuy_loop_inv [OF inv, of p t sz ou] res
  have post: "buyPost n lv t p sz ou s ou' s'" by auto
  show ?case
  proof (cases "0 < sz")
    case False
    then have z: "sz = 0" using word_neq_0_conv by blast
    from buyPost_zero [OF post z] have e: "s' = s" .
    show ?thesis by (rule buyTraceI) (simp_all add: e z)
  next
    case pos: True
    then have upos: "0 < unat sz" by (simp add: word_less_nat_alt)
    show ?thesis
    proof (cases "NUM_PRICES \<le> p")
      case True
      with pos have "marketBuy_loop p t sz ou s = Some (Inl FilledAllSellLimitOrders)"
        by (subst marketBuy_loop.simps) simp
      with res show ?thesis by simp
    next
      case inr: False
      then have p: "p < NUM_PRICES" by (simp add: not_le)
      from p have psucc: "p < p + 1" by (rule word_less_succ)
      show ?thesis
      proof (cases "limitOrderHead s p")
        case None
        with inv have e: "lv p = []"
          by (auto dest: slotInv_level [of _ _ _ p] simp: level_def)
        have step: "marketBuy_loop p t sz ou s = marketBuy_loop (p + 1) t sz ou s"
          using pos inr None by (subst marketBuy_loop.simps) simp
        with res have res1: "marketBuy_loop (p + 1) t sz ou s = Some (Inr (ou', s'))" by simp
        from "1.IH"(1) [OF pos inr None inv res1]
        have tr: "buyTrace lv t (p + 1) sz s s'" .
        from marketBuy_loop_inv [OF inv, of "p + 1" t sz ou] res1
        have post1: "buyPost n lv t (p + 1) sz ou s ou' s'" by auto
        from buyPost_ask [OF post1 pos] have "p + 1 \<le> ask s'" by simp
        with psucc have pa: "p < ask s'" by (rule less_le_trans)
        have l0: "liveQty s lv t p = 0" by (simp add: liveQty_def liveAt_def e)
        show ?thesis
        proof (rule buyTraceI)
          fix a
          show "lo_p (pool s' a) = lo_p (pool s a) \<and>
              lo_expirationTime (pool s' a) = lo_expirationTime (pool s a) \<and>
              lo_user (pool s' a) = lo_user (pool s a)"
            by (rule buyTrace_imm [OF tr])
        next
          show "set (freeLimitOrders s) \<subseteq> set (freeLimitOrders s')"
            by (rule buyTrace_free [OF tr])
        next
          fix r assume "ask s' < r"
          then show "limitOrderHead s' r = limitOrderHead s r"
            by (rule buyTrace_above [OF tr pos])
        next
          fix a assume h: "\<forall>r. p \<le> r \<and> r \<le> ask s' \<longrightarrow> a \<notin> set (liveAt s lv t r)"
          have "\<forall>r. p + 1 \<le> r \<and> r \<le> ask s' \<longrightarrow> a \<notin> set (liveAt s lv t r)"
          proof (intro allI impI)
            fix r assume c: "p + 1 \<le> r \<and> r \<le> ask s'"
            with psucc have "p < r" by (simp add: less_le_trans)
            then have "p \<le> r" by simp
            with h c show "a \<notin> set (liveAt s lv t r)" by simp
          qed
          then show "pool s' a = pool s a" by (rule buyTrace_pool [OF tr pos])
        next
          fix r a assume c: "p \<le> r" "r \<le> ask s'" "a \<in> set (lv r)" "expired s t a"
          from c(3) e have "r \<noteq> p" by auto
          with c(1) have "p < r" by simp
          then have "p + 1 \<le> r" by (rule word_succ_le)
          from buyTrace_swept [OF tr pos this c(2) c(3) c(4)]
          show "a \<in> set (freeLimitOrders s')" .
        next
          from buyTrace_qty [OF tr pos] qtyBetween_step [OF pa, of s lv t] l0
          show "qtyBetween s lv t p (ask s') < unat sz \<and>
              unat sz \<le> qtyBetween s lv t p (ask s') + liveQty s lv t (ask s')"
            by simp
        next
          show "\<exists>k. level s' (ask s') (drop k (liveAt s lv t (ask s')))"
            by (rule buyTrace_level [OF tr pos])
        next
          assume "\<forall>r a. a \<in> set (lv r) \<and> lo_user (pool s a) \<longrightarrow> expired s t a"
          then show "balance s' = balance s \<and> sharesOpen s' = sharesOpen s \<and>
              userLimitOrders s' = userLimitOrders s"
            by (rule buyTrace_ledger [OF tr])
        qed
      next
        case (Some c)
        then have ne: "limitOrderHead s p \<noteq> None" by simp
        let ?s0 = "s\<lparr>ask := p\<rparr>"
        let ?live = "liveAt s lv t p"
        let ?k = "fullCount sz (sizes s ?live)"
        let ?lv2 = "lv(p := drop ?k ?live)"
        from level_step2_ask [OF inv p, of t sz ou False] obtain s1 sz' ou1 s2 where
          r1: "updateLimitOrders p t ?s0 = Some (Inr s1)"
          and r2: "fillOrders p sz ou False s1 = Some (Inr (sz', ou1, s2))"
          and inv2: "slotInv n s2 ?lv2"
          and hd: "\<forall>q. q \<noteq> p \<longrightarrow> limitOrderHead s2 q = limitOrderHead s q"
          and out: "\<forall>a. a \<notin> set ?live \<longrightarrow> pool s2 a = pool s a"
          and imm2: "\<forall>a. lo_p (pool s2 a) = lo_p (pool s a) \<and>
              lo_expirationTime (pool s2 a) = lo_expirationTime (pool s a) \<and>
              lo_user (pool s2 a) = lo_user (pool s a)"
          and rem: "sz' = sz - quantity32 (takenAt sz (resting s t p (lv p)))"
          and fr: "freeLimitOrders s2 =
              rev (take ?k ?live) @ rev (filter (expired s t) (lv p)) @ freeLimitOrders s"
          and ask2: "ask s2 = p"
          and led: "(\<forall>a \<in> set ?live. \<not> lo_user (pool s a)) \<longrightarrow>
              balance s2 = balance s \<and> sharesOpen s2 = sharesOpen s \<and>
              userLimitOrders s2 = userLimitOrders s"
          by blast
        define lv2 where "lv2 = ?lv2"
        from inv2 have inv2': "slotInv n s2 lv2" unfolding lv2_def .
        have lv2p: "lv2 p = drop ?k ?live" by (simp add: lv2_def)
        have step: "marketBuy_loop p t sz ou s = marketBuy_loop (p + 1) t sz' ou1 s2"
          using pos inr Some r1 r2 by (subst marketBuy_loop.simps) simp
        with res have res2: "marketBuy_loop (p + 1) t sz' ou1 s2 = Some (Inr (ou', s'))"
          by simp
        from "1.IH"(2) [OF pos inr ne r1 refl r2 refl refl refl inv2' res2]
        have tr: "buyTrace lv2 t (p + 1) sz' s2 s'" .
        from marketBuy_loop_inv [OF inv2', of "p + 1" t sz' ou1] res2
        have post2: "buyPost n lv2 t (p + 1) sz' ou1 s2 ou' s'" by auto
        have lv2: "\<forall>q. q \<noteq> p \<longrightarrow> lv2 q = lv q" by (simp add: lv2_def)
        have sub: "set ?live \<subseteq> set (lv p)" by (auto simp: liveAt_def)
        from out sub have out2: "\<forall>a. a \<notin> set (lv p) \<longrightarrow> pool s2 a = pool s a" by auto
        have ex2: "\<And>a. expired s2 t a = expired s t a"
          using imm2 by (simp add: expired_def)
        have f0: "set (freeLimitOrders s) \<subseteq> set (freeLimitOrders s2)"
          by (auto simp: fr)
        have dead: "\<And>a. a \<in> set (lv p) \<Longrightarrow> expired s t a \<Longrightarrow> a \<in> set (freeLimitOrders s2)"
          by (simp add: fr)
        from remaining_nat [of sz' sz s t p lv, OF rem]
        have remn: "unat sz' = unat sz - min (unat sz) (liveQty s lv t p)" .
        have nouser: "\<forall>a \<in> set ?live. \<not> lo_user (pool s a)"
          if H: "\<forall>r a. a \<in> set (lv r) \<and> lo_user (pool s a) \<longrightarrow> expired s t a"
        proof
          fix a assume a: "a \<in> set ?live"
          then have "a \<in> set (lv p)" "\<not> expired s t a" by (simp_all add: liveAt_def)
          with H show "\<not> lo_user (pool s a)" by blast
        qed
        show ?thesis
        proof (cases "sz' = 0")
          case True
          from buyPost_zero [OF post2 True] have e: "s' = s2" .
          from ask2 e have a': "ask s' = p" by simp
          show ?thesis
          proof (rule buyTraceI)
            fix a
            show "lo_p (pool s' a) = lo_p (pool s a) \<and>
                lo_expirationTime (pool s' a) = lo_expirationTime (pool s a) \<and>
                lo_user (pool s' a) = lo_user (pool s a)"
              using imm2 by (simp add: e)
          next
            show "set (freeLimitOrders s) \<subseteq> set (freeLimitOrders s')" using f0 by (simp add: e)
          next
            fix r assume "ask s' < r"
            then have "r \<noteq> p" by (simp add: a')
            with hd show "limitOrderHead s' r = limitOrderHead s r" by (simp add: e)
          next
            fix a assume "\<forall>r. p \<le> r \<and> r \<le> ask s' \<longrightarrow> a \<notin> set (liveAt s lv t r)"
            then have "a \<notin> set ?live" by (simp add: a')
            with out show "pool s' a = pool s a" by (simp add: e)
          next
            fix r a assume c: "p \<le> r" "r \<le> ask s'" "a \<in> set (lv r)" "expired s t a"
            from c(1,2) have "r = p" by (simp add: a')
            with c(3,4) dead show "a \<in> set (freeLimitOrders s')" by (simp add: e)
          next
            from remn True have "unat sz \<le> liveQty s lv t p" by simp
            with upos show "qtyBetween s lv t p (ask s') < unat sz \<and>
                unat sz \<le> qtyBetween s lv t p (ask s') + liveQty s lv t (ask s')"
              by (simp add: a')
          next
            from inv2' have "level s2 p (lv2 p)" by (rule slotInv_level)
            then have "level s' (ask s') (drop ?k (liveAt s lv t (ask s')))"
              by (simp add: e ask2 lv2p)
            then show "\<exists>k. level s' (ask s') (drop k (liveAt s lv t (ask s')))" by blast
          next
            assume "\<forall>r a. a \<in> set (lv r) \<and> lo_user (pool s a) \<longrightarrow> expired s t a"
            from nouser [OF this] led
            show "balance s' = balance s \<and> sharesOpen s' = sharesOpen s \<and>
                userLimitOrders s' = userLimitOrders s"
              by (simp add: e)
          qed
        next
          case False
          then have pos': "0 < sz'" using word_neq_0_conv by blast
          from buyPost_ask [OF post2 pos'] have "p + 1 \<le> ask s'" by simp
          with psucc have pa: "p < ask s'" by (rule less_le_trans)
          then have ap: "ask s' \<noteq> p" by simp
          from False have "unat sz' \<noteq> 0" by (simp add: unat_eq_0)
          with remn have big: "liveQty s lv t p < unat sz"
            and remn': "unat sz' = unat sz - liveQty s lv t p"
            by (simp_all add: min_def split: if_splits)
          note fra = live_frame [OF inv lv2 out2]
          show ?thesis
          proof (rule buyTraceI)
            fix a
            from buyTrace_imm [OF tr, of a] imm2
            show "lo_p (pool s' a) = lo_p (pool s a) \<and>
                lo_expirationTime (pool s' a) = lo_expirationTime (pool s a) \<and>
                lo_user (pool s' a) = lo_user (pool s a)"
              by simp
          next
            from buyTrace_free [OF tr] f0
            show "set (freeLimitOrders s) \<subseteq> set (freeLimitOrders s')" by (rule order_trans [rotated])
          next
            fix r assume r: "ask s' < r"
            from pa r have "p < r" by (rule less_trans)
            then have "r \<noteq> p" by simp
            with buyTrace_above [OF tr pos' r] hd
            show "limitOrderHead s' r = limitOrderHead s r" by simp
          next
            fix a assume h: "\<forall>r. p \<le> r \<and> r \<le> ask s' \<longrightarrow> a \<notin> set (liveAt s lv t r)"
            from pa have "p \<le> ask s'" by simp
            with h have "a \<notin> set ?live" by simp
            with out have a2: "pool s2 a = pool s a" by simp
            have "\<forall>r. p + 1 \<le> r \<and> r \<le> ask s' \<longrightarrow> a \<notin> set (liveAt s2 lv2 t r)"
            proof (intro allI impI)
              fix r assume c: "p + 1 \<le> r \<and> r \<le> ask s'"
              with psucc have pr: "p < r" by (simp add: less_le_trans)
              then have "r \<noteq> p" "p \<le> r" by simp_all
              with h c fra(1) [of r t] show "a \<notin> set (liveAt s2 lv2 t r)" by simp
            qed
            from buyTrace_pool [OF tr pos' this] a2 show "pool s' a = pool s a" by simp
          next
            fix r a assume c: "p \<le> r" "r \<le> ask s'" "a \<in> set (lv r)" "expired s t a"
            show "a \<in> set (freeLimitOrders s')"
            proof (cases "r = p")
              case True
              with c(3,4) dead have "a \<in> set (freeLimitOrders s2)" by simp
              with buyTrace_free [OF tr] show ?thesis by blast
            next
              case False
              with c(1) have "p < r" by simp
              then have pr: "p + 1 \<le> r" by (rule word_succ_le)
              from False c(3) lv2 have m: "a \<in> set (lv2 r)" by simp
              from c(4) have x: "expired s2 t a" by (simp add: ex2)
              from buyTrace_swept [OF tr pos' pr c(2) m x] show ?thesis .
            qed
          next
            from buyTrace_qty [OF tr pos']
            have q1: "qtyBetween s2 lv2 t (p + 1) (ask s') < unat sz'"
              and q2: "unat sz' \<le> qtyBetween s2 lv2 t (p + 1) (ask s') +
                  liveQty s2 lv2 t (ask s')" by simp_all
            have e1: "qtyBetween s2 lv2 t (p + 1) (ask s') = qtyBetween s lv t (p + 1) (ask s')"
              by (rule qtyBetween_frame [OF inv lv2 out2 psucc])
            have e2: "liveQty s2 lv2 t (ask s') = liveQty s lv t (ask s')"
              by (rule fra(2) [OF ap])
            from q1 q2 big remn' show "qtyBetween s lv t p (ask s') < unat sz \<and>
                unat sz \<le> qtyBetween s lv t p (ask s') + liveQty s lv t (ask s')"
              unfolding e1 e2 qtyBetween_step [OF pa] by arith
          next
            from buyTrace_level [OF tr pos'] fra(1) [OF ap, of t]
            show "\<exists>k. level s' (ask s') (drop k (liveAt s lv t (ask s')))" by simp
          next
            assume H: "\<forall>r a. a \<in> set (lv r) \<and> lo_user (pool s a) \<longrightarrow> expired s t a"
            have "\<forall>r a. a \<in> set (lv2 r) \<and> lo_user (pool s2 a) \<longrightarrow> expired s2 t a"
            proof (intro allI impI)
              fix r a assume c: "a \<in> set (lv2 r) \<and> lo_user (pool s2 a)"
              have "set (drop ?k ?live) \<subseteq> set ?live" by (rule set_drop_subset)
              with sub c lv2 lv2p have "a \<in> set (lv r)" by (cases "r = p") auto
              moreover from c imm2 have "lo_user (pool s a)" by simp
              ultimately show "expired s2 t a" using H by (simp add: ex2)
            qed
            from buyTrace_ledger [OF tr this] nouser [OF H] led
            show "balance s' = balance s \<and> sharesOpen s' = sharesOpen s \<and>
                userLimitOrders s' = userLimitOrders s"
              by simp
          qed
        qed
      qed
    qed
  qed
qed

lemma sellTraceI:
  assumes "\<And>a. lo_p (pool s' a) = lo_p (pool s a) \<and>
          lo_expirationTime (pool s' a) = lo_expirationTime (pool s a) \<and>
          lo_user (pool s' a) = lo_user (pool s a)"
    and "set (freeLimitOrders s) \<subseteq> set (freeLimitOrders s')"
    and "\<And>r. 0 < sz \<Longrightarrow> r < bid s' \<Longrightarrow> limitOrderHead s' r = limitOrderHead s r"
    and "\<And>a. 0 < sz \<Longrightarrow> \<forall>r. bid s' \<le> r \<and> r \<le> p \<longrightarrow> a \<notin> set (liveAt s lv t r) \<Longrightarrow>
           pool s' a = pool s a"
    and "\<And>r a. 0 < sz \<Longrightarrow> bid s' \<le> r \<Longrightarrow> r \<le> p \<Longrightarrow> a \<in> set (lv r) \<Longrightarrow> expired s t a \<Longrightarrow>
           a \<in> set (freeLimitOrders s')"
    and "0 < sz \<Longrightarrow> qtyDownTo s lv t p (bid s') < unat sz \<and>
           unat sz \<le> qtyDownTo s lv t p (bid s') + liveQty s lv t (bid s')"
    and "0 < sz \<Longrightarrow> \<exists>k. level s' (bid s') (drop k (liveAt s lv t (bid s')))"
    and "\<forall>r a. a \<in> set (lv r) \<and> lo_user (pool s a) \<longrightarrow> expired s t a \<Longrightarrow>
           balance s' = balance s \<and> sharesOpen s' = sharesOpen s \<and>
           userLimitOrders s' = userLimitOrders s"
  shows "sellTrace lv t p sz s s'"
  unfolding sellTrace_def using assms by (intro conjI allI impI; blast)

lemma sellTrace_imm:
  "sellTrace lv t p sz s s' \<Longrightarrow> lo_p (pool s' a) = lo_p (pool s a) \<and>
     lo_expirationTime (pool s' a) = lo_expirationTime (pool s a) \<and>
     lo_user (pool s' a) = lo_user (pool s a)"
  by (simp add: sellTrace_def)

lemma sellTrace_free:
  "sellTrace lv t p sz s s' \<Longrightarrow> set (freeLimitOrders s) \<subseteq> set (freeLimitOrders s')"
  by (simp add: sellTrace_def)

lemma sellTrace_below:
  "sellTrace lv t p sz s s' \<Longrightarrow> 0 < sz \<Longrightarrow> r < bid s' \<Longrightarrow>
   limitOrderHead s' r = limitOrderHead s r"
  by (simp add: sellTrace_def)

lemma sellTrace_pool:
  "sellTrace lv t p sz s s' \<Longrightarrow> 0 < sz \<Longrightarrow>
   \<forall>r. bid s' \<le> r \<and> r \<le> p \<longrightarrow> a \<notin> set (liveAt s lv t r) \<Longrightarrow> pool s' a = pool s a"
  by (simp add: sellTrace_def)

lemma sellTrace_swept:
  "sellTrace lv t p sz s s' \<Longrightarrow> 0 < sz \<Longrightarrow> bid s' \<le> r \<Longrightarrow> r \<le> p \<Longrightarrow> a \<in> set (lv r) \<Longrightarrow>
   expired s t a \<Longrightarrow> a \<in> set (freeLimitOrders s')"
  unfolding sellTrace_def by blast

lemma sellTrace_qty:
  "sellTrace lv t p sz s s' \<Longrightarrow> 0 < sz \<Longrightarrow>
   qtyDownTo s lv t p (bid s') < unat sz \<and>
   unat sz \<le> qtyDownTo s lv t p (bid s') + liveQty s lv t (bid s')"
  by (simp add: sellTrace_def)

lemma sellTrace_level:
  "sellTrace lv t p sz s s' \<Longrightarrow> 0 < sz \<Longrightarrow>
   \<exists>k. level s' (bid s') (drop k (liveAt s lv t (bid s')))"
  by (simp add: sellTrace_def)

lemma sellTrace_ledger:
  "sellTrace lv t p sz s s' \<Longrightarrow>
   \<forall>r a. a \<in> set (lv r) \<and> lo_user (pool s a) \<longrightarrow> expired s t a \<Longrightarrow>
   balance s' = balance s \<and> sharesOpen s' = sharesOpen s \<and>
   userLimitOrders s' = userLimitOrders s"
  by (simp add: sellTrace_def)

lemma marketSell_loop_trace:
  "slotInv n s lv \<Longrightarrow> marketSell_loop p t sz ou s = Some (Inr (ou', s')) \<Longrightarrow>
   sellTrace lv t p sz s s'"
proof (induction p t sz ou s arbitrary: lv rule: marketSell_loop.induct)
  case (1 p t sz ou s)
  note inv = "1.prems"(1) and res = "1.prems"(2)
  from marketSell_loop_inv [OF inv, of p t sz ou] res
  have post: "sellPost n lv t p sz ou s ou' s'" by auto
  show ?case
  proof (cases "0 < sz")
    case False
    then have z: "sz = 0" using word_neq_0_conv by blast
    from sellPost_zero [OF post z] have e: "s' = s" .
    show ?thesis by (rule sellTraceI) (simp_all add: e z)
  next
    case pos: True
    then have upos: "0 < unat sz" by (simp add: word_less_nat_alt)
    show ?thesis
    proof (cases "p = UINT_MAX")
      case True
      with pos have "marketSell_loop p t sz ou s = Some (Inl FilledAllBuyLimitOrders)"
        by (subst marketSell_loop.simps) simp
      with res show ?thesis by simp
    next
      case nmax: False
      show ?thesis
      proof (cases "NUM_PRICES \<le> p")
        case True
        with pos nmax have "marketSell_loop p t sz ou s = Some (Inl OutOfBounds)"
          by (subst marketSell_loop.simps) simp
        with res show ?thesis by simp
      next
        case inr: False
        then have p: "p < NUM_PRICES" by (simp add: not_le)
        have stop: "marketSell_loop (p - 1) t sz'' ou'' s'' = Some (Inl FilledAllBuyLimitOrders)"
          if "p = 0" "0 < sz''" for sz'' ou'' s''
          using that by (subst marketSell_loop.simps) (simp add: UINT_MAX_def)
        show ?thesis
        proof (cases "limitOrderHead s p")
          case None
          with inv have e: "lv p = []"
            by (auto dest: slotInv_level [of _ _ _ p] simp: level_def)
          have step: "marketSell_loop p t sz ou s = marketSell_loop (p - 1) t sz ou s"
            using pos nmax inr None by (subst marketSell_loop.simps) simp
          with res have res1: "marketSell_loop (p - 1) t sz ou s = Some (Inr (ou', s'))" by simp
          have pne: "p \<noteq> 0"
          proof
            assume "p = 0"
            from stop [OF this pos, of ou s] res1 show False by simp
          qed
          then have ppred: "p - 1 < p" by (rule word_pred_lt)
          from "1.IH"(1) [OF pos nmax inr None inv res1]
          have tr: "sellTrace lv t (p - 1) sz s s'" .
          from marketSell_loop_inv [OF inv, of "p - 1" t sz ou] res1
          have post1: "sellPost n lv t (p - 1) sz ou s ou' s'" by auto
          from sellPost_bid [OF post1 pos] have "bid s' \<le> p - 1" by simp
          from this ppred have pa: "bid s' < p" by (rule le_less_trans)
          have l0: "liveQty s lv t p = 0" by (simp add: liveQty_def liveAt_def e)
          show ?thesis
          proof (rule sellTraceI)
            fix a
            show "lo_p (pool s' a) = lo_p (pool s a) \<and>
                lo_expirationTime (pool s' a) = lo_expirationTime (pool s a) \<and>
                lo_user (pool s' a) = lo_user (pool s a)"
              by (rule sellTrace_imm [OF tr])
          next
            show "set (freeLimitOrders s) \<subseteq> set (freeLimitOrders s')"
              by (rule sellTrace_free [OF tr])
          next
            fix r assume "r < bid s'"
            then show "limitOrderHead s' r = limitOrderHead s r"
              by (rule sellTrace_below [OF tr pos])
          next
            fix a assume h: "\<forall>r. bid s' \<le> r \<and> r \<le> p \<longrightarrow> a \<notin> set (liveAt s lv t r)"
            have "\<forall>r. bid s' \<le> r \<and> r \<le> p - 1 \<longrightarrow> a \<notin> set (liveAt s lv t r)"
            proof (intro allI impI)
              fix r assume c: "bid s' \<le> r \<and> r \<le> p - 1"
              then have "r \<le> p - 1" by simp
              from this ppred have "r < p" by (rule le_less_trans)
              then have "r \<le> p" by simp
              with h c show "a \<notin> set (liveAt s lv t r)" by simp
            qed
            then show "pool s' a = pool s a" by (rule sellTrace_pool [OF tr pos])
          next
            fix r a assume c: "bid s' \<le> r" "r \<le> p" "a \<in> set (lv r)" "expired s t a"
            from c(3) e have "r \<noteq> p" by auto
            with c(2) have "r < p" by simp
            then have "r \<le> p - 1" by (rule word_le_pred)
            from sellTrace_swept [OF tr pos c(1) this c(3) c(4)]
            show "a \<in> set (freeLimitOrders s')" .
          next
            from sellTrace_qty [OF tr pos] qtyDownTo_step [OF pa, of s lv t] l0
            show "qtyDownTo s lv t p (bid s') < unat sz \<and>
                unat sz \<le> qtyDownTo s lv t p (bid s') + liveQty s lv t (bid s')"
              by simp
          next
            show "\<exists>k. level s' (bid s') (drop k (liveAt s lv t (bid s')))"
              by (rule sellTrace_level [OF tr pos])
          next
            assume "\<forall>r a. a \<in> set (lv r) \<and> lo_user (pool s a) \<longrightarrow> expired s t a"
            then show "balance s' = balance s \<and> sharesOpen s' = sharesOpen s \<and>
                userLimitOrders s' = userLimitOrders s"
              by (rule sellTrace_ledger [OF tr])
          qed
        next
          case (Some c)
          then have ne: "limitOrderHead s p \<noteq> None" by simp
          let ?live = "liveAt s lv t p"
          let ?k = "fullCount sz (sizes s ?live)"
          let ?lv2 = "lv(p := drop ?k ?live)"
          from level_step2_bid [OF inv p, of t sz ou True] obtain s1 sz' ou1 s2 where
            r1: "updateLimitOrders p t (s\<lparr>bid := p\<rparr>) = Some (Inr s1)"
            and r2: "fillOrders p sz ou True s1 = Some (Inr (sz', ou1, s2))"
            and inv2: "slotInv n s2 ?lv2"
            and hd: "\<forall>q. q \<noteq> p \<longrightarrow> limitOrderHead s2 q = limitOrderHead s q"
            and out: "\<forall>a. a \<notin> set ?live \<longrightarrow> pool s2 a = pool s a"
            and imm2: "\<forall>a. lo_p (pool s2 a) = lo_p (pool s a) \<and>
                lo_expirationTime (pool s2 a) = lo_expirationTime (pool s a) \<and>
                lo_user (pool s2 a) = lo_user (pool s a)"
            and rem: "sz' = sz - quantity32 (takenAt sz (resting s t p (lv p)))"
            and fr: "freeLimitOrders s2 =
                rev (take ?k ?live) @ rev (filter (expired s t) (lv p)) @ freeLimitOrders s"
            and bid2: "bid s2 = p"
            and led: "(\<forall>a \<in> set ?live. \<not> lo_user (pool s a)) \<longrightarrow>
                balance s2 = balance s \<and> sharesOpen s2 = sharesOpen s \<and>
                userLimitOrders s2 = userLimitOrders s"
            by blast
          define lv2 where "lv2 = ?lv2"
          from inv2 have inv2': "slotInv n s2 lv2" unfolding lv2_def .
          have lv2p: "lv2 p = drop ?k ?live" by (simp add: lv2_def)
          have step: "marketSell_loop p t sz ou s = marketSell_loop (p - 1) t sz' ou1 s2"
            using pos nmax inr Some r1 r2 by (subst marketSell_loop.simps) simp
          with res have res2: "marketSell_loop (p - 1) t sz' ou1 s2 = Some (Inr (ou', s'))"
            by simp
          from "1.IH"(2) [OF pos nmax inr ne r1 refl r2 refl refl refl inv2' res2]
          have tr: "sellTrace lv2 t (p - 1) sz' s2 s'" .
          from marketSell_loop_inv [OF inv2', of "p - 1" t sz' ou1] res2
          have post2: "sellPost n lv2 t (p - 1) sz' ou1 s2 ou' s'" by auto
          have lv2: "\<forall>q. q \<noteq> p \<longrightarrow> lv2 q = lv q" by (simp add: lv2_def)
          have sub: "set ?live \<subseteq> set (lv p)" by (auto simp: liveAt_def)
          from out sub have out2: "\<forall>a. a \<notin> set (lv p) \<longrightarrow> pool s2 a = pool s a" by auto
          have ex2: "\<And>a. expired s2 t a = expired s t a"
            using imm2 by (simp add: expired_def)
          have f0: "set (freeLimitOrders s) \<subseteq> set (freeLimitOrders s2)"
            by (auto simp: fr)
          have dead: "\<And>a. a \<in> set (lv p) \<Longrightarrow> expired s t a \<Longrightarrow> a \<in> set (freeLimitOrders s2)"
            by (simp add: fr)
          from remaining_nat [of sz' sz s t p lv, OF rem]
          have remn: "unat sz' = unat sz - min (unat sz) (liveQty s lv t p)" .
          have nouser: "\<forall>a \<in> set ?live. \<not> lo_user (pool s a)"
            if H: "\<forall>r a. a \<in> set (lv r) \<and> lo_user (pool s a) \<longrightarrow> expired s t a"
          proof
            fix a assume a: "a \<in> set ?live"
            then have "a \<in> set (lv p)" "\<not> expired s t a" by (simp_all add: liveAt_def)
            with H show "\<not> lo_user (pool s a)" by blast
          qed
          show ?thesis
          proof (cases "sz' = 0")
            case True
            from sellPost_zero [OF post2 True] have e: "s' = s2" .
            from bid2 e have a': "bid s' = p" by simp
            show ?thesis
            proof (rule sellTraceI)
              fix a
              show "lo_p (pool s' a) = lo_p (pool s a) \<and>
                  lo_expirationTime (pool s' a) = lo_expirationTime (pool s a) \<and>
                  lo_user (pool s' a) = lo_user (pool s a)"
                using imm2 by (simp add: e)
            next
              show "set (freeLimitOrders s) \<subseteq> set (freeLimitOrders s')"
                using f0 by (simp add: e)
            next
              fix r assume "r < bid s'"
              then have "r \<noteq> p" by (simp add: a')
              with hd show "limitOrderHead s' r = limitOrderHead s r" by (simp add: e)
            next
              fix a assume "\<forall>r. bid s' \<le> r \<and> r \<le> p \<longrightarrow> a \<notin> set (liveAt s lv t r)"
              then have "a \<notin> set ?live" by (simp add: a')
              with out show "pool s' a = pool s a" by (simp add: e)
            next
              fix r a assume c: "bid s' \<le> r" "r \<le> p" "a \<in> set (lv r)" "expired s t a"
              from c(1,2) have "r = p" by (simp add: a')
              with c(3,4) dead show "a \<in> set (freeLimitOrders s')" by (simp add: e)
            next
              from remn True have "unat sz \<le> liveQty s lv t p" by simp
              with upos show "qtyDownTo s lv t p (bid s') < unat sz \<and>
                  unat sz \<le> qtyDownTo s lv t p (bid s') + liveQty s lv t (bid s')"
                by (simp add: a')
            next
              from inv2' have "level s2 p (lv2 p)" by (rule slotInv_level)
              then have "level s' (bid s') (drop ?k (liveAt s lv t (bid s')))"
                by (simp add: e bid2 lv2p)
              then show "\<exists>k. level s' (bid s') (drop k (liveAt s lv t (bid s')))" by blast
            next
              assume "\<forall>r a. a \<in> set (lv r) \<and> lo_user (pool s a) \<longrightarrow> expired s t a"
              from nouser [OF this] led
              show "balance s' = balance s \<and> sharesOpen s' = sharesOpen s \<and>
                  userLimitOrders s' = userLimitOrders s"
                by (simp add: e)
            qed
          next
            case False
            then have pos': "0 < sz'" using word_neq_0_conv by blast
            have pne: "p \<noteq> 0"
            proof
              assume "p = 0"
              from stop [OF this pos', of ou1 s2] res2 show False by simp
            qed
            then have ppred: "p - 1 < p" by (rule word_pred_lt)
            from sellPost_bid [OF post2 pos'] have "bid s' \<le> p - 1" by simp
            from this ppred have pa: "bid s' < p" by (rule le_less_trans)
            then have ap: "bid s' \<noteq> p" by simp
            from False have "unat sz' \<noteq> 0" by (simp add: unat_eq_0)
            with remn have big: "liveQty s lv t p < unat sz"
              and remn': "unat sz' = unat sz - liveQty s lv t p"
              by (simp_all add: min_def split: if_splits)
            note fra = live_frame [OF inv lv2 out2]
            show ?thesis
            proof (rule sellTraceI)
              fix a
              from sellTrace_imm [OF tr, of a] imm2
              show "lo_p (pool s' a) = lo_p (pool s a) \<and>
                  lo_expirationTime (pool s' a) = lo_expirationTime (pool s a) \<and>
                  lo_user (pool s' a) = lo_user (pool s a)"
                by simp
            next
              from sellTrace_free [OF tr] f0
              show "set (freeLimitOrders s) \<subseteq> set (freeLimitOrders s')"
                by (rule order_trans [rotated])
            next
              fix r assume r: "r < bid s'"
              from r pa have "r < p" by (rule less_trans)
              then have "r \<noteq> p" by simp
              with sellTrace_below [OF tr pos' r] hd
              show "limitOrderHead s' r = limitOrderHead s r" by simp
            next
              fix a assume h: "\<forall>r. bid s' \<le> r \<and> r \<le> p \<longrightarrow> a \<notin> set (liveAt s lv t r)"
              from pa have "bid s' \<le> p" by simp
              with h have "a \<notin> set ?live" by simp
              with out have a2: "pool s2 a = pool s a" by simp
              have "\<forall>r. bid s' \<le> r \<and> r \<le> p - 1 \<longrightarrow> a \<notin> set (liveAt s2 lv2 t r)"
              proof (intro allI impI)
                fix r assume c: "bid s' \<le> r \<and> r \<le> p - 1"
                then have "r \<le> p - 1" by simp
                from this ppred have pr: "r < p" by (rule le_less_trans)
                then have "r \<noteq> p" "r \<le> p" by simp_all
                with h c fra(1) [of r t] show "a \<notin> set (liveAt s2 lv2 t r)" by simp
              qed
              from sellTrace_pool [OF tr pos' this] a2 show "pool s' a = pool s a" by simp
            next
              fix r a assume c: "bid s' \<le> r" "r \<le> p" "a \<in> set (lv r)" "expired s t a"
              show "a \<in> set (freeLimitOrders s')"
              proof (cases "r = p")
                case True
                with c(3,4) dead have "a \<in> set (freeLimitOrders s2)" by simp
                with sellTrace_free [OF tr] show ?thesis by blast
              next
                case False
                with c(2) have "r < p" by simp
                then have pr: "r \<le> p - 1" by (rule word_le_pred)
                from False c(3) lv2 have m: "a \<in> set (lv2 r)" by simp
                from c(4) have x: "expired s2 t a" by (simp add: ex2)
                from sellTrace_swept [OF tr pos' c(1) pr m x] show ?thesis .
              qed
            next
              from sellTrace_qty [OF tr pos']
              have q1: "qtyDownTo s2 lv2 t (p - 1) (bid s') < unat sz'"
                and q2: "unat sz' \<le> qtyDownTo s2 lv2 t (p - 1) (bid s') +
                    liveQty s2 lv2 t (bid s')" by simp_all
              have e1: "qtyDownTo s2 lv2 t (p - 1) (bid s') = qtyDownTo s lv t (p - 1) (bid s')"
                by (rule qtyDownTo_frame [OF inv lv2 out2 ppred])
              have e2: "liveQty s2 lv2 t (bid s') = liveQty s lv t (bid s')"
                by (rule fra(2) [OF ap])
              from q1 q2 big remn' show "qtyDownTo s lv t p (bid s') < unat sz \<and>
                  unat sz \<le> qtyDownTo s lv t p (bid s') + liveQty s lv t (bid s')"
                unfolding e1 e2 qtyDownTo_step [OF pa] by arith
            next
              from sellTrace_level [OF tr pos'] fra(1) [OF ap, of t]
              show "\<exists>k. level s' (bid s') (drop k (liveAt s lv t (bid s')))" by simp
            next
              assume H: "\<forall>r a. a \<in> set (lv r) \<and> lo_user (pool s a) \<longrightarrow> expired s t a"
              have "\<forall>r a. a \<in> set (lv2 r) \<and> lo_user (pool s2 a) \<longrightarrow> expired s2 t a"
              proof (intro allI impI)
                fix r a assume c: "a \<in> set (lv2 r) \<and> lo_user (pool s2 a)"
                have "set (drop ?k ?live) \<subseteq> set ?live" by (rule set_drop_subset)
                with sub c lv2 lv2p have "a \<in> set (lv r)" by (cases "r = p") auto
                moreover from c imm2 have "lo_user (pool s a)" by simp
                ultimately show "expired s2 t a" using H by (simp add: ex2)
              qed
              from sellTrace_ledger [OF tr this] nouser [OF H] led
              show "balance s' = balance s \<and> sharesOpen s' = sharesOpen s \<and>
                  userLimitOrders s' = userLimitOrders s"
                by simp
            qed
          qed
        qed
      qed
    qed
  qed
qed

lemma qtyBetween_mono:
  "p \<le> q1 \<Longrightarrow> q1 < q2 \<Longrightarrow>
   qtyBetween s lv t p q1 + liveQty s lv t q1 \<le> qtyBetween s lv t p q2"
proof (induction p q2 rule: pricesBetween.induct)
  case (1 p q2)
  from "1.prems" have pq2: "p < q2" by (rule le_less_trans)
  show ?case
  proof (cases "p = q1")
    case True
    with qtyBetween_step [OF pq2, of s lv t] show ?thesis by simp
  next
    case False
    with "1.prems"(1) have lt: "p < q1" by simp
    then have "p + 1 \<le> q1" by (rule word_succ_le)
    from "1.IH" [OF pq2 this "1.prems"(2)]
    show ?thesis by (simp add: qtyBetween_step [OF pq2] qtyBetween_step [OF lt])
  qed
qed

lemma qtyDownTo_mono:
  "q1 \<le> p \<Longrightarrow> q2 < q1 \<Longrightarrow>
   qtyDownTo s lv t p q1 + liveQty s lv t q1 \<le> qtyDownTo s lv t p q2"
proof (induction p q2 rule: pricesDownTo.induct)
  case (1 p q2)
  from "1.prems"(2,1) have pq2: "q2 < p" by (rule less_le_trans)
  show ?case
  proof (cases "p = q1")
    case True
    with qtyDownTo_step [OF pq2, of s lv t] show ?thesis by simp
  next
    case False
    with "1.prems"(1) have lt: "q1 < p" by simp
    then have "q1 \<le> p - 1" by (rule word_le_pred)
    from "1.IH" [OF pq2 this "1.prems"(2)]
    show ?thesis by (simp add: qtyDownTo_step [OF pq2] qtyDownTo_step [OF lt])
  qed
qed

lemma stop_price_up_unique:
  assumes a: "p \<le> q" "qtyBetween s lv t p q < S" "S \<le> qtyBetween s lv t p q + liveQty s lv t q"
    and b: "p \<le> q'" "qtyBetween s lv t p q' < S"
      "S \<le> qtyBetween s lv t p q' + liveQty s lv t q'"
  shows "q' = q"
proof (rule ccontr)
  assume "q' \<noteq> q"
  then consider "q' < q" | "q < q'" by (auto simp: neq_iff)
  then show False
  proof cases
    case 1
    from qtyBetween_mono [OF b(1) 1, of s lv t] a(2) b(3) show False by simp
  next
    case 2
    from qtyBetween_mono [OF a(1) 2, of s lv t] b(2) a(3) show False by simp
  qed
qed

lemma stop_price_down_unique:
  assumes a: "q \<le> p" "qtyDownTo s lv t p q < S" "S \<le> qtyDownTo s lv t p q + liveQty s lv t q"
    and b: "q' \<le> p" "qtyDownTo s lv t p q' < S"
      "S \<le> qtyDownTo s lv t p q' + liveQty s lv t q'"
  shows "q' = q"
proof (rule ccontr)
  assume "q' \<noteq> q"
  then consider "q' < q" | "q < q'" by (auto simp: neq_iff)
  then show False
  proof cases
    case 1
    from qtyDownTo_mono [OF a(1) 1, of s lv t] b(2) a(3) show False by simp
  next
    case 2
    from qtyDownTo_mono [OF b(1) 2, of s lv t] a(2) b(3) show False by simp
  qed
qed

lemma single_order_refresh:
  assumes inv: "slotInv n s lv" and pa: "ask s < NUM_PRICES" and lvp: "lv (ask s) = [a]"
    and sz: "lo_size (pool s a) = sz" and pos: "0 < sz"
    and fresh: "t < lo_expirationTime (pool s a)"
    and bidl: "bid s < ask s" "limitOrderHead s (bid s) \<noteq> None"
    and nxt: "ask s < q" "q < NUM_PRICES" "limitOrderHead s q \<noteq> None"
      "\<forall>r. ask s < r \<and> r < q \<longrightarrow> limitOrderHead s r = None"
  shows "\<exists>s'. marketBuy sz t s = Some (Inr (sz * ask s, s')) \<and>
        limitOrderHead s' (ask s) = None \<and> freeLimitOrders s' = a # freeLimitOrders s \<and>
        ask s' = ask s \<and> updateBidAndAsk s' = Inr (s'\<lparr>ask := q\<rparr>)"
proof -
  from single_order_buy [OF inv pa lvp sz pos fresh] obtain s' where
    r: "marketBuy sz t s = Some (Inr (sz * ask s, s'))"
    and a': "ask s' = ask s" and b': "bid s' = bid s"
    and e': "limitOrderHead s' (ask s) = None"
    and f': "freeLimitOrders s' = a # freeLimitOrders s"
    and h': "\<forall>q. q \<noteq> ask s \<longrightarrow> limitOrderHead s' q = limitOrderHead s q"
    by blast
  from bidl(1) have ne: "bid s \<noteq> ask s" by simp
  from bidl(1) pa have "bid s' < NUM_PRICES" by (simp add: b')
  moreover from h' ne bidl(2) have "limitOrderHead s' (bid s') \<noteq> None" by (simp add: b')
  ultimately have ub: "updateBid s' = Inr s'" by (rule updateBid_same)
  have "ask s' \<le> q" using nxt(1) a' by simp
  moreover from h' nxt(1,3) have "limitOrderHead s' q \<noteq> None" by simp
  moreover have "\<forall>r. ask s' \<le> r \<and> r < q \<longrightarrow> limitOrderHead s' r = None"
  proof (intro allI impI)
    fix r assume c: "ask s' \<le> r \<and> r < q"
    show "limitOrderHead s' r = None"
    proof (cases "r = ask s")
      case True
      with e' show ?thesis by simp
    next
      case False
      from c a' have "ask s \<le> r" by simp
      moreover from False have "ask s \<noteq> r" by simp
      ultimately have "ask s < r" by (rule order_le_neq_trans)
      with nxt(4) c h' False show ?thesis by simp
    qed
  qed
  ultimately have "updateAsk s' = Inr (s'\<lparr>ask := q\<rparr>)" using nxt(2) by (intro updateAsk_next)
  with ub have "updateBidAndAsk s' = Inr (s'\<lparr>ask := q\<rparr>)" by (simp add: updateBidAndAsk_def)
  with r e' f' a' show ?thesis by blast
qed

lemma marketBuy_trace:
  assumes inv: "slotInv n s lv" and res: "marketBuy S t s = Some (Inr (ou, s'))" and pos: "0 < S"
  shows "ask s \<le> ask s' \<and> ask s' < NUM_PRICES \<and> limitOrderHead s (ask s') \<noteq> None \<and>
     qtyBetween s lv t (ask s) (ask s') < unat S \<and>
     unat S \<le> qtyBetween s lv t (ask s) (ask s') + liveQty s lv t (ask s') \<and>
     (\<forall>r. ask s \<le> r \<and> r < ask s' \<longrightarrow> limitOrderHead s' r = None) \<and>
     (\<exists>k. level s' (ask s') (drop k (liveAt s lv t (ask s')))) \<and>
     (\<forall>r. r < ask s \<or> ask s' < r \<longrightarrow>
        limitOrderHead s' r = limitOrderHead s r \<and> (\<forall>a \<in> set (lv r). pool s' a = pool s a)) \<and>
     bid s' = bid s \<and>
     (\<forall>q. ask s \<le> q \<and> qtyBetween s lv t (ask s) q < unat S \<and>
          unat S \<le> qtyBetween s lv t (ask s) q + liveQty s lv t q \<longrightarrow> q = ask s')"
proof -
  from res have res': "marketBuy_loop (ask s) t S 0 s = Some (Inr (ou, s'))"
    by (simp add: marketBuy_def)
  from marketBuy_loop_inv [OF inv, of "ask s" t S 0] res'
  have post: "buyPost n lv t (ask s) S 0 s ou s'" by auto
  from marketBuy_loop_trace [OF inv res'] have tr: "buyTrace lv t (ask s) S s s'" .
  from buyPost_ask [OF post pos]
  have a: "ask s \<le> ask s'" "ask s' < NUM_PRICES" "limitOrderHead s (ask s') \<noteq> None"
    by simp_all
  have out: "limitOrderHead s' r = limitOrderHead s r \<and> (\<forall>a \<in> set (lv r). pool s' a = pool s a)"
    if r: "r < ask s \<or> ask s' < r" for r
  proof
    from r show "limitOrderHead s' r = limitOrderHead s r"
    proof
      assume "r < ask s"
      then show ?thesis by (rule buyPost_below [OF post])
    next
      assume "ask s' < r"
      then show ?thesis by (rule buyTrace_above [OF tr pos])
    qed
    show "\<forall>a \<in> set (lv r). pool s' a = pool s a"
    proof
      fix b assume b: "b \<in> set (lv r)"
      have "\<forall>q. ask s \<le> q \<and> q \<le> ask s' \<longrightarrow> b \<notin> set (liveAt s lv t q)"
      proof (intro allI impI)
        fix q assume q: "ask s \<le> q \<and> q \<le> ask s'"
        with r have "q \<noteq> r" by auto
        with inv have "set (lv q) \<inter> set (lv r) = {}" by (simp add: slotInv_def)
        with b have "b \<notin> set (lv q)" by auto
        then show "b \<notin> set (liveAt s lv t q)" by (simp add: liveAt_def)
      qed
      then show "pool s' b = pool s b" by (rule buyTrace_pool [OF tr pos])
    qed
  qed
  have emp: "\<forall>r. ask s \<le> r \<and> r < ask s' \<longrightarrow> limitOrderHead s' r = None"
    using buyPost_emptied [OF post pos] by blast
  from buyTrace_qty [OF tr pos]
  have q1: "qtyBetween s lv t (ask s) (ask s') < unat S"
    and q2: "unat S \<le> qtyBetween s lv t (ask s) (ask s') + liveQty s lv t (ask s')"
    by simp_all
  have uniq: "\<forall>q. ask s \<le> q \<and> qtyBetween s lv t (ask s) q < unat S \<and>
          unat S \<le> qtyBetween s lv t (ask s) q + liveQty s lv t q \<longrightarrow> q = ask s'"
    using stop_price_up_unique [OF a(1) q1 q2] by blast
  from a q1 q2 emp buyTrace_level [OF tr pos] out buyPost_bid [OF post] uniq
  show ?thesis by blast
qed

lemma marketSell_trace:
  assumes inv: "slotInv n s lv" and res: "marketSell S t s = Some (Inr (ou, s'))" and pos: "0 < S"
  shows "bid s' \<le> bid s \<and> bid s' < NUM_PRICES \<and> limitOrderHead s (bid s') \<noteq> None \<and>
     qtyDownTo s lv t (bid s) (bid s') < unat S \<and>
     unat S \<le> qtyDownTo s lv t (bid s) (bid s') + liveQty s lv t (bid s') \<and>
     (\<forall>r. bid s' < r \<and> r \<le> bid s \<longrightarrow> limitOrderHead s' r = None) \<and>
     (\<exists>k. level s' (bid s') (drop k (liveAt s lv t (bid s')))) \<and>
     (\<forall>r. r < bid s' \<or> bid s < r \<longrightarrow>
        limitOrderHead s' r = limitOrderHead s r \<and> (\<forall>a \<in> set (lv r). pool s' a = pool s a)) \<and>
     ask s' = ask s \<and>
     (\<forall>q. q \<le> bid s \<and> qtyDownTo s lv t (bid s) q < unat S \<and>
          unat S \<le> qtyDownTo s lv t (bid s) q + liveQty s lv t q \<longrightarrow> q = bid s')"
proof -
  from res have res': "marketSell_loop (bid s) t S 0 s = Some (Inr (ou, s'))"
    by (simp add: marketSell_def)
  from marketSell_loop_inv [OF inv, of "bid s" t S 0] res'
  have post: "sellPost n lv t (bid s) S 0 s ou s'" by auto
  from marketSell_loop_trace [OF inv res'] have tr: "sellTrace lv t (bid s) S s s'" .
  from sellPost_bid [OF post pos]
  have a: "bid s' \<le> bid s" "bid s' < NUM_PRICES" "limitOrderHead s (bid s') \<noteq> None"
    by simp_all
  have out: "limitOrderHead s' r = limitOrderHead s r \<and> (\<forall>a \<in> set (lv r). pool s' a = pool s a)"
    if r: "r < bid s' \<or> bid s < r" for r
  proof
    from r show "limitOrderHead s' r = limitOrderHead s r"
    proof
      assume "r < bid s'"
      then show ?thesis by (rule sellTrace_below [OF tr pos])
    next
      assume "bid s < r"
      then show ?thesis by (rule sellPost_above [OF post])
    qed
    show "\<forall>a \<in> set (lv r). pool s' a = pool s a"
    proof
      fix b assume b: "b \<in> set (lv r)"
      have "\<forall>q. bid s' \<le> q \<and> q \<le> bid s \<longrightarrow> b \<notin> set (liveAt s lv t q)"
      proof (intro allI impI)
        fix q assume q: "bid s' \<le> q \<and> q \<le> bid s"
        with r have "q \<noteq> r" by auto
        with inv have "set (lv q) \<inter> set (lv r) = {}" by (simp add: slotInv_def)
        with b have "b \<notin> set (lv q)" by auto
        then show "b \<notin> set (liveAt s lv t q)" by (simp add: liveAt_def)
      qed
      then show "pool s' b = pool s b" by (rule sellTrace_pool [OF tr pos])
    qed
  qed
  have emp: "\<forall>r. bid s' < r \<and> r \<le> bid s \<longrightarrow> limitOrderHead s' r = None"
    using sellPost_emptied [OF post pos] by blast
  from sellTrace_qty [OF tr pos]
  have q1: "qtyDownTo s lv t (bid s) (bid s') < unat S"
    and q2: "unat S \<le> qtyDownTo s lv t (bid s) (bid s') + liveQty s lv t (bid s')"
    by simp_all
  have uniq: "\<forall>q. q \<le> bid s \<and> qtyDownTo s lv t (bid s) q < unat S \<and>
          unat S \<le> qtyDownTo s lv t (bid s) q + liveQty s lv t q \<longrightarrow> q = bid s'"
    using stop_price_down_unique [OF a(1) q1 q2] by blast
  from a q1 q2 emp sellTrace_level [OF tr pos] out sellPost_ask [OF post] uniq
  show ?thesis by blast
qed



lemma bookAsk_buy7_state:
  "\<exists>s'. marketBuy 7 10 bookAsk = Some (Inr (739, s')) \<and> ask s' = 107 \<and>
     limitOrderHead s' 105 = None \<and> limitOrderHead s' 107 = Some 1 \<and>
     lo_size (pool s' 1) = 2"
  by (simp add: bookAsk_def place_def book_eval upt_rec)

lemma bookAsk_qty:
  "qtyBetween bookAsk lvAsk 10 105 107 = 5" "liveQty bookAsk lvAsk 10 107 = 10"
  by (simp_all add: qtyBetween_def pricesBetween.simps liveQty_def liveAt_def lvAsk_def
      expired_def bookAsk_def place_def book_eval upt_rec)

section \<open>Market orders after the withdrawal\<close>

text \<open>
  After the withdrawal every order of the user that rests in a level has the expiration
  time 0, so it has expired at every time. A market order sweeps each level it visits
  before it fills it: the user's orders of these levels go to the free list unfilled,
  and the ledger is left as it is.
\<close>

lemma slotInv_withdraw:
  assumes "slotInv n s lv"
  shows "slotInv n (withdrawUserLimitOrders s) lv"
proof -
  from assms have "\<forall>p. level (withdrawUserLimitOrders s) p (lv p)"
    by (auto simp: slotInv_def intro: level_withdraw)
  with assms show ?thesis by (simp add: slotInv_def)
qed

lemma withdrawn_expired:
  assumes tracked: "\<forall>r a. a \<in> set (lv r) \<and> lo_user (pool s0 a) \<longrightarrow>
      a \<in> set (userLimitOrders s0) \<or> lo_expirationTime (pool s0 a) = 0"
  shows "\<forall>r a. a \<in> set (lv r) \<and> lo_user (pool (withdrawUserLimitOrders s0) a) \<longrightarrow>
      lo_expirationTime (pool (withdrawUserLimitOrders s0) a) = 0 \<and>
      expired (withdrawUserLimitOrders s0) t a"
proof (intro allI impI)
  fix r a
  assume c: "a \<in> set (lv r) \<and> lo_user (pool (withdrawUserLimitOrders s0) a)"
  then have u: "lo_user (pool s0 a)" by (simp add: pool_withdraw split: if_splits)
  with c tracked have "a \<in> set (userLimitOrders s0) \<or> lo_expirationTime (pool s0 a) = 0"
    by blast
  then have "lo_expirationTime (pool (withdrawUserLimitOrders s0) a) = 0"
    by (auto simp: pool_withdraw)
  then show "lo_expirationTime (pool (withdrawUserLimitOrders s0) a) = 0 \<and>
      expired (withdrawUserLimitOrders s0) t a"
    by (simp add: expired_def)
qed

lemma freed_not_resting:
  assumes inv: "slotInv n s lv" and fr: "a \<in> set (freeLimitOrders s)" and l: "level s q as"
  shows "a \<notin> set as"
proof -
  from inv have "level s q (lv q)" by (rule slotInv_level)
  with l have "as = lv q" unfolding level_def by (rule chain_unique)
  moreover from inv fr have "a \<notin> set (lv q)" by (auto simp: slotInv_def)
  ultimately show ?thesis by simp
qed

lemma marketSell_after_withdrawal:
  assumes inv: "slotInv n s0 lv"
    and tracked: "\<forall>r a. a \<in> set (lv r) \<and> lo_user (pool s0 a) \<longrightarrow>
      a \<in> set (userLimitOrders s0) \<or> lo_expirationTime (pool s0 a) = 0"
    and res: "marketSell S t (withdrawUserLimitOrders s0) = Some (Inr (ou, s'))"
  shows "balance s' = balance s0 \<and> sharesOpen s' = sharesOpen s0 \<and>
     userLimitOrders s' = [] \<and>
     (\<forall>r a. a \<in> set (lv r) \<and> lo_user (pool s0 a) \<longrightarrow>
        lo_size (pool s' a) = lo_size (pool s0 a) \<and>
        (0 < S \<and> bid s' \<le> r \<and> r \<le> bid s0 \<longrightarrow>
           a \<in> set (freeLimitOrders s') \<and> (\<forall>q as. level s' q as \<longrightarrow> a \<notin> set as)))"
proof -
  let ?s = "withdrawUserLimitOrders s0"
  from inv have invs: "slotInv n ?s lv" by (rule slotInv_withdraw)
  note ex = withdrawn_expired [OF tracked, of t]
  from ex have H: "\<forall>r a. a \<in> set (lv r) \<and> lo_user (pool ?s a) \<longrightarrow> expired ?s t a" by blast
  from res have res': "marketSell_loop (bid ?s) t S 0 ?s = Some (Inr (ou, s'))"
    by (simp add: marketSell_def)
  from marketSell_loop_inv [OF invs, of "bid ?s" t S 0] res'
  have post: "sellPost n lv t (bid ?s) S 0 ?s ou s'" by auto
  from marketSell_loop_trace [OF invs res'] have tr: "sellTrace lv t (bid ?s) S ?s s'" .
  from sellTrace_ledger [OF tr H]
  have led: "balance s' = balance s0" "sharesOpen s' = sharesOpen s0" "userLimitOrders s' = []"
    by simp_all
  from sellPost_inv [OF post] obtain lv' where inv': "slotInv n s' lv'" by blast
  have each: "lo_size (pool s' a) = lo_size (pool s0 a) \<and>
        (0 < S \<and> bid s' \<le> r \<and> r \<le> bid s0 \<longrightarrow>
           a \<in> set (freeLimitOrders s') \<and> (\<forall>q as. level s' q as \<longrightarrow> a \<notin> set as))"
    if c: "a \<in> set (lv r) \<and> lo_user (pool s0 a)" for r a
  proof
    from c have u: "lo_user (pool ?s a)" by (simp add: pool_withdraw)
    with c ex have xa: "expired ?s t a" by blast
    have sz0: "lo_size (pool ?s a) = lo_size (pool s0 a)" by (simp add: pool_withdraw)
    show "lo_size (pool s' a) = lo_size (pool s0 a)"
    proof (cases "0 < S")
      case False
      then have "S = 0" using word_neq_0_conv by blast
      from sellPost_zero [OF post this] sz0 show ?thesis by simp
    next
      case True
      from xa have "\<forall>q. bid s' \<le> q \<and> q \<le> bid ?s \<longrightarrow> a \<notin> set (liveAt ?s lv t q)"
        by (simp add: liveAt_def)
      from sellTrace_pool [OF tr True this] sz0 show ?thesis by simp
    qed
    show "0 < S \<and> bid s' \<le> r \<and> r \<le> bid s0 \<longrightarrow>
           a \<in> set (freeLimitOrders s') \<and> (\<forall>q as. level s' q as \<longrightarrow> a \<notin> set as)"
    proof
      assume d: "0 < S \<and> bid s' \<le> r \<and> r \<le> bid s0"
      then have pos: "0 < S" and r1: "bid s' \<le> r" and r2: "r \<le> bid ?s" by simp_all
      from c have m: "a \<in> set (lv r)" by simp
      from sellTrace_swept [OF tr pos r1 r2 m xa] have f: "a \<in> set (freeLimitOrders s')" .
      with freed_not_resting [OF inv' f]
      show "a \<in> set (freeLimitOrders s') \<and> (\<forall>q as. level s' q as \<longrightarrow> a \<notin> set as)"
        by blast
    qed
  qed
  from led each show ?thesis by blast
qed

lemma marketBuy_after_withdrawal:
  assumes inv: "slotInv n s0 lv"
    and tracked: "\<forall>r a. a \<in> set (lv r) \<and> lo_user (pool s0 a) \<longrightarrow>
      a \<in> set (userLimitOrders s0) \<or> lo_expirationTime (pool s0 a) = 0"
    and res: "marketBuy S t (withdrawUserLimitOrders s0) = Some (Inr (ou, s'))"
  shows "balance s' = balance s0 \<and> sharesOpen s' = sharesOpen s0 \<and>
     userLimitOrders s' = [] \<and>
     (\<forall>r a. a \<in> set (lv r) \<and> lo_user (pool s0 a) \<longrightarrow>
        lo_size (pool s' a) = lo_size (pool s0 a) \<and>
        (0 < S \<and> ask s0 \<le> r \<and> r \<le> ask s' \<longrightarrow>
           a \<in> set (freeLimitOrders s') \<and> (\<forall>q as. level s' q as \<longrightarrow> a \<notin> set as)))"
proof -
  let ?s = "withdrawUserLimitOrders s0"
  from inv have invs: "slotInv n ?s lv" by (rule slotInv_withdraw)
  note ex = withdrawn_expired [OF tracked, of t]
  from ex have H: "\<forall>r a. a \<in> set (lv r) \<and> lo_user (pool ?s a) \<longrightarrow> expired ?s t a" by blast
  from res have res': "marketBuy_loop (ask ?s) t S 0 ?s = Some (Inr (ou, s'))"
    by (simp add: marketBuy_def)
  from marketBuy_loop_inv [OF invs, of "ask ?s" t S 0] res'
  have post: "buyPost n lv t (ask ?s) S 0 ?s ou s'" by auto
  from marketBuy_loop_trace [OF invs res'] have tr: "buyTrace lv t (ask ?s) S ?s s'" .
  from buyTrace_ledger [OF tr H]
  have led: "balance s' = balance s0" "sharesOpen s' = sharesOpen s0" "userLimitOrders s' = []"
    by simp_all
  from buyPost_inv [OF post] obtain lv' where inv': "slotInv n s' lv'" by blast
  have each: "lo_size (pool s' a) = lo_size (pool s0 a) \<and>
        (0 < S \<and> ask s0 \<le> r \<and> r \<le> ask s' \<longrightarrow>
           a \<in> set (freeLimitOrders s') \<and> (\<forall>q as. level s' q as \<longrightarrow> a \<notin> set as))"
    if c: "a \<in> set (lv r) \<and> lo_user (pool s0 a)" for r a
  proof
    from c have u: "lo_user (pool ?s a)" by (simp add: pool_withdraw)
    with c ex have xa: "expired ?s t a" by blast
    have sz0: "lo_size (pool ?s a) = lo_size (pool s0 a)" by (simp add: pool_withdraw)
    show "lo_size (pool s' a) = lo_size (pool s0 a)"
    proof (cases "0 < S")
      case False
      then have "S = 0" using word_neq_0_conv by blast
      from buyPost_zero [OF post this] sz0 show ?thesis by simp
    next
      case True
      from xa have "\<forall>q. ask ?s \<le> q \<and> q \<le> ask s' \<longrightarrow> a \<notin> set (liveAt ?s lv t q)"
        by (simp add: liveAt_def)
      from buyTrace_pool [OF tr True this] sz0 show ?thesis by simp
    qed
    show "0 < S \<and> ask s0 \<le> r \<and> r \<le> ask s' \<longrightarrow>
           a \<in> set (freeLimitOrders s') \<and> (\<forall>q as. level s' q as \<longrightarrow> a \<notin> set as)"
    proof
      assume d: "0 < S \<and> ask s0 \<le> r \<and> r \<le> ask s'"
      then have pos: "0 < S" and r1: "ask ?s \<le> r" and r2: "r \<le> ask s'" by simp_all
      from c have m: "a \<in> set (lv r)" by simp
      from buyTrace_swept [OF tr pos r1 r2 m xa] have f: "a \<in> set (freeLimitOrders s')" .
      with freed_not_resting [OF inv' f]
      show "a \<in> set (freeLimitOrders s') \<and> (\<forall>q as. level s' q as \<longrightarrow> a \<notin> set as)"
        by blast
    qed
  qed
  from led each show ?thesis by blast
qed

lemma book5_slotInv: "slotInv 2 book5 lv5"
proof -
  let ?s0 = "(setupBook 2 False True)\<lparr>bid := 100, ask := 101\<rparr>"
  have "slotInv 2 (setupBook 2 False True) (\<lambda>_. [])" by (rule slotInv_setupBook)
  then have i0: "slotInv 2 ?s0 (\<lambda>_. [])" by simp
  have f0: "freeLimitOrders ?s0 = 1 # [0]" by (simp add: setupBook_def upt_rec)
  have p0: "(100 :: u32) < NUM_PRICES" by (simp add: NUM_PRICES_def)
  have room0: "True \<longrightarrow> length (userLimitOrders ?s0) < MAX_NUM_USER_LIMIT_ORDERS"
    by (simp add: setupBook_def MAX_NUM_USER_LIMIT_ORDERS_def)
  from addLimitOrder_inv [OF i0 f0 p0 room0, of 10 ULLONG_MAX] obtain s1 where
    r1: "addLimitOrder 100 10 ULLONG_MAX True ?s0 = Some (Inr s1)"
    and i1: "slotInv 2 s1 ((\<lambda>_. [])(100 := [1]))" and f1: "freeLimitOrders s1 = [0]"
    and st: "fillTiesInStackOrder s1 = False"
    by (auto simp: setupBook_def)
  have room1: "False \<longrightarrow> length (userLimitOrders s1) < MAX_NUM_USER_LIMIT_ORDERS" by simp
  from addLimitOrder_inv [OF i1 f1 p0 room1, of 5 5000] obtain s2 where
    r2: "addLimitOrder 100 5 5000 False s1 = Some (Inr s2)"
    and i2: "slotInv 2 s2 ((\<lambda>_. [])(100 := [1, 0]))"
    using st by auto
  from r1 r2 have "book5 = s2" by (simp add: book5_def place_def)
  with i2 show ?thesis by (simp add: lv5_def)
qed

lemma book5_bid: "bid book5 = 100"
  by (simp add: book5_def place_def book_eval upt_rec)

lemma book5_tracked:
  "\<forall>r a. a \<in> set (lv5 r) \<and> lo_user (pool book5 a) \<longrightarrow>
     a \<in> set (userLimitOrders book5) \<or> lo_expirationTime (pool book5 a) = 0"
  by (auto simp: lv5_def book5_facts split: if_splits)

lemma book5_withdrawn_sell:
  "\<exists>s'. marketSell 3 1000 (withdrawUserLimitOrders book5) = Some (Inr (300, s')) \<and>
     bid s' = 100 \<and> level s' 100 [0] \<and> lo_size (pool s' 0) = 2"
  by (simp add: book5_def place_def book_eval upt_rec withdrawUserLimitOrders_def level_def)

section \<open>The invariant of the engine\<close>

lemma limitBuyPrice_wraps:
  assumes d: "unat d < 2 ^ 31" and a: "unat (ask s) < unat d"
  shows "NUM_PRICES \<le> limitBuyPrice d s"
proof -
  let ?A = "unat (ask s)" and ?D = "unat d"
  have b: "?A < 2 ^ 32" using unsigned_less [of "ask s", where ?'a = nat] by simp
  have ua: "unat (ucast (ask s) :: u64) = ?A" using b by (simp add: unat_ucast_mod)
  from a have "unat ((ucast (ask s) :: u64) - d) = ?A + 2 ^ 64 - ?D"
    by (simp add: unat_sub_if' ua)
  then have "unat (limitBuyPrice d s) = (?A + 2 ^ 64 - ?D) mod 2 ^ 32"
    by (simp add: limitBuyPrice_def unat_ucast_mod)
  moreover from a d have "?A + 2 ^ 64 - ?D = (?A + 2 ^ 32 - ?D) + 4294967295 * 2 ^ 32"
    by simp
  ultimately have "unat (limitBuyPrice d s) = (?A + 2 ^ 32 - ?D) mod 2 ^ 32"
    by (simp only: mod_mult_self1)
  moreover from a d have "?A + 2 ^ 32 - ?D < 2 ^ 32" by simp
  ultimately have "unat (limitBuyPrice d s) = ?A + 2 ^ 32 - ?D" by simp
  with d have "100000 \<le> unat (limitBuyPrice d s)" by simp
  then show ?thesis by (simp add: NUM_PRICES_def word_le_nat_alt)
qed

lemma limitSellPrice_above:
  assumes d: "0 < d" "unat d < 2 ^ 31" and b: "bid s < NUM_PRICES"
  shows "bid s < limitSellPrice d s"
proof -
  from b have "unat (bid s) < 100000" by (simp add: NUM_PRICES_def word_less_nat_alt)
  with d have "unat (bid s) + unat d < 2 ^ 32" by simp
  then have "unat (limitSellPrice d s) = unat (bid s) + unat d" by (rule limitSellPrice_nat)
  moreover from d(1) have "0 < unat d" by (simp add: word_less_nat_alt)
  ultimately show ?thesis by (simp add: word_less_nat_alt)
qed

lemma limitBuyPrice_below:
  assumes d: "0 < d" "unat d < 2 ^ 31" and p: "limitBuyPrice d s < NUM_PRICES"
    and a: "0 < ask s"
  shows "limitBuyPrice d s < ask s"
proof (cases "unat (ask s) < unat d")
  case True
  from limitBuyPrice_wraps [OF d(2) True] p show ?thesis by simp
next
  case False
  then have "unat d \<le> unat (ask s)" by simp
  then have "unat (limitBuyPrice d s) = unat (ask s) - unat d" by (rule limitBuyPrice_nat)
  moreover from d(1) have "0 < unat d" by (simp add: word_less_nat_alt)
  moreover from a have "0 < unat (ask s)" by (simp add: word_less_nat_alt)
  ultimately show ?thesis by (simp add: word_less_nat_alt)
qed

lemma slotInv_ledger [simp]:
  "slotInv n (s\<lparr>balance := x\<rparr>) lv = slotInv n s lv"
  "slotInv n (s\<lparr>sharesOpen := y\<rparr>) lv = slotInv n s lv"
  by (simp_all add: slotInv_def level_def)

lemma bookInvI: "bid s < ask s \<Longrightarrow> ask s < NUM_PRICES \<Longrightarrow> slotInv n s lv \<Longrightarrow> bookInv n s"
  unfolding bookInv_def by blast

lemma marketBuy_bookInv:
  assumes inv: "bookInv n s"
  shows "\<exists>r. marketBuy sz t s = Some r \<and>
     (\<forall>ou s'. r = Inr (ou, s') \<longrightarrow> bookInv n s' \<and> bid s' = bid s \<and> ask s \<le> ask s')"
proof -
  from inv obtain lv where ba: "bid s < ask s" and an: "ask s < NUM_PRICES"
    and sl: "slotInv n s lv" by (auto simp: bookInv_def)
  from marketBuy_inv [OF sl, of sz t] obtain r where
    r: "marketBuy sz t s = Some r"
    and post: "\<And>ou s'. r = Inr (ou, s') \<Longrightarrow> buyPost n lv t (ask s) sz 0 s ou s'"
    by blast
  have "bookInv n s' \<and> bid s' = bid s \<and> ask s \<le> ask s'" if re: "r = Inr (ou, s')" for ou s'
  proof (cases "0 < sz")
    case False
    then have "sz = 0" using word_neq_0_conv by blast
    from buyPost_zero [OF post [OF re] this] inv show ?thesis by simp
  next
    case True
    note f = post [OF re]
    from buyPost_ask [OF f True] have a: "ask s \<le> ask s'" and b: "ask s' < NUM_PRICES"
      by simp_all
    from buyPost_bid [OF f] have c: "bid s' = bid s" .
    from buyPost_inv [OF f] obtain lv' where i: "slotInv n s' lv'" by blast
    from ba a have "bid s < ask s'" by (rule less_le_trans)
    with c have "bid s' < ask s'" by simp
    from bookInvI [OF this b i] c a show ?thesis by simp
  qed
  with r show ?thesis by blast
qed

lemma marketSell_bookInv:
  assumes inv: "bookInv n s"
  shows "\<exists>r. marketSell sz t s = Some r \<and>
     (\<forall>ou s'. r = Inr (ou, s') \<longrightarrow> bookInv n s' \<and> ask s' = ask s \<and> bid s' \<le> bid s)"
proof -
  from inv obtain lv where ba: "bid s < ask s" and an: "ask s < NUM_PRICES"
    and sl: "slotInv n s lv" by (auto simp: bookInv_def)
  from marketSell_inv [OF sl, of sz t] obtain r where
    r: "marketSell sz t s = Some r"
    and post: "\<And>ou s'. r = Inr (ou, s') \<Longrightarrow> sellPost n lv t (bid s) sz 0 s ou s'"
    by blast
  have "bookInv n s' \<and> ask s' = ask s \<and> bid s' \<le> bid s" if re: "r = Inr (ou, s')" for ou s'
  proof (cases "0 < sz")
    case False
    then have "sz = 0" using word_neq_0_conv by blast
    from sellPost_zero [OF post [OF re] this] inv show ?thesis by simp
  next
    case True
    note f = post [OF re]
    from sellPost_bid [OF f True] have a: "bid s' \<le> bid s" by simp
    from sellPost_ask [OF f] have c: "ask s' = ask s" .
    from sellPost_inv [OF f] obtain lv' where i: "slotInv n s' lv'" by blast
    from a ba have "bid s' < ask s" by (rule le_less_trans)
    with c have "bid s' < ask s'" by simp
    moreover from an c have "ask s' < NUM_PRICES" by simp
    ultimately have "bookInv n s'" using i by (rule bookInvI)
    with c a show ?thesis by simp
  qed
  with r show ?thesis by blast
qed

lemma limitSell_bookInv:
  assumes inv: "bookInv n s" and d: "0 < d" "unat d < 2 ^ 31"
  shows "\<exists>r. orderCreation (LimitSell d m l) t s = Some r \<and>
     (\<forall>s'. r = Inr s' \<longrightarrow> bookInv n s' \<and> bid s' = bid s \<and>
        limitOrderHead s' (limitSellPrice d s) \<noteq> None \<and>
        (\<forall>q. limitOrderHead s q \<noteq> None \<longrightarrow> limitOrderHead s' q \<noteq> None) \<and>
        ask s' = min (ask s) (limitSellPrice d s))"
proof -
  let ?p = "limitSellPrice d s"
  from inv obtain lv where ba: "bid s < ask s" and an: "ask s < NUM_PRICES"
    and sl: "slotInv n s lv" by (auto simp: bookInv_def)
  from ba an have "bid s < NUM_PRICES" by (rule less_trans)
  from limitSellPrice_above [OF d this] have bp: "bid s < ?p" .
  show ?thesis
  proof (cases "freeLimitOrders s")
    case Nil
    then have "orderCreation (LimitSell d m l) t s = Some (Inl RanOutOfFreeLimitOrders)"
      by (simp add: orderCreation_def addLimitOrder_def Let_def)
    then show ?thesis by simp
  next
    case (Cons lo fr)
    show ?thesis
    proof (cases "?p < NUM_PRICES")
      case False
      then have "NUM_PRICES \<le> ?p" by (simp add: not_less)
      from orderCreation_out_of_range(1) [OF Cons this]
      show ?thesis by simp
    next
      case True
      from orderCreation_sell [OF sl Cons True, of m l t] obtain s' where
        r: "orderCreation (LimitSell d m l) t s = Some (Inr s')"
        and i: "slotInv n s' (lv(?p := if fillTiesInStackOrder s then lo # lv ?p
             else lv ?p @ [lo]))"
        and h: "limitOrderHead s' ?p \<noteq> None"
        and hs: "\<forall>q. q \<noteq> ?p \<longrightarrow> limitOrderHead s' q = limitOrderHead s q"
        and a: "ask s' = min (ask s) ?p" and b: "bid s' = bid s"
        by blast
      from a ba bp b have "bid s' < ask s'" by (simp add: min_def)
      moreover from a an True have "ask s' < NUM_PRICES" by (simp add: min_def)
      ultimately have "bookInv n s'" using i by (rule bookInvI)
      moreover have "\<forall>q. limitOrderHead s q \<noteq> None \<longrightarrow> limitOrderHead s' q \<noteq> None"
        using h hs by metis
      ultimately show ?thesis using r h a b by simp
    qed
  qed
qed

lemma limitBuy_bookInv:
  assumes inv: "bookInv n s" and d: "0 < d" "unat d < 2 ^ 31"
  shows "\<exists>r. orderCreation (LimitBuy d m l) t s = Some r \<and>
     (\<forall>s'. r = Inr s' \<longrightarrow> bookInv n s' \<and> ask s' = ask s \<and>
        limitOrderHead s' (limitBuyPrice d s) \<noteq> None \<and>
        (\<forall>q. limitOrderHead s q \<noteq> None \<longrightarrow> limitOrderHead s' q \<noteq> None) \<and>
        bid s' = max (bid s) (limitBuyPrice d s))"
proof -
  let ?p = "limitBuyPrice d s"
  from inv obtain lv where ba: "bid s < ask s" and an: "ask s < NUM_PRICES"
    and sl: "slotInv n s lv" by (auto simp: bookInv_def)
  from ba have a0: "0 < ask s" by (meson le_less_trans word_zero_le)
  show ?thesis
  proof (cases "freeLimitOrders s")
    case Nil
    then have "orderCreation (LimitBuy d m l) t s = Some (Inl RanOutOfFreeLimitOrders)"
      by (simp add: orderCreation_def addLimitOrder_def Let_def)
    then show ?thesis by simp
  next
    case (Cons lo fr)
    show ?thesis
    proof (cases "?p < NUM_PRICES")
      case False
      then have "NUM_PRICES \<le> ?p" by (simp add: not_less)
      from orderCreation_out_of_range(2) [OF Cons this]
      show ?thesis by simp
    next
      case True
      from limitBuyPrice_below [OF d True a0] have pa: "?p < ask s" .
      from orderCreation_buy [OF sl Cons True, of m l t] obtain s' where
        r: "orderCreation (LimitBuy d m l) t s = Some (Inr s')"
        and i: "slotInv n s' (lv(?p := if fillTiesInStackOrder s then lo # lv ?p
             else lv ?p @ [lo]))"
        and h: "limitOrderHead s' ?p \<noteq> None"
        and hs: "\<forall>q. q \<noteq> ?p \<longrightarrow> limitOrderHead s' q = limitOrderHead s q"
        and b: "bid s' = max (bid s) ?p" and a: "ask s' = ask s"
        by blast
      from a ba pa b have "bid s' < ask s'" by (simp add: max_def)
      moreover from a an have "ask s' < NUM_PRICES" by simp
      ultimately have "bookInv n s'" using i by (rule bookInvI)
      moreover have "\<forall>q. limitOrderHead s q \<noteq> None \<longrightarrow> limitOrderHead s' q \<noteq> None"
        using h hs by metis
      ultimately show ?thesis using r h a b by simp
    qed
  qed
qed

lemma sweep_inv:
  "slotInv n s lv \<Longrightarrow>
   \<exists>r. updateAllLimitOrders p t s = Some r \<and>
     (\<forall>s'. r = Inr s' \<longrightarrow> (\<exists>lv'. slotInv n s' lv') \<and> bid s' = bid s \<and> ask s' = ask s)"
proof (induction p t s arbitrary: lv rule: updateAllLimitOrders.induct)
  case (1 p t s)
  show ?case
  proof (cases "p < NUM_PRICES")
    case False
    then have "updateAllLimitOrders p t s = Some (Inr s)"
      by (subst updateAllLimitOrders.simps) simp
    with "1.prems" show ?thesis by auto
  next
    case True
    from slotInv_updateLimitOrders [OF "1.prems" True, of t] obtain s1 where
      r1: "updateLimitOrders p t s = Some (Inr s1)"
      and i1: "slotInv n s1 (lv(p := filter (\<lambda>a. \<not> expired s t a) (lv p)))"
      and eq1: "s1 = s\<lparr>pool := pool s1, freeLimitOrders := freeLimitOrders s1,
             limitOrderHead := (limitOrderHead s)(p := limitOrderHead s1 p)\<rparr>"
      by blast
    have ba: "bid s1 = bid s" "ask s1 = ask s" by (subst eq1, simp)+
    from "1.IH" [OF True r1 refl i1] obtain r where
      r: "updateAllLimitOrders (p + 1) t s1 = Some r"
      and ih: "\<And>s'. r = Inr s' \<Longrightarrow>
          (\<exists>lv'. slotInv n s' lv') \<and> bid s' = bid s1 \<and> ask s' = ask s1"
      by blast
    have "updateAllLimitOrders p t s = updateAllLimitOrders (p + 1) t s1"
      using True r1 by (subst updateAllLimitOrders.simps) simp
    with r ih ba show ?thesis by simp
  qed
qed

lemma updateBid_result:
  "updateBid s = Inr s' \<Longrightarrow>
   s' = s\<lparr>bid := bid s'\<rparr> \<and> bid s' \<le> bid s \<and> limitOrderHead s (bid s') \<noteq> None"
proof (induction s rule: updateBid.induct)
  case (1 s)
  show ?case
  proof (cases "NUM_PRICES \<le> bid s")
    case True
    with "1.prems" show ?thesis by (subst (asm) updateBid.simps) simp
  next
    case inr: False
    show ?thesis
    proof (cases "limitOrderHead s (bid s) = None")
      case False
      with inr "1.prems" have "s' = s" by (subst (asm) updateBid.simps) simp
      with False show ?thesis by simp
    next
      case True
      show ?thesis
      proof (cases "bid s - 1 = UINT_MAX")
        case True
        with inr \<open>limitOrderHead s (bid s) = None\<close> "1.prems" show ?thesis
          by (subst (asm) updateBid.simps) simp
      next
        case False
        let ?s1 = "s\<lparr>bid := bid s - 1\<rparr>"
        from inr True False "1.prems" have r: "updateBid ?s1 = Inr s'"
          by (subst (asm) updateBid.simps) simp
        from "1.IH" [OF inr True False r]
        have e: "s' = ?s1\<lparr>bid := bid s'\<rparr>" and le: "bid s' \<le> bid s - 1"
          and h: "limitOrderHead s (bid s') \<noteq> None" by simp_all
        from False have "bid s \<noteq> 0" by (simp add: UINT_MAX_def)
        then have "bid s - 1 < bid s" by (rule word_pred_lt)
        with le have "bid s' \<le> bid s" by simp
        moreover from e have "s' = s\<lparr>bid := bid s'\<rparr>" by simp
        ultimately show ?thesis using h by simp
      qed
    qed
  qed
qed

lemma updateAsk_result:
  "updateAsk s = Inr s' \<Longrightarrow>
   s' = s\<lparr>ask := ask s'\<rparr> \<and> ask s \<le> ask s' \<and> ask s' < NUM_PRICES \<and>
   limitOrderHead s (ask s') \<noteq> None"
proof (induction s rule: updateAsk.induct)
  case (1 s)
  show ?case
  proof (cases "NUM_PRICES \<le> ask s")
    case True
    with "1.prems" show ?thesis by (subst (asm) updateAsk.simps) simp
  next
    case inr: False
    then have lt: "ask s < NUM_PRICES" by (simp add: not_le)
    show ?thesis
    proof (cases "limitOrderHead s (ask s) = None")
      case False
      with inr "1.prems" have "s' = s" by (subst (asm) updateAsk.simps) simp
      with False lt show ?thesis by simp
    next
      case True
      show ?thesis
      proof (cases "NUM_PRICES \<le> ask s + 1")
        case True
        with inr \<open>limitOrderHead s (ask s) = None\<close> "1.prems" show ?thesis
          by (subst (asm) updateAsk.simps) simp
      next
        case False
        let ?s1 = "s\<lparr>ask := ask s + 1\<rparr>"
        from inr True False "1.prems" have r: "updateAsk ?s1 = Inr s'"
          by (subst (asm) updateAsk.simps) simp
        from "1.IH" [OF inr True False r]
        have e: "s' = ?s1\<lparr>ask := ask s'\<rparr>" and le: "ask s + 1 \<le> ask s'"
          and n: "ask s' < NUM_PRICES"
          and h: "limitOrderHead s (ask s') \<noteq> None" by simp_all
        from lt have "ask s < ask s + 1" by (rule word_less_succ)
        with le have "ask s \<le> ask s'" by simp
        moreover from e have "s' = s\<lparr>ask := ask s'\<rparr>" by simp
        ultimately show ?thesis using h n by simp
      qed
    qed
  qed
qed

lemma refresh_bookInv:
  assumes inv: "bookInv n s" and r: "updateBidAndAsk s = Inr s'"
  shows "bookInv n s' \<and> limitOrderHead s' (bid s') \<noteq> None \<and>
     limitOrderHead s' (ask s') \<noteq> None \<and> bid s' \<le> bid s \<and> ask s \<le> ask s' \<and>
     s' = s\<lparr>bid := bid s', ask := ask s'\<rparr>"
proof -
  from inv obtain lv where ba: "bid s < ask s" and an: "ask s < NUM_PRICES"
    and sl: "slotInv n s lv" by (auto simp: bookInv_def)
  from r obtain s1 where r1: "updateBid s = Inr s1" and r2: "updateAsk s1 = Inr s'"
    by (auto simp: updateBidAndAsk_def split: sum.splits)
  from updateBid_result [OF r1]
  have e1: "s1 = s\<lparr>bid := bid s1\<rparr>" and b1: "bid s1 \<le> bid s"
    and h1: "limitOrderHead s (bid s1) \<noteq> None" by simp_all
  from updateAsk_result [OF r2]
  have e2: "s' = s1\<lparr>ask := ask s'\<rparr>" and a2: "ask s1 \<le> ask s'" and n2: "ask s' < NUM_PRICES"
    and h2: "limitOrderHead s1 (ask s') \<noteq> None" by simp_all
  have as1: "ask s1 = ask s" and hd1: "limitOrderHead s1 = limitOrderHead s"
    by (subst e1, simp)+
  have bs': "bid s' = bid s1" and hd': "limitOrderHead s' = limitOrderHead s1"
    by (subst e2, simp)+
  from e1 e2 have e: "s' = s\<lparr>bid := bid s', ask := ask s'\<rparr>"
    by (metis bs' book.update_convs(4) book.update_convs(5))
  from b1 ba have "bid s1 < ask s" by (rule le_less_trans)
  with a2 as1 have "bid s1 < ask s'" by simp
  with bs' have lt: "bid s' < ask s'" by simp
  from sl have "slotInv n (s\<lparr>bid := bid s', ask := ask s'\<rparr>) lv" by simp
  with e have "slotInv n s' lv" by simp
  from bookInvI [OF lt n2 this] h1 h2 hd1 hd' bs' b1 a2 as1 e show ?thesis by simp
qed

lemma bookInv_ledger [simp]:
  "bookInv n (s\<lparr>balance := x, sharesOpen := y\<rparr>) = bookInv n s"
  by (simp add: bookInv_def)

lemma userMarketBuy_bookInv:
  assumes inv: "bookInv n s"
  shows "\<exists>r. userMarketBuy sz t s = Some r \<and> (\<forall>s'. r = Inr s' \<longrightarrow> bookInv n s')"
proof (cases "realisticUserMarketOrders s")
  case False
  with inv show ?thesis by (simp add: userMarketBuy_def)
next
  case True
  from marketBuy_bookInv [OF inv, of sz t] obtain r where
    r: "marketBuy sz t s = Some r"
    and i: "\<And>ou s'. r = Inr (ou, s') \<Longrightarrow> bookInv n s'" by blast
  show ?thesis
  proof (cases r)
    case (Inl f)
    with r True show ?thesis by (simp add: userMarketBuy_def)
  next
    case (Inr x)
    obtain ou s1 where x: "x = (ou, s1)" by (cases x)
    from i [of ou s1] Inr x have "bookInv n s1" by simp
    with r True Inr x show ?thesis by (simp add: userMarketBuy_def)
  qed
qed

lemma userMarketSell_bookInv:
  assumes inv: "bookInv n s"
  shows "\<exists>r. userMarketSell sz t s = Some r \<and> (\<forall>s'. r = Inr s' \<longrightarrow> bookInv n s')"
proof (cases "realisticUserMarketOrders s")
  case False
  with inv show ?thesis by (simp add: userMarketSell_def)
next
  case True
  from marketSell_bookInv [OF inv, of sz t] obtain r where
    r: "marketSell sz t s = Some r"
    and i: "\<And>ou s'. r = Inr (ou, s') \<Longrightarrow> bookInv n s'" by blast
  show ?thesis
  proof (cases r)
    case (Inl f)
    with r True show ?thesis by (simp add: userMarketSell_def)
  next
    case (Inr x)
    obtain ou s1 where x: "x = (ou, s1)" by (cases x)
    from i [of ou s1] Inr x have "bookInv n s1" by simp
    with r True Inr x show ?thesis by (simp add: userMarketSell_def)
  qed
qed

lemma addLimitOrder_bookInv:
  assumes inv: "bookInv n s"
  shows "\<exists>r. addLimitOrder p sz e usr s = Some r \<and> (\<forall>s'. r = Inr s' \<longrightarrow> bookInv n s')"
proof -
  from inv obtain lv where ba: "bid s < ask s" and an: "ask s < NUM_PRICES"
    and sl: "slotInv n s lv" by (auto simp: bookInv_def)
  from addLimitOrder_total [OF sl, of p sz e usr] obtain r where
    r: "addLimitOrder p sz e usr s = Some r"
    and i: "\<And>s'. r = Inr s' \<Longrightarrow> \<exists>lo fr. freeLimitOrders s = lo # fr \<and>
        slotInv n s' (lv(p := if fillTiesInStackOrder s then lo # lv p else lv p @ [lo])) \<and>
        p < NUM_PRICES \<and> bid s' = bid s \<and> ask s' = ask s"
    by blast
  have "bookInv n s'" if "r = Inr s'" for s'
  proof -
    from i [OF that] obtain lv' where "slotInv n s' lv'" "bid s' = bid s" "ask s' = ask s"
      by blast
    with ba an show ?thesis by (simp add: bookInv_def) blast
  qed
  with r show ?thesis by blast
qed

lemma userLimitOrder_bookInv:
  assumes inv: "bookInv n s"
  shows "\<exists>r. userLimitOrder b sl nb ns s = Some r \<and> (\<forall>s'. r = Inr s' \<longrightarrow> bookInv n s')"
  using inv addLimitOrder_bookInv [OF inv, of "bid s" nb ULLONG_MAX True]
    addLimitOrder_bookInv [OF inv, of "ask s" ns ULLONG_MAX True]
  by (simp add: userLimitOrder_def)

lemma withdraw_bookInv:
  assumes inv: "bookInv n s"
  shows "bookInv n (withdrawUserLimitOrders s)"
proof -
  from inv obtain lv where ba: "bid s < ask s" and an: "ask s < NUM_PRICES"
    and sl: "slotInv n s lv" by (auto simp: bookInv_def)
  from sl have "slotInv n (withdrawUserLimitOrders s) lv" by (rule slotInv_withdraw)
  with ba an show ?thesis by (simp add: bookInv_def) blast
qed

lemma step_inv:
  assumes inv: "bookInv n s" and d: "drawn e"
  shows "\<exists>r. step e s = Some r \<and>
     (\<forall>s'. r = Inr s' \<longrightarrow> bookInv n s' \<and>
        (e = Refresh \<longrightarrow> limitOrderHead s' (bid s') \<noteq> None \<and>
           limitOrderHead s' (ask s') \<noteq> None))"
proof (cases e)
  case (Creation c t)
  show ?thesis
  proof (cases c)
    case (MarketSell m)
    from marketSell_bookInv [OF inv, of "ucast m" t] obtain r where
      r: "marketSell (ucast m) t s = Some r"
      and i: "\<And>ou s'. r = Inr (ou, s') \<Longrightarrow> bookInv n s'" by blast
    show ?thesis
    proof (cases r)
      case (Inl f)
      with r Creation MarketSell show ?thesis by (simp add: orderCreation_def)
    next
      case (Inr x)
      obtain ou s1 where x: "x = (ou, s1)" by (cases x)
      from i [of ou s1] Inr x have "bookInv n s1" by simp
      with r Creation MarketSell Inr x show ?thesis by (simp add: orderCreation_def)
    qed
  next
    case (MarketBuy m)
    from marketBuy_bookInv [OF inv, of "ucast m" t] obtain r where
      r: "marketBuy (ucast m) t s = Some r"
      and i: "\<And>ou s'. r = Inr (ou, s') \<Longrightarrow> bookInv n s'" by blast
    show ?thesis
    proof (cases r)
      case (Inl f)
      with r Creation MarketBuy show ?thesis by (simp add: orderCreation_def)
    next
      case (Inr x)
      obtain ou s1 where x: "x = (ou, s1)" by (cases x)
      from i [of ou s1] Inr x have "bookInv n s1" by simp
      with r Creation MarketBuy Inr x show ?thesis by (simp add: orderCreation_def)
    qed
  next
    case (LimitSell dd m l)
    with d Creation have "0 < dd" "unat dd < 2 ^ 31" by simp_all
    from limitSell_bookInv [OF inv this, of m l t] Creation LimitSell
    show ?thesis by auto
  next
    case (LimitBuy dd m l)
    with d Creation have "0 < dd" "unat dd < 2 ^ 31" by simp_all
    from limitBuy_bookInv [OF inv this, of m l t] Creation LimitBuy
    show ?thesis by auto
  qed
next
  case (Sweep t)
  from inv obtain lv where ba: "bid s < ask s" and an: "ask s < NUM_PRICES"
    and sl: "slotInv n s lv" by (auto simp: bookInv_def)
  from sweep_inv [OF sl, of 0 t] obtain r where
    r: "updateAllLimitOrders 0 t s = Some r"
    and i: "\<And>s'. r = Inr s' \<Longrightarrow>
        (\<exists>lv'. slotInv n s' lv') \<and> bid s' = bid s \<and> ask s' = ask s" by blast
  have "bookInv n s'" if "r = Inr s'" for s'
    using i [OF that] ba an by (simp add: bookInv_def)
  with r Sweep show ?thesis by simp
next
  case Refresh
  have "bookInv n s' \<and> limitOrderHead s' (bid s') \<noteq> None \<and>
      limitOrderHead s' (ask s') \<noteq> None" if "updateBidAndAsk s = Inr s'" for s'
    using refresh_bookInv [OF inv that] by simp
  with Refresh show ?thesis by simp
next
  case (UserMarketBuy sz t)
  with userMarketBuy_bookInv [OF inv, of sz t] show ?thesis by simp
next
  case (UserMarketSell sz t)
  with userMarketSell_bookInv [OF inv, of sz t] show ?thesis by simp
next
  case (UserLimit b sl nb ns)
  with userLimitOrder_bookInv [OF inv, of b sl nb ns] show ?thesis by simp
next
  case Withdraw
  with withdraw_bookInv [OF inv] show ?thesis by simp
qed

lemma run_inv:
  "bookInv n s \<Longrightarrow> \<forall>e \<in> set es. drawn e \<Longrightarrow>
   \<exists>r. run es s = Some r \<and>
     (\<forall>s'. r = Inr s' \<longrightarrow> bookInv n s' \<and>
        (es \<noteq> [] \<and> last es = Refresh \<longrightarrow> limitOrderHead s' (bid s') \<noteq> None \<and>
           limitOrderHead s' (ask s') \<noteq> None))"
proof (induction es arbitrary: s)
  case Nil
  then show ?case by simp
next
  case (Cons e es)
  from Cons.prems(2) have de: "drawn e" and des: "\<forall>e \<in> set es. drawn e" by simp_all
  from step_inv [OF Cons.prems(1) de] obtain r1 where
    r1: "step e s = Some r1"
    and i1: "\<And>s1. r1 = Inr s1 \<Longrightarrow> bookInv n s1 \<and>
        (e = Refresh \<longrightarrow> limitOrderHead s1 (bid s1) \<noteq> None \<and>
           limitOrderHead s1 (ask s1) \<noteq> None)"
    by blast
  show ?case
  proof (cases r1)
    case (Inl f)
    with r1 show ?thesis by simp
  next
    case (Inr s1)
    from i1 [OF Inr] have b1: "bookInv n s1"
      and h1: "e = Refresh \<longrightarrow> limitOrderHead s1 (bid s1) \<noteq> None \<and>
           limitOrderHead s1 (ask s1) \<noteq> None" by simp_all
    from Cons.IH [OF b1 des] obtain r where
      r: "run es s1 = Some r"
      and ih: "\<And>s'. r = Inr s' \<Longrightarrow> bookInv n s' \<and>
        (es \<noteq> [] \<and> last es = Refresh \<longrightarrow> limitOrderHead s' (bid s') \<noteq> None \<and>
           limitOrderHead s' (ask s') \<noteq> None)"
      by blast
    have e: "run (e # es) s = run es s1" using r1 Inr by simp
    show ?thesis
    proof (cases "es = []")
      case True
      with r have "r = Inr s1" by simp
      with e r b1 h1 True show ?thesis by simp
    next
      case False
      then have "last (e # es) = last es" by simp
      with e r ih False show ?thesis by simp
    qed
  qed
qed

lemma add_step:
  assumes inv: "slotInv n s lv" and md: "made sz t0 life s lv"
  shows "\<exists>r. addLimitOrder p sz (t0 + life p k) False s = Some r \<and>
     (\<forall>s'. r = Inr s' \<longrightarrow>
        (\<exists>lv'. slotInv n s' lv' \<and> made sz t0 life s' lv' \<and>
           (\<forall>q. q \<noteq> p \<longrightarrow> lv' q = lv q) \<and> length (lv' p) = Suc (length (lv p)) \<and>
           Suc (length (freeLimitOrders s')) = length (freeLimitOrders s) \<and>
           bid s' = bid s \<and> ask s' = ask s \<and> p < NUM_PRICES)) \<and>
     (p < NUM_PRICES \<and> freeLimitOrders s \<noteq> [] \<longrightarrow> (\<exists>s'. r = Inr s'))"
proof (cases "freeLimitOrders s")
  case Nil
  then show ?thesis by (simp add: addLimitOrder_def)
next
  case (Cons lo fr)
  show ?thesis
  proof (cases "p < NUM_PRICES")
    case False
    with Cons show ?thesis by (simp add: addLimitOrder_def not_less)
  next
    case True
    let ?e = "t0 + life p k"
    let ?as' = "if fillTiesInStackOrder s then lo # lv p else lv p @ [lo]"
    let ?lv' = "lv(p := ?as')"
    have room: "False \<longrightarrow> length (userLimitOrders s) < MAX_NUM_USER_LIMIT_ORDERS" by simp
    from inv have lvp: "level s p (lv p)" by (rule slotInv_level)
    from inv Cons have lo: "\<And>q. lo \<notin> set (lv q)" by (auto simp: slotInv_def)
    from slotInv_addLimitOrder [OF inv Cons True room, of sz ?e] obtain s1 where
      r1: "addLimitOrder p sz ?e False s = Some (Inr s1)"
      and i1: "slotInv n s1 ?lv'" by blast
    from addLimitOrder_level [OF lvp Cons lo True room, of sz ?e] obtain s2 where
      r2: "addLimitOrder p sz ?e False s = Some (Inr s2)"
      and f2: "freeLimitOrders s2 = fr"
      and z2: "lo_size (pool s2 lo) = sz" and e2: "lo_expirationTime (pool s2 lo) = ?e"
      and o2: "\<forall>a. a \<noteq> lo \<longrightarrow> pool s2 a = (pool s a)\<lparr>lo_next := lo_next (pool s2 a)\<rparr>"
      and b2: "bid s2 = bid s" "ask s2 = ask s"
      by blast
    from r1 r2 have eq: "s2 = s1" by simp
    have keep: "lo_size (pool s1 a) = lo_size (pool s a) \<and>
        lo_expirationTime (pool s1 a) = lo_expirationTime (pool s a)" if "a \<noteq> lo" for a
    proof -
      from o2 that have "pool s1 a = (pool s a)\<lparr>lo_next := lo_next (pool s1 a)\<rparr>"
        by (simp add: eq)
      then have "lo_size (pool s1 a) = lo_size ((pool s a)\<lparr>lo_next := lo_next (pool s1 a)\<rparr>)"
        and "lo_expirationTime (pool s1 a) =
          lo_expirationTime ((pool s a)\<lparr>lo_next := lo_next (pool s1 a)\<rparr>)"
        by simp_all
      then show ?thesis by simp
    qed
    have md1: "made sz t0 life s1 ?lv'"
      unfolding made_def
    proof (intro allI impI)
      fix r a assume m: "a \<in> set (?lv' r)"
      show "lo_size (pool s1 a) = sz \<and> (\<exists>k. lo_expirationTime (pool s1 a) = t0 + life r k)"
      proof (cases "a = lo")
        case True
        have "r = p"
        proof (rule ccontr)
          assume "r \<noteq> p"
          with m have "a \<in> set (lv r)" by simp
          with True lo show False by simp
        qed
        with True z2 e2 eq show ?thesis by auto
      next
        case False
        with m have "a \<in> set (lv r)" by (cases "r = p") (auto split: if_splits)
        with md have "lo_size (pool s a) = sz \<and>
            (\<exists>k. lo_expirationTime (pool s a) = t0 + life r k)"
          by (simp add: made_def)
        with keep [OF False] show ?thesis by simp
      qed
    qed
    have a: "\<forall>q. q \<noteq> p \<longrightarrow> ?lv' q = lv q" by simp
    have b: "length (?lv' p) = Suc (length (lv p))" by simp
    have c: "Suc (length (freeLimitOrders s1)) = length (freeLimitOrders s)"
      using f2 Cons by (simp add: eq)
    from b2 have d: "bid s1 = bid s" "ask s1 = ask s" by (simp_all add: eq)
    have "\<exists>lv'. slotInv n s1 lv' \<and> made sz t0 life s1 lv' \<and>
           (\<forall>q. q \<noteq> p \<longrightarrow> lv' q = lv q) \<and> length (lv' p) = Suc (length (lv p)) \<and>
           Suc (length (freeLimitOrders s1)) = length (freeLimitOrders s) \<and>
           bid s1 = bid s \<and> ask s1 = ask s \<and> p < NUM_PRICES"
      using i1 md1 a b c d True by (intro exI [of _ ?lv'] conjI)
    with r1 show ?thesis by simp
  qed
qed

lemma orders_step:
  "slotInv n s lv \<Longrightarrow> made sz t0 life s lv \<Longrightarrow>
   \<exists>r. setupMarket_orders k p sz t0 life s = Some r \<and>
     (\<forall>s'. r = Inr s' \<longrightarrow>
        (\<exists>lv'. slotInv n s' lv' \<and> made sz t0 life s' lv' \<and>
           (\<forall>q. q \<noteq> p \<longrightarrow> lv' q = lv q) \<and> length (lv' p) = length (lv p) + (10 - k) \<and>
           length (freeLimitOrders s') + (10 - k) = length (freeLimitOrders s) \<and>
           bid s' = bid s \<and> ask s' = ask s \<and> (k < 10 \<longrightarrow> p < NUM_PRICES))) \<and>
     (p < NUM_PRICES \<and> 10 - k \<le> length (freeLimitOrders s) \<longrightarrow> (\<exists>s'. r = Inr s'))"
proof (induction k p sz t0 life s arbitrary: lv rule: setupMarket_orders.induct)
  case (1 k p sz t0 life s)
  show ?case
  proof (cases "k < 10")
    case False
    then have "setupMarket_orders k p sz t0 life s = Some (Inr s)"
      by (subst setupMarket_orders.simps) simp
    moreover from False "1.prems" have "\<exists>lv'. slotInv n s lv' \<and> made sz t0 life s lv' \<and>
           (\<forall>q. q \<noteq> p \<longrightarrow> lv' q = lv q) \<and> length (lv' p) = length (lv p) + (10 - k) \<and>
           length (freeLimitOrders s) + (10 - k) = length (freeLimitOrders s) \<and>
           bid s = bid s \<and> ask s = ask s \<and> (k < 10 \<longrightarrow> p < NUM_PRICES)"
      by (intro exI [of _ lv]) simp
    ultimately show ?thesis by simp
  next
    case True
    from add_step [OF "1.prems", of p k] obtain r1 where
      r1: "addLimitOrder p sz (t0 + life p k) False s = Some r1"
      and p1: "\<And>s1. r1 = Inr s1 \<Longrightarrow>
        \<exists>lv1. slotInv n s1 lv1 \<and> made sz t0 life s1 lv1 \<and>
           (\<forall>q. q \<noteq> p \<longrightarrow> lv1 q = lv q) \<and> length (lv1 p) = Suc (length (lv p)) \<and>
           Suc (length (freeLimitOrders s1)) = length (freeLimitOrders s) \<and>
           bid s1 = bid s \<and> ask s1 = ask s \<and> p < NUM_PRICES"
      and t1: "p < NUM_PRICES \<and> freeLimitOrders s \<noteq> [] \<longrightarrow> (\<exists>s1. r1 = Inr s1)"
      by blast
    show ?thesis
    proof (cases r1)
      case (Inl f)
      with r1 True have "setupMarket_orders k p sz t0 life s = Some (Inl f)"
        by (subst setupMarket_orders.simps) simp
      moreover from t1 Inl True have "\<not> (p < NUM_PRICES \<and> 10 - k \<le> length (freeLimitOrders s))"
        by (cases "freeLimitOrders s") auto
      ultimately show ?thesis by simp
    next
      case (Inr s1)
      from p1 [OF Inr] obtain lv1 where i1: "slotInv n s1 lv1" and m1: "made sz t0 life s1 lv1"
        and q1: "\<forall>q. q \<noteq> p \<longrightarrow> lv1 q = lv q" and l1: "length (lv1 p) = Suc (length (lv p))"
        and f1: "Suc (length (freeLimitOrders s1)) = length (freeLimitOrders s)"
        and b1: "bid s1 = bid s" "ask s1 = ask s" and pn: "p < NUM_PRICES"
        by blast
      from "1.IH" [OF True r1 Inr i1 m1] obtain r where
        r: "setupMarket_orders (Suc k) p sz t0 life s1 = Some r"
        and ih: "\<And>s'. r = Inr s' \<Longrightarrow>
          \<exists>lv'. slotInv n s' lv' \<and> made sz t0 life s' lv' \<and>
           (\<forall>q. q \<noteq> p \<longrightarrow> lv' q = lv1 q) \<and>
           length (lv' p) = length (lv1 p) + (10 - Suc k) \<and>
           length (freeLimitOrders s') + (10 - Suc k) = length (freeLimitOrders s1) \<and>
           bid s' = bid s1 \<and> ask s' = ask s1 \<and> (Suc k < 10 \<longrightarrow> p < NUM_PRICES)"
        and tot: "p < NUM_PRICES \<and> 10 - Suc k \<le> length (freeLimitOrders s1) \<longrightarrow>
           (\<exists>s'. r = Inr s')"
        by blast
      have e: "setupMarket_orders k p sz t0 life s = setupMarket_orders (Suc k) p sz t0 life s1"
        using True r1 Inr by (subst setupMarket_orders.simps) simp
      have "\<exists>lv'. slotInv n s' lv' \<and> made sz t0 life s' lv' \<and>
           (\<forall>q. q \<noteq> p \<longrightarrow> lv' q = lv q) \<and> length (lv' p) = length (lv p) + (10 - k) \<and>
           length (freeLimitOrders s') + (10 - k) = length (freeLimitOrders s) \<and>
           bid s' = bid s \<and> ask s' = ask s \<and> (k < 10 \<longrightarrow> p < NUM_PRICES)"
        if re: "r = Inr s'" for s'
      proof -
        from ih [OF re] obtain lv' where i: "slotInv n s' lv'" and m: "made sz t0 life s' lv'"
          and q: "\<forall>q. q \<noteq> p \<longrightarrow> lv' q = lv1 q"
          and l: "length (lv' p) = length (lv1 p) + (10 - Suc k)"
          and f: "length (freeLimitOrders s') + (10 - Suc k) = length (freeLimitOrders s1)"
          and b: "bid s' = bid s1" "ask s' = ask s1"
          by blast
        from q q1 have q': "\<forall>q. q \<noteq> p \<longrightarrow> lv' q = lv q" by simp
        from l l1 True have l': "length (lv' p) = length (lv p) + (10 - k)" by simp
        from f f1 True have f': "length (freeLimitOrders s') + (10 - k) = length (freeLimitOrders s)"
          by simp
        from i m q' l' f' b b1 pn show ?thesis by (intro exI [of _ lv']) simp
      qed
      moreover have "\<exists>s'. r = Inr s'"
        if "p < NUM_PRICES \<and> 10 - k \<le> length (freeLimitOrders s)"
      proof -
        from that f1 True have "10 - Suc k \<le> length (freeLimitOrders s1)" by arith
        with tot that show ?thesis by simp
      qed
      ultimately show ?thesis using e r by simp
    qed
  qed
qed

lemma down_step:
  "slotInv n s lv \<Longrightarrow> made sz t0 life s lv \<Longrightarrow> 0 < lo \<Longrightarrow>
   \<exists>r. setupMarket_down p lo sz t0 life s = Some r \<and>
     (\<forall>s'. r = Inr s' \<longrightarrow>
        (\<exists>lv'. slotInv n s' lv' \<and> made sz t0 life s' lv' \<and>
           (\<forall>q. lo \<le> q \<and> q \<le> p \<longrightarrow> length (lv' q) = length (lv q) + 10) \<and>
           (\<forall>q. \<not> (lo \<le> q \<and> q \<le> p) \<longrightarrow> lv' q = lv q) \<and>
           length (freeLimitOrders s') + 10 * (Suc (unat p) - unat lo) =
             length (freeLimitOrders s) \<and>
           bid s' = bid s \<and> ask s' = ask s)) \<and>
     (p < NUM_PRICES \<and> 10 * (Suc (unat p) - unat lo) \<le> length (freeLimitOrders s) \<longrightarrow>
        (\<exists>s'. r = Inr s'))"
proof (induction p lo sz t0 life s arbitrary: lv rule: setupMarket_down.induct)
  case (1 p lo sz t0 life s)
  note inv = "1.prems"(1) and md = "1.prems"(2) and lo = "1.prems"(3)
  show ?case
  proof (cases "lo \<le> p")
    case False
    then have e: "setupMarket_down p lo sz t0 life s = Some (Inr s)"
      by (subst setupMarket_down.simps) simp
    from False have "unat p < unat lo" by (simp add: word_le_nat_alt)
    then have z: "Suc (unat p) - unat lo = 0" by simp
    have "\<exists>lv'. slotInv n s lv' \<and> made sz t0 life s lv' \<and>
           (\<forall>q. lo \<le> q \<and> q \<le> p \<longrightarrow> length (lv' q) = length (lv q) + 10) \<and>
           (\<forall>q. \<not> (lo \<le> q \<and> q \<le> p) \<longrightarrow> lv' q = lv q) \<and>
           length (freeLimitOrders s) + 10 * (Suc (unat p) - unat lo) =
             length (freeLimitOrders s) \<and>
           bid s = bid s \<and> ask s = ask s"
      using inv md False z by (intro exI [of _ lv]) auto
    with e show ?thesis by simp
  next
    case True
    from lo True have p0: "p \<noteq> 0" by auto
    from True have lop: "unat lo \<le> unat p" by (simp add: word_le_nat_alt)
    from p0 have up1: "unat (p - 1) = unat p - 1" by (simp add: unat_minus_one)
    from p0 have upos: "0 < unat p" by (simp add: unat_gt_0)
    from orders_step [OF inv md, of 0 p] obtain r1 where
      r1: "setupMarket_orders 0 p sz t0 life s = Some r1"
      and p1: "\<And>s1. r1 = Inr s1 \<Longrightarrow>
        \<exists>lv1. slotInv n s1 lv1 \<and> made sz t0 life s1 lv1 \<and>
           (\<forall>q. q \<noteq> p \<longrightarrow> lv1 q = lv q) \<and> length (lv1 p) = length (lv p) + (10 - 0) \<and>
           length (freeLimitOrders s1) + (10 - 0) = length (freeLimitOrders s) \<and>
           bid s1 = bid s \<and> ask s1 = ask s \<and> ((0::nat) < 10 \<longrightarrow> p < NUM_PRICES)"
      and t1: "p < NUM_PRICES \<and> 10 - 0 \<le> length (freeLimitOrders s) \<longrightarrow> (\<exists>s1. r1 = Inr s1)"
      by blast
    show ?thesis
    proof (cases r1)
      case (Inl f)
      with r1 True have "setupMarket_down p lo sz t0 life s = Some (Inl f)"
        by (subst setupMarket_down.simps) simp
      moreover from t1 Inl lop
      have "\<not> (p < NUM_PRICES \<and> 10 * (Suc (unat p) - unat lo) \<le> length (freeLimitOrders s))"
        by auto
      ultimately show ?thesis by simp
    next
      case (Inr s1)
      from p1 [OF Inr] obtain lv1 where i1: "slotInv n s1 lv1" and m1: "made sz t0 life s1 lv1"
        and q1: "\<forall>q. q \<noteq> p \<longrightarrow> lv1 q = lv q" and l1: "length (lv1 p) = length (lv p) + 10"
        and f1: "length (freeLimitOrders s1) + 10 = length (freeLimitOrders s)"
        and b1: "bid s1 = bid s" "ask s1 = ask s" and pn: "p < NUM_PRICES"
        by auto
      from "1.IH" [OF True r1 Inr i1 m1 lo] obtain r where
        r: "setupMarket_down (p - 1) lo sz t0 life s1 = Some r"
        and ih: "\<And>s'. r = Inr s' \<Longrightarrow>
          \<exists>lv'. slotInv n s' lv' \<and> made sz t0 life s' lv' \<and>
           (\<forall>q. lo \<le> q \<and> q \<le> p - 1 \<longrightarrow> length (lv' q) = length (lv1 q) + 10) \<and>
           (\<forall>q. \<not> (lo \<le> q \<and> q \<le> p - 1) \<longrightarrow> lv' q = lv1 q) \<and>
           length (freeLimitOrders s') + 10 * (Suc (unat (p - 1)) - unat lo) =
             length (freeLimitOrders s1) \<and>
           bid s' = bid s1 \<and> ask s' = ask s1"
        and tot: "p - 1 < NUM_PRICES \<and>
           10 * (Suc (unat (p - 1)) - unat lo) \<le> length (freeLimitOrders s1) \<longrightarrow>
           (\<exists>s'. r = Inr s')"
        by blast
      have e: "setupMarket_down p lo sz t0 life s = setupMarket_down (p - 1) lo sz t0 life s1"
        using True r1 Inr by (subst setupMarket_down.simps) simp
      have le1: "q \<le> p - 1 \<longleftrightarrow> q \<le> p \<and> q \<noteq> p" for q
      proof -
        have "q \<le> p - 1 \<longleftrightarrow> unat q \<le> unat p - 1" by (simp add: word_le_nat_alt up1)
        also have "\<dots> \<longleftrightarrow> unat q \<le> unat p \<and> unat q \<noteq> unat p" using upos by arith
        also have "\<dots> \<longleftrightarrow> q \<le> p \<and> q \<noteq> p" by (simp add: word_le_nat_alt word_unat_eq_iff)
        finally show ?thesis .
      qed
      have cnt: "10 * (Suc (unat p) - unat lo) = 10 + 10 * (Suc (unat (p - 1)) - unat lo)"
        using lop upos up1 by simp
      have "\<exists>lv'. slotInv n s' lv' \<and> made sz t0 life s' lv' \<and>
           (\<forall>q. lo \<le> q \<and> q \<le> p \<longrightarrow> length (lv' q) = length (lv q) + 10) \<and>
           (\<forall>q. \<not> (lo \<le> q \<and> q \<le> p) \<longrightarrow> lv' q = lv q) \<and>
           length (freeLimitOrders s') + 10 * (Suc (unat p) - unat lo) =
             length (freeLimitOrders s) \<and>
           bid s' = bid s \<and> ask s' = ask s"
        if re: "r = Inr s'" for s'
      proof -
        from ih [OF re] obtain lv' where i: "slotInv n s' lv'" and m: "made sz t0 life s' lv'"
          and qin: "\<forall>q. lo \<le> q \<and> q \<le> p - 1 \<longrightarrow> length (lv' q) = length (lv1 q) + 10"
          and qout: "\<forall>q. \<not> (lo \<le> q \<and> q \<le> p - 1) \<longrightarrow> lv' q = lv1 q"
          and f: "length (freeLimitOrders s') + 10 * (Suc (unat (p - 1)) - unat lo) =
             length (freeLimitOrders s1)"
          and b: "bid s' = bid s1" "ask s' = ask s1"
          by blast
        have a: "length (lv' q) = length (lv q) + 10" if "lo \<le> q \<and> q \<le> p" for q
        proof (cases "q = p")
          case True
          with qout le1 [of p] have "lv' q = lv1 q" by simp
          with True l1 show ?thesis by simp
        next
          case False
          with that le1 [of q] qin have "length (lv' q) = length (lv1 q) + 10" by simp
          with False q1 show ?thesis by simp
        qed
        have c: "lv' q = lv q" if "\<not> (lo \<le> q \<and> q \<le> p)" for q
        proof -
          from that True have "q \<noteq> p" by auto
          moreover from that le1 [of q] have "\<not> (lo \<le> q \<and> q \<le> p - 1)" by blast
          ultimately show ?thesis using qout q1 by simp
        qed
        from f f1 cnt have d: "length (freeLimitOrders s') + 10 * (Suc (unat p) - unat lo) =
             length (freeLimitOrders s)" by simp
        from i m a c d b b1 show ?thesis by (intro exI [of _ lv']) simp
      qed
      moreover have "\<exists>s'. r = Inr s'"
        if h: "p < NUM_PRICES \<and> 10 * (Suc (unat p) - unat lo) \<le> length (freeLimitOrders s)"
      proof -
        from h have "unat p < unat NUM_PRICES" by (simp add: word_less_nat_alt)
        with up1 have "p - 1 < NUM_PRICES" by (simp add: word_less_nat_alt)
        moreover from h cnt f1
        have "10 * (Suc (unat (p - 1)) - unat lo) \<le> length (freeLimitOrders s1)" by simp
        ultimately show ?thesis using tot by simp
      qed
      ultimately show ?thesis using e r by simp
    qed
  qed
qed

lemma up_step:
  "slotInv n s lv \<Longrightarrow> made sz t0 life s lv \<Longrightarrow>
   \<exists>r. setupMarket_up p hi sz t0 life s = Some r \<and>
     (\<forall>s'. r = Inr s' \<longrightarrow>
        (\<exists>lv'. slotInv n s' lv' \<and> made sz t0 life s' lv' \<and>
           (\<forall>q. p \<le> q \<and> q \<le> hi \<longrightarrow> length (lv' q) = length (lv q) + 10) \<and>
           (\<forall>q. \<not> (p \<le> q \<and> q \<le> hi) \<longrightarrow> lv' q = lv q) \<and>
           length (freeLimitOrders s') + 10 * (Suc (unat hi) - unat p) =
             length (freeLimitOrders s) \<and>
           bid s' = bid s \<and> ask s' = ask s)) \<and>
     (hi < NUM_PRICES \<and> 10 * (Suc (unat hi) - unat p) \<le> length (freeLimitOrders s) \<longrightarrow>
        (\<exists>s'. r = Inr s'))"
proof (induction p hi sz t0 life s arbitrary: lv rule: setupMarket_up.induct)
  case (1 p hi sz t0 life s)
  note inv = "1.prems"(1) and md = "1.prems"(2)
  show ?case
  proof (cases "p \<le> hi")
    case False
    then have e: "setupMarket_up p hi sz t0 life s = Some (Inr s)"
      by (subst setupMarket_up.simps) simp
    from False have "unat hi < unat p" by (simp add: word_le_nat_alt)
    then have z: "Suc (unat hi) - unat p = 0" by simp
    have "\<exists>lv'. slotInv n s lv' \<and> made sz t0 life s lv' \<and>
           (\<forall>q. p \<le> q \<and> q \<le> hi \<longrightarrow> length (lv' q) = length (lv q) + 10) \<and>
           (\<forall>q. \<not> (p \<le> q \<and> q \<le> hi) \<longrightarrow> lv' q = lv q) \<and>
           length (freeLimitOrders s) + 10 * (Suc (unat hi) - unat p) =
             length (freeLimitOrders s) \<and>
           bid s = bid s \<and> ask s = ask s"
      using inv md False z by (intro exI [of _ lv]) auto
    with e show ?thesis by simp
  next
    case True
    from True have php: "unat p \<le> unat hi" by (simp add: word_le_nat_alt)
    from orders_step [OF inv md, of 0 p] obtain r1 where
      r1: "setupMarket_orders 0 p sz t0 life s = Some r1"
      and p1: "\<And>s1. r1 = Inr s1 \<Longrightarrow>
        \<exists>lv1. slotInv n s1 lv1 \<and> made sz t0 life s1 lv1 \<and>
           (\<forall>q. q \<noteq> p \<longrightarrow> lv1 q = lv q) \<and> length (lv1 p) = length (lv p) + (10 - 0) \<and>
           length (freeLimitOrders s1) + (10 - 0) = length (freeLimitOrders s) \<and>
           bid s1 = bid s \<and> ask s1 = ask s \<and> ((0::nat) < 10 \<longrightarrow> p < NUM_PRICES)"
      and t1: "p < NUM_PRICES \<and> 10 - 0 \<le> length (freeLimitOrders s) \<longrightarrow> (\<exists>s1. r1 = Inr s1)"
      by blast
    show ?thesis
    proof (cases r1)
      case (Inl f)
      with r1 True have "setupMarket_up p hi sz t0 life s = Some (Inl f)"
        by (subst setupMarket_up.simps) simp
      moreover from True have "hi < NUM_PRICES \<Longrightarrow> p < NUM_PRICES" by simp
      with t1 Inl php
      have "\<not> (hi < NUM_PRICES \<and> 10 * (Suc (unat hi) - unat p) \<le> length (freeLimitOrders s))"
        by auto
      ultimately show ?thesis by simp
    next
      case (Inr s1)
      from p1 [OF Inr] obtain lv1 where i1: "slotInv n s1 lv1" and m1: "made sz t0 life s1 lv1"
        and q1: "\<forall>q. q \<noteq> p \<longrightarrow> lv1 q = lv q" and l1: "length (lv1 p) = length (lv p) + 10"
        and f1: "length (freeLimitOrders s1) + 10 = length (freeLimitOrders s)"
        and b1: "bid s1 = bid s" "ask s1 = ask s" and pn: "p < NUM_PRICES"
        by auto
      from pn have up1: "unat (p + 1) = Suc (unat p)" by (rule word_succ_unat)
      from "1.IH" [OF True r1 Inr i1 m1] obtain r where
        r: "setupMarket_up (p + 1) hi sz t0 life s1 = Some r"
        and ih: "\<And>s'. r = Inr s' \<Longrightarrow>
          \<exists>lv'. slotInv n s' lv' \<and> made sz t0 life s' lv' \<and>
           (\<forall>q. p + 1 \<le> q \<and> q \<le> hi \<longrightarrow> length (lv' q) = length (lv1 q) + 10) \<and>
           (\<forall>q. \<not> (p + 1 \<le> q \<and> q \<le> hi) \<longrightarrow> lv' q = lv1 q) \<and>
           length (freeLimitOrders s') + 10 * (Suc (unat hi) - unat (p + 1)) =
             length (freeLimitOrders s1) \<and>
           bid s' = bid s1 \<and> ask s' = ask s1"
        and tot: "hi < NUM_PRICES \<and>
           10 * (Suc (unat hi) - unat (p + 1)) \<le> length (freeLimitOrders s1) \<longrightarrow>
           (\<exists>s'. r = Inr s')"
        by blast
      have e: "setupMarket_up p hi sz t0 life s = setupMarket_up (p + 1) hi sz t0 life s1"
        using True r1 Inr by (subst setupMarket_up.simps) simp
      have le1: "p + 1 \<le> q \<longleftrightarrow> p \<le> q \<and> q \<noteq> p" for q
      proof -
        have "p + 1 \<le> q \<longleftrightarrow> Suc (unat p) \<le> unat q" by (simp add: word_le_nat_alt up1)
        also have "\<dots> \<longleftrightarrow> unat p \<le> unat q \<and> unat q \<noteq> unat p" by arith
        also have "\<dots> \<longleftrightarrow> p \<le> q \<and> q \<noteq> p" by (simp add: word_le_nat_alt word_unat_eq_iff)
        finally show ?thesis .
      qed
      have cnt: "10 * (Suc (unat hi) - unat p) = 10 + 10 * (Suc (unat hi) - unat (p + 1))"
        using php up1 by simp
      have "\<exists>lv'. slotInv n s' lv' \<and> made sz t0 life s' lv' \<and>
           (\<forall>q. p \<le> q \<and> q \<le> hi \<longrightarrow> length (lv' q) = length (lv q) + 10) \<and>
           (\<forall>q. \<not> (p \<le> q \<and> q \<le> hi) \<longrightarrow> lv' q = lv q) \<and>
           length (freeLimitOrders s') + 10 * (Suc (unat hi) - unat p) =
             length (freeLimitOrders s) \<and>
           bid s' = bid s \<and> ask s' = ask s"
        if re: "r = Inr s'" for s'
      proof -
        from ih [OF re] obtain lv' where i: "slotInv n s' lv'" and m: "made sz t0 life s' lv'"
          and qin: "\<forall>q. p + 1 \<le> q \<and> q \<le> hi \<longrightarrow> length (lv' q) = length (lv1 q) + 10"
          and qout: "\<forall>q. \<not> (p + 1 \<le> q \<and> q \<le> hi) \<longrightarrow> lv' q = lv1 q"
          and f: "length (freeLimitOrders s') + 10 * (Suc (unat hi) - unat (p + 1)) =
             length (freeLimitOrders s1)"
          and b: "bid s' = bid s1" "ask s' = ask s1"
          by blast
        have a: "length (lv' q) = length (lv q) + 10" if "p \<le> q \<and> q \<le> hi" for q
        proof (cases "q = p")
          case True
          with qout le1 [of p] have "lv' q = lv1 q" by simp
          with True l1 show ?thesis by simp
        next
          case False
          with that le1 [of q] qin have "length (lv' q) = length (lv1 q) + 10" by simp
          with False q1 show ?thesis by simp
        qed
        have c: "lv' q = lv q" if "\<not> (p \<le> q \<and> q \<le> hi)" for q
        proof -
          from that True have "q \<noteq> p" by auto
          moreover from that le1 [of q] have "\<not> (p + 1 \<le> q \<and> q \<le> hi)" by blast
          ultimately show ?thesis using qout q1 by simp
        qed
        from f f1 cnt have d: "length (freeLimitOrders s') + 10 * (Suc (unat hi) - unat p) =
             length (freeLimitOrders s)" by simp
        from i m a c d b b1 show ?thesis by (intro exI [of _ lv']) simp
      qed
      moreover have "\<exists>s'. r = Inr s'"
        if h: "hi < NUM_PRICES \<and> 10 * (Suc (unat hi) - unat p) \<le> length (freeLimitOrders s)"
      proof -
        from h cnt f1
        have "10 * (Suc (unat hi) - unat (p + 1)) \<le> length (freeLimitOrders s1)" by simp
        with h show ?thesis using tot by simp
      qed
      ultimately show ?thesis using e r by simp
    qed
  qed
qed

lemma fullCount_all:
  "sum_list (map unat qs) = unat S \<Longrightarrow> fullCount S qs = length qs"
proof (induction qs arbitrary: S)
  case Nil
  then show ?case by simp
next
  case (Cons q qs)
  from Cons.prems have le: "unat q \<le> unat S" by simp
  then have qS: "q \<le> S" by (simp add: word_le_nat_alt)
  then have "unat (S - q) = unat S - unat q" by (rule unat_sub)
  with Cons.prems have "sum_list (map unat qs) = unat (S - q)" by simp
  from Cons.IH [OF this] qS show ?case by simp
qed

lemma made_live:
  assumes md: "made sz t0 life s lv" and fr: "\<forall>k. t < t0 + life r k"
  shows "liveAt s lv t r = lv r \<and> liveQty s lv t r = length (lv r) * unat sz"
proof -
  have ne: "\<not> expired s t a" if "a \<in> set (lv r)" for a
  proof -
    from md that obtain k where "lo_expirationTime (pool s a) = t0 + life r k"
      unfolding made_def by blast
    with fr show ?thesis by (simp add: expired_def not_le)
  qed
  then have l: "liveAt s lv t r = lv r" by (simp add: liveAt_def)
  have m: "map (\<lambda>a. unat (lo_size (pool s a))) (lv r) = map (\<lambda>a. unat sz) (lv r)"
  proof (rule map_cong [OF refl])
    fix a assume "a \<in> set (lv r)"
    with md show "unat (lo_size (pool s a)) = unat sz" by (simp add: made_def)
  qed
  have "liveQty s lv t r = sum_list (map (\<lambda>a. unat (lo_size (pool s a))) (lv r))"
    by (simp only: liveQty_def l)
  also have "\<dots> = sum_list (map (\<lambda>a. unat sz) (lv r))"
    by (rule arg_cong [OF m])
  also have "\<dots> = length (lv r) * unat sz" by (simp add: sum_list_triv)
  finally show ?thesis using l by simp
qed

lemma exact_buy_empties:
  assumes inv: "slotInv n s lv" and p: "ask s < NUM_PRICES"
    and hd: "limitOrderHead s (ask s) \<noteq> None" and S: "0 < S"
    and q: "liveQty s lv t (ask s) = unat S"
  shows "\<exists>ou s'. marketBuy S t s = Some (Inr (ou, s')) \<and> (\<exists>lv'. slotInv n s' lv') \<and>
     bid s' = bid s \<and> ask s' = ask s \<and> limitOrderHead s' (ask s) = None"
proof -
  let ?p = "ask s"
  let ?live = "liveAt s lv t ?p"
  from level_step2_ask [OF inv p, of t S 0 False] obtain s1 sz' ou' s2 where
    u: "updateLimitOrders ?p t (s\<lparr>ask := ?p\<rparr>) = Some (Inr s1)"
    and f: "fillOrders ?p S 0 False s1 = Some (Inr (sz', ou', s2))"
    and i2: "slotInv n s2 (lv(?p := drop (fullCount S (sizes s ?live)) ?live))"
    and rem: "sz' = S - quantity32 (takenAt S (resting s t ?p (lv ?p)))"
    and b2: "bid s2 = bid s" and a2: "ask s2 = ?p"
    by blast
  from remaining_nat [of sz' S s t ?p lv, OF rem] q have "unat sz' = 0" by simp
  then have z: "sz' = 0" by (simp add: unat_eq_0)
  from p have np: "\<not> NUM_PRICES \<le> ?p" by (simp add: not_le)
  have l0: "marketBuy_loop (?p + 1) t 0 ou' s2 = Some (Inr (ou', s2))"
    by (subst marketBuy_loop.simps) simp
  from u have u': "updateLimitOrders ?p t s = Some (Inr s1)" by simp
  have "marketBuy S t s = Some (Inr (ou', s2))"
    unfolding marketBuy_def
    by (subst marketBuy_loop.simps) (use S np hd u' f z l0 in auto)
  moreover have "limitOrderHead s2 ?p = None"
  proof -
    have "sum_list (map unat (sizes s ?live)) = unat S"
      using q by (simp add: liveQty_def sizes_def comp_def)
    then have "fullCount S (sizes s ?live) = length ?live"
      by (simp add: fullCount_all sizes_def)
    moreover from i2 have "level s2 ?p ((lv(?p := drop (fullCount S (sizes s ?live)) ?live)) ?p)"
      by (rule slotInv_level)
    ultimately have "level s2 ?p []" by simp
    then show ?thesis by (simp add: level_def)
  qed
  ultimately show ?thesis using i2 b2 a2 by blast
qed

lemma sweep_fresh:
  "slotInv n s lv \<Longrightarrow> \<forall>r a. a \<in> set (lv r) \<longrightarrow> \<not> expired s t a \<Longrightarrow>
   \<exists>s'. updateAllLimitOrders p t s = Some (Inr s') \<and> slotInv n s' lv \<and>
     (\<forall>a. lo_size (pool s' a) = lo_size (pool s a) \<and>
          lo_expirationTime (pool s' a) = lo_expirationTime (pool s a)) \<and>
     bid s' = bid s \<and> ask s' = ask s"
proof (induction p t s rule: updateAllLimitOrders.induct)
  case (1 p t s)
  note inv = "1.prems"(1) and fr = "1.prems"(2)
  show ?case
  proof (cases "p < NUM_PRICES")
    case False
    then have "updateAllLimitOrders p t s = Some (Inr s)"
      by (subst updateAllLimitOrders.simps) simp
    with inv show ?thesis by simp
  next
    case True
    from fr have "filter (\<lambda>a. \<not> expired s t a) (lv p) = lv p" by simp
    then have same: "lv(p := filter (\<lambda>a. \<not> expired s t a) (lv p)) = lv" by simp
    from slotInv_updateLimitOrders [OF inv True, of t] obtain s1 where
      r1: "updateLimitOrders p t s = Some (Inr s1)"
      and i1': "slotInv n s1 (lv(p := filter (\<lambda>a. \<not> expired s t a) (lv p)))"
      and eq1: "s1 = s\<lparr>pool := pool s1, freeLimitOrders := freeLimitOrders s1,
             limitOrderHead := (limitOrderHead s)(p := limitOrderHead s1 p)\<rparr>"
      and nxt1: "\<forall>a. pool s1 a = (pool s a)\<lparr>lo_next := lo_next (pool s1 a)\<rparr>"
      by blast
    from i1' same have i1: "slotInv n s1 lv" by simp
    have ba: "bid s1 = bid s" "ask s1 = ask s" by (subst eq1, simp)+
    have f1: "\<And>a. lo_size (pool s1 a) = lo_size (pool s a)"
      "\<And>a. lo_expirationTime (pool s1 a) = lo_expirationTime (pool s a)"
      by (subst nxt1 [rule_format], simp)+
    from fr f1 have fr1: "\<forall>r a. a \<in> set (lv r) \<longrightarrow> \<not> expired s1 t a"
      by (simp add: expired_def)
    from "1.IH" [OF True r1 refl i1 fr1] obtain s' where
      r: "updateAllLimitOrders (p + 1) t s1 = Some (Inr s')"
      and i: "slotInv n s' lv"
      and fl: "\<forall>a. lo_size (pool s' a) = lo_size (pool s1 a) \<and>
          lo_expirationTime (pool s' a) = lo_expirationTime (pool s1 a)"
      and b: "bid s' = bid s1" "ask s' = ask s1"
      by blast
    have "updateAllLimitOrders p t s = updateAllLimitOrders (p + 1) t s1"
      using True r1 by (subst updateAllLimitOrders.simps) simp
    with r i fl f1 b ba show ?thesis by simp
  qed
qed

lemma level_head: "level s p as \<Longrightarrow> as \<noteq> [] \<Longrightarrow> limitOrderHead s p \<noteq> None"
proof
  assume "level s p as" and "as \<noteq> []" and "limitOrderHead s p = None"
  then show False by (simp add: level_def)
qed

lemma setupBook_free [simp]: "length (freeLimitOrders (setupBook n st re)) = n"
  by (simp add: setupBook_def)

lemma unat_add32:
  "unat (x::u32) + unat y < 4294967296 \<Longrightarrow> unat (x + y) = unat x + unat y"
  using unat_add_lem [of x y] by simp

lemma setupMarket_built:
  assumes b: "10 < b" and sp: "0 < spread" and rng: "unat b + unat spread < unat NUM_PRICES"
  shows "\<exists>r. setupMarket b spread sz t0 life (setupBook n st re) = Some r \<and>
     (\<forall>s. r = Inr s \<longrightarrow>
        (\<exists>lv. slotInv n s lv \<and> made sz t0 life s lv \<and> bid s = b \<and> ask s = b + spread \<and>
           length (lv b) = 10 \<and> length (lv (b + spread)) = 10)) \<and>
     (220 \<le> n \<and> unat b + unat spread + 10 < unat NUM_PRICES \<longrightarrow> (\<exists>s. r = Inr s))"
proof -
  let ?s0 = "(setupBook n st re)\<lparr>bid := b, ask := b + spread\<rparr>"
  let ?a = "b + spread"
  have N: "unat NUM_PRICES = 100000" by (simp add: NUM_PRICES_def)
  from b have b10: "10 < unat b" by (simp add: word_less_nat_alt)
  from b have "(10::u32) \<le> b" by simp
  then have ulo: "unat (b - 10) = unat b - 10" by (simp add: unat_sub)
  with b10 have "unat (b - 10) \<noteq> 0" by simp
  then have lo0: "0 < b - 10" by (simp add: word_neq_0_conv [symmetric] unat_eq_0)
  from sp have sp0: "0 < unat spread" by (simp add: word_less_nat_alt)
  from rng N have "unat b + unat spread < 4294967296" by simp
  then have ua: "unat ?a = unat b + unat spread" by (rule unat_add32)
  from rng N ua have "unat ?a + unat (10::u32) < 4294967296" by simp
  then have "unat (?a + 10) = unat ?a + unat (10::u32)" by (rule unat_add32)
  with ua have uhi: "unat (?a + 10) = unat b + unat spread + 10" by simp
  have bN: "b < NUM_PRICES" using rng by (simp add: word_less_nat_alt)
  have i0: "slotInv n ?s0 (\<lambda>_. [])" using slotInv_setupBook [of n st re] by simp
  have m0: "made sz t0 life ?s0 (\<lambda>_. [])" by (simp add: made_def)
  have f0: "length (freeLimitOrders ?s0) = n" by simp
  have c1: "10 * (Suc (unat b) - unat (b - 10)) = 110" using ulo b10 by simp
  have c2: "10 * (Suc (unat (?a + 10)) - unat ?a) = 110" using ua uhi by simp
  from down_step [OF i0 m0 lo0, of b] obtain r1 where
    r1: "setupMarket_down b (b - 10) sz t0 life ?s0 = Some r1"
    and p1: "\<And>s1. r1 = Inr s1 \<Longrightarrow>
        \<exists>lv1. slotInv n s1 lv1 \<and> made sz t0 life s1 lv1 \<and>
           (\<forall>q. b - 10 \<le> q \<and> q \<le> b \<longrightarrow> length (lv1 q) = length ([] :: ref list) + 10) \<and>
           (\<forall>q. \<not> (b - 10 \<le> q \<and> q \<le> b) \<longrightarrow> lv1 q = []) \<and>
           length (freeLimitOrders s1) + 10 * (Suc (unat b) - unat (b - 10)) =
             length (freeLimitOrders ?s0) \<and>
           bid s1 = bid ?s0 \<and> ask s1 = ask ?s0"
    and t1: "b < NUM_PRICES \<and> 10 * (Suc (unat b) - unat (b - 10)) \<le> length (freeLimitOrders ?s0)
        \<longrightarrow> (\<exists>s1. r1 = Inr s1)"
    by blast
  have inb: "b - 10 \<le> b \<and> b \<le> b" using ulo by (simp add: word_le_nat_alt)
  have outa: "\<not> (b - 10 \<le> ?a \<and> ?a \<le> b)" using ua sp0 by (simp add: word_le_nat_alt)
  have ina: "?a \<le> ?a \<and> ?a \<le> ?a + 10" using ua uhi by (simp add: word_le_nat_alt)
  have outb: "\<not> (?a \<le> b \<and> b \<le> ?a + 10)" using ua sp0 by (simp add: word_le_nat_alt)
  show ?thesis
  proof (cases r1)
    case (Inl f)
    with r1 have "setupMarket b spread sz t0 life (setupBook n st re) = Some (Inl f)"
      by (simp add: setupMarket_def)
    moreover from t1 Inl bN c1 f0 have "\<not> 220 \<le> n" by auto
    ultimately show ?thesis by simp
  next
    case (Inr s1)
    from p1 [OF Inr] obtain lv1 where i1: "slotInv n s1 lv1" and m1: "made sz t0 life s1 lv1"
      and in1: "\<forall>q. b - 10 \<le> q \<and> q \<le> b \<longrightarrow> length (lv1 q) = length ([] :: ref list) + 10"
      and out1: "\<forall>q. \<not> (b - 10 \<le> q \<and> q \<le> b) \<longrightarrow> lv1 q = []"
      and fr1: "length (freeLimitOrders s1) + 10 * (Suc (unat b) - unat (b - 10)) =
             length (freeLimitOrders ?s0)"
      and b1: "bid s1 = bid ?s0" and a1: "ask s1 = ask ?s0"
      by blast
    from b1 a1 have ba1: "bid s1 = b" "ask s1 = ?a" by simp_all
    from fr1 c1 f0 have fr1': "length (freeLimitOrders s1) + 110 = n" by simp
    from in1 inb have l1b: "length (lv1 b) = 10" by simp
    from out1 outa have l1a: "lv1 ?a = []" by simp
    from up_step [OF i1 m1, of ?a "?a + 10"] obtain r2 where
      r2: "setupMarket_up ?a (?a + 10) sz t0 life s1 = Some r2"
      and p2: "\<And>s2. r2 = Inr s2 \<Longrightarrow>
        \<exists>lv2. slotInv n s2 lv2 \<and> made sz t0 life s2 lv2 \<and>
           (\<forall>q. ?a \<le> q \<and> q \<le> ?a + 10 \<longrightarrow> length (lv2 q) = length (lv1 q) + 10) \<and>
           (\<forall>q. \<not> (?a \<le> q \<and> q \<le> ?a + 10) \<longrightarrow> lv2 q = lv1 q) \<and>
           length (freeLimitOrders s2) + 10 * (Suc (unat (?a + 10)) - unat ?a) =
             length (freeLimitOrders s1) \<and>
           bid s2 = bid s1 \<and> ask s2 = ask s1"
      and t2: "?a + 10 < NUM_PRICES \<and>
           10 * (Suc (unat (?a + 10)) - unat ?a) \<le> length (freeLimitOrders s1)
        \<longrightarrow> (\<exists>s2. r2 = Inr s2)"
      by blast
    have e: "setupMarket b spread sz t0 life (setupBook n st re) = Some r2"
      using r1 Inr r2 ba1 by (simp add: setupMarket_def)
    have "\<exists>lv. slotInv n s lv \<and> made sz t0 life s lv \<and> bid s = b \<and> ask s = ?a \<and>
           length (lv b) = 10 \<and> length (lv ?a) = 10" if re: "r2 = Inr s" for s
    proof -
      from p2 [OF re] obtain lv2 where i2: "slotInv n s lv2" and m2: "made sz t0 life s lv2"
        and in2: "\<forall>q. ?a \<le> q \<and> q \<le> ?a + 10 \<longrightarrow> length (lv2 q) = length (lv1 q) + 10"
        and out2: "\<forall>q. \<not> (?a \<le> q \<and> q \<le> ?a + 10) \<longrightarrow> lv2 q = lv1 q"
        and b2: "bid s = bid s1" "ask s = ask s1"
        by blast
      from in2 ina l1a have "length (lv2 ?a) = 10" by simp
      moreover from out2 outb l1b have "length (lv2 b) = 10" by simp
      ultimately show ?thesis using i2 m2 b2 ba1 by (intro exI [of _ lv2]) simp
    qed
    moreover have "\<exists>s. r2 = Inr s"
      if h: "220 \<le> n \<and> unat b + unat spread + 10 < unat NUM_PRICES"
    proof -
      from h uhi have "?a + 10 < NUM_PRICES" by (simp add: word_less_nat_alt)
      moreover from h fr1' c2
      have "10 * (Suc (unat (?a + 10)) - unat ?a) \<le> length (freeLimitOrders s1)" by simp
      ultimately show ?thesis using t2 by simp
    qed
    ultimately show ?thesis using e by simp
  qed
qed

lemma setupMarket_bookInv:
  assumes b: "10 < b" and sp: "0 < spread" and rng: "unat b + unat spread < unat NUM_PRICES"
    and r: "setupMarket b spread sz t0 life (setupBook n st re) = Some (Inr s)"
  shows "bookInv n s \<and> limitOrderHead s (bid s) \<noteq> None \<and> limitOrderHead s (ask s) \<noteq> None"
proof -
  from setupMarket_built [OF b sp rng, of sz t0 life n st re] r obtain lv where
    i: "slotInv n s lv" and bs: "bid s = b" and as: "ask s = b + spread"
    and lb: "length (lv b) = 10" and la: "length (lv (b + spread)) = 10"
    by auto
  have N: "unat NUM_PRICES = 100000" by (simp add: NUM_PRICES_def)
  from rng N have "unat b + unat spread < 4294967296" by simp
  then have ua: "unat (b + spread) = unat b + unat spread" by (rule unat_add32)
  from sp have sp0: "0 < unat spread" by (simp add: word_less_nat_alt)
  from ua sp0 have lt: "b < b + spread" by (simp add: word_less_nat_alt)
  from ua rng have aN: "b + spread < NUM_PRICES" by (simp add: word_less_nat_alt)
  from lb have "lv b \<noteq> []" by auto
  with slotInv_level [OF i, of b] have hb: "limitOrderHead s b \<noteq> None" by (rule level_head)
  from la have "lv (b + spread) \<noteq> []" by auto
  with slotInv_level [OF i, of "b + spread"] have ha: "limitOrderHead s (b + spread) \<noteq> None"
    by (rule level_head)
  from i lt aN bs as have "bookInv n s" by (auto simp: bookInv_def)
  with hb ha bs as show ?thesis by simp
qed

lemma engine_inv:
  assumes b: "10 < b" and sp: "0 < spread" and rng: "unat b + unat spread < unat NUM_PRICES"
    and ev: "\<forall>e \<in> set es. drawn e"
  shows "\<exists>r. engine n st re b spread sz t0 life es = Some r \<and>
     (\<forall>s. r = Inr s \<longrightarrow> bid s < ask s \<and> ask s < NUM_PRICES \<and> (\<exists>lv. slotInv n s lv) \<and>
        (es = [] \<or> last es = Refresh \<longrightarrow>
           limitOrderHead s (bid s) \<noteq> None \<and> limitOrderHead s (ask s) \<noteq> None))"
proof -
  from setupMarket_built [OF b sp rng, of sz t0 life n st re] obtain r0 where
    r0: "setupMarket b spread sz t0 life (setupBook n st re) = Some r0" by blast
  show ?thesis
  proof (cases r0)
    case (Inl f)
    with r0 show ?thesis by (simp add: engine_def)
  next
    case (Inr s0)
    with r0 have s0: "setupMarket b spread sz t0 life (setupBook n st re) = Some (Inr s0)"
      by simp
    from setupMarket_bookInv [OF b sp rng s0] have i0: "bookInv n s0"
      and h0: "limitOrderHead s0 (bid s0) \<noteq> None" "limitOrderHead s0 (ask s0) \<noteq> None"
      by simp_all
    from s0 have e: "engine n st re b spread sz t0 life es = run es s0"
      by (simp add: engine_def)
    from run_inv [OF i0 ev] obtain r where r: "run es s0 = Some r"
      and p: "\<forall>s'. r = Inr s' \<longrightarrow> bookInv n s' \<and>
               (es \<noteq> [] \<and> last es = Refresh \<longrightarrow> limitOrderHead s' (bid s') \<noteq> None \<and>
                  limitOrderHead s' (ask s') \<noteq> None)"
      by blast
    have "bid s < ask s \<and> ask s < NUM_PRICES \<and> (\<exists>lv. slotInv n s lv) \<and>
        (es = [] \<or> last es = Refresh \<longrightarrow>
           limitOrderHead s (bid s) \<noteq> None \<and> limitOrderHead s (ask s) \<noteq> None)"
      if re: "r = Inr s" for s
    proof (cases "es = []")
      case True
      with r re have "s = s0" by simp
      with i0 h0 show ?thesis by (simp add: bookInv_def)
    next
      case False
      with p re show ?thesis by (simp add: bookInv_def)
    qed
    with e r show ?thesis by simp
  qed
qed

lemma first_frame:
  "\<exists>s0 s lv.
     setupMarket 500 1 8 1000 (\<lambda>p k. 1000) (setupBook 1000000 False True) = Some (Inr s0) \<and>
     updateAllLimitOrders 0 1000 s0 = Some (Inr s) \<and> updateBidAndAsk s = Inr s \<and>
     slotInv 1000000 s lv \<and> made 8 1000 (\<lambda>p k. 1000) s lv \<and>
     bid s = 500 \<and> ask s = 501 \<and> length (lv 501) = 10"
proof -
  let ?life = "(\<lambda>p k. 1000) :: u32 \<Rightarrow> nat \<Rightarrow> u64"
  have N: "unat NUM_PRICES = 100000" by (simp add: NUM_PRICES_def)
  have b: "(10::u32) < 500" and sp: "(0::u32) < 1"
    and rng: "unat (500::u32) + unat (1::u32) < unat NUM_PRICES"
    by (simp_all add: N)
  from setupMarket_built [OF b sp rng, of 8 1000 ?life 1000000 False True] obtain r where
    r: "setupMarket 500 1 8 1000 ?life (setupBook 1000000 False True) = Some r"
    and pr: "\<And>s. r = Inr s \<Longrightarrow>
        \<exists>lv. slotInv 1000000 s lv \<and> made 8 1000 ?life s lv \<and> bid s = 500 \<and>
           ask s = 500 + 1 \<and> length (lv 500) = 10 \<and> length (lv (500 + 1)) = 10"
    and tot: "(220::nat) \<le> 1000000 \<and> unat (500::u32) + unat (1::u32) + 10 < unat NUM_PRICES \<longrightarrow>
        (\<exists>s. r = Inr s)"
    by blast
  from tot N obtain s0 where r0: "r = Inr s0" by auto
  from pr [OF r0] obtain lv where i0: "slotInv 1000000 s0 lv"
    and m0: "made 8 1000 ?life s0 lv" and b0: "bid s0 = 500" and a0: "ask s0 = 501"
    and lb: "length (lv 500) = 10" and la: "length (lv 501) = 10"
    by auto
  have fresh: "\<forall>r a. a \<in> set (lv r) \<longrightarrow> \<not> expired s0 1000 a"
  proof (intro allI impI)
    fix r a assume "a \<in> set (lv r)"
    with m0 have "lo_expirationTime (pool s0 a) = 1000 + 1000" by (auto simp: made_def)
    then show "\<not> expired s0 1000 a" by (simp add: expired_def)
  qed
  from sweep_fresh [OF i0 fresh, of 0] obtain s where
    sw: "updateAllLimitOrders 0 1000 s0 = Some (Inr s)" and i: "slotInv 1000000 s lv"
    and fl: "\<forall>a. lo_size (pool s a) = lo_size (pool s0 a) \<and>
          lo_expirationTime (pool s a) = lo_expirationTime (pool s0 a)"
    and ba: "bid s = bid s0" "ask s = ask s0"
    by blast
  from m0 fl have m: "made 8 1000 ?life s lv" by (simp add: made_def)
  from ba b0 a0 have bs: "bid s = 500" and as: "ask s = 501" by simp_all
  from lb have "lv 500 \<noteq> []" by auto
  with slotInv_level [OF i, of 500] have hb: "limitOrderHead s 500 \<noteq> None" by (rule level_head)
  from la have "lv 501 \<noteq> []" by auto
  with slotInv_level [OF i, of 501] have ha: "limitOrderHead s 501 \<noteq> None" by (rule level_head)
  have "bid s < NUM_PRICES" by (simp add: bs NUM_PRICES_def)
  moreover from hb bs have "limitOrderHead s (bid s) \<noteq> None" by simp
  ultimately have ub: "updateBid s = Inr s" by (rule updateBid_same)
  have "updateAsk s = Inr (s\<lparr>ask := ask s\<rparr>)"
  proof (rule updateAsk_next)
    show "ask s \<le> ask s" by simp
    show "ask s < NUM_PRICES" by (simp add: as NUM_PRICES_def)
    show "limitOrderHead s (ask s) \<noteq> None" using ha as by simp
    show "\<forall>r. ask s \<le> r \<and> r < ask s \<longrightarrow> limitOrderHead s r = None" by auto
  qed
  then have ua: "updateAsk s = Inr s" by simp
  from ub ua have rf: "updateBidAndAsk s = Inr s" by (simp add: updateBidAndAsk_def)
  from r r0 sw rf i m bs as la show ?thesis by blast
qed

section \<open>C5: a user's buy and a later synthetic buy at one price, then a market sell\<close>

lemma scenario5_stack_order:
  "t < e \<Longrightarrow>
   \<exists>ou s. scenario5 True b0 p0 e t = Some (Inr (ou, s)) \<and> ou = 1200 \<and>
     balance s = b0 - 700 \<and> sharesOpen s = p0 + 7 \<and> userLimitOrders s = [1] \<and>
     limitOrderHead s 100 = Some 1 \<and> lo_size (pool s 1) = 3 \<and> freeLimitOrders s = [0]"
  by (frule word_less_max) (simp add: scenario5_def book_eval upt_rec word_max_le not_le)

text \<open>
  C5, as stated, fails. With \<open>fillTiesInStackOrder\<close> set (new orders go to the head and
  fill first) the later synthetic buy is filled completely and the user's buy only for
  7 shares: from a ledger at 0 the balance is -700 and the position 7, and the user's
  order stays tracked. With the setting clear the fills are as the claim says, but the
  balance is -1000 and the position 10: the user has bought. In neither case does the
  balance increase by 1000 or the position decrease by 10.
\<close>

theorem C5_ledger_counterexample:
  "(\<exists>ou s. scenario5 True 0 0 5000 1000 = Some (Inr (ou, s)) \<and>
      sint (balance s) = - 700 \<and> sint (sharesOpen s) = 7 \<and> userLimitOrders s = [1]) \<and>
   (\<exists>ou s. scenario5 False 0 0 5000 1000 = Some (Inr (ou, s)) \<and>
      sint (balance s) = - 1000 \<and> sint (sharesOpen s) = 10) \<and>
   \<not> (\<exists>ou s so. scenario5 so 0 0 5000 1000 = Some (Inr (ou, s)) \<and>
      sint (balance s) = 1000 \<and> sint (sharesOpen s) = - 10)"
proof -
  have a: "\<exists>ou s. scenario5 True 0 0 5000 1000 = Some (Inr (ou, s)) \<and>
      sint (balance s) = - 700 \<and> sint (sharesOpen s) = 7 \<and> userLimitOrders s = [1]"
    by (simp add: scenario5_def book_eval upt_rec word_max_le not_le)
  have b: "\<exists>ou s. scenario5 False 0 0 5000 1000 = Some (Inr (ou, s)) \<and>
      sint (balance s) = - 1000 \<and> sint (sharesOpen s) = 10"
    by (simp add: scenario5_def book_eval upt_rec word_max_le not_le)
  have c: "\<not> (\<exists>ou s so. scenario5 so 0 0 5000 1000 = Some (Inr (ou, s)) \<and>
      sint (balance s) = 1000 \<and> sint (sharesOpen s) = - 10)"
  proof
    assume "\<exists>ou s so. scenario5 so 0 0 5000 1000 = Some (Inr (ou, s)) \<and>
      sint (balance s) = 1000 \<and> sint (sharesOpen s) = - 10"
    then obtain ou s so where r: "scenario5 so 0 0 5000 1000 = Some (Inr (ou, s))"
      and l: "sint (balance s) = 1000" by blast
    show False
    proof (cases so)
      case True
      with a r l show False by auto
    next
      case False
      with b r l show False by auto
    qed
  qed
  from a b c show ?thesis by blast
qed

text \<open>
  C5, amended: with \<open>fillTiesInStackOrder\<close> clear (the default: new orders go to the
  tail, so the user's earlier buy rests ahead of the synthetic one), a market sell of 12
  at a time before the synthetic order expires returns 1200, fills the user's order
  completely (its slot 1 goes back to the free list and leaves the tracking list) and
  the synthetic order for 2 shares (3 of its 5 stay at the head of level 100); the
  balance decreases by exactly 1000 and the position increases by exactly 10, on 32
  bits, whatever the ledger was before.
\<close>

theorem C5_market_sell_fills_user_buy:
  "t < e \<Longrightarrow>
   \<exists>ou s. scenario5 False b0 p0 e t = Some (Inr (ou, s)) \<and> ou = 1200 \<and>
     balance s = b0 - 1000 \<and> sharesOpen s = p0 + 10 \<and> userLimitOrders s = [] \<and>
     limitOrderHead s 100 = Some 0 \<and> lo_size (pool s 0) = 3 \<and> freeLimitOrders s = [1]"
  by (frule word_less_max) (simp add: scenario5_def book_eval upt_rec word_max_le not_le)

theorem C5_market_sell_fills_user_buy_witness:
  "(1000 :: u64) < 5000 \<and>
   (\<exists>ou s. scenario5 False 50000 0 5000 1000 = Some (Inr (ou, s)) \<and> ou = 1200 \<and>
      balance s = 49000 \<and> sharesOpen s = 10 \<and> userLimitOrders s = [] \<and>
      limitOrderHead s 100 = Some 0 \<and> lo_size (pool s 0) = 3 \<and> freeLimitOrders s = [1])"
proof -
  have h: "(1000 :: u64) < 5000" by simp
  show ?thesis using h C5_market_sell_fills_user_buy [OF h, of 50000 0] by simp
qed

section \<open>C8: the expiration sweep of a level\<close>

lemma book8_level: "level book8 100 [4, 3, 2, 1, 0]"
  by (simp add: book8_def place_def level_def book_eval upt_rec)

lemma book8_expired:
  "filter (expired book8 10) [4, 3, 2, 1, 0] = [4, 3, 1] \<and>
   filter (\<lambda>a. \<not> expired book8 10 a) [4, 3, 2, 1, 0] = [2, 0] \<and> freeLimitOrders book8 = []"
  by (simp add: book8_def place_def expired_def book_eval upt_rec)

text \<open>
  C8: for a level \<open>p\<close> inside the price range whose orders are \<open>as\<close>, head first, and
  any time \<open>t\<close>, \<open>updateLimitOrders p t\<close> returns; afterwards the level holds exactly
  the orders of \<open>as\<close> whose expiration time is greater than \<open>t\<close>, in their old order
  and linked up to \<open>NULL\<close>; exactly the orders with expiration time \<open>\<le> t\<close> have been
  pushed on the free list, in list order; an order that stays keeps its size, price,
  expiration time and owner (only \<open>next\<close> pointers of orders that stay are written);
  every other head, bid, ask, the tracking list and the ledger are unchanged.
\<close>

theorem C8_sweep_removes_expired:
  assumes "level s p as" and "p < NUM_PRICES"
  shows "\<exists>s'. updateLimitOrders p t s = Some (Inr s') \<and>
     level s' p (filter (\<lambda>a. \<not> expired s t a) as) \<and>
     freeLimitOrders s' = rev (filter (expired s t) as) @ freeLimitOrders s \<and>
     (\<forall>a. pool s' a = (pool s a)\<lparr>lo_next := lo_next (pool s' a)\<rparr>) \<and>
     (\<forall>a. a \<notin> set (filter (\<lambda>a. \<not> expired s t a) as) \<longrightarrow> pool s' a = pool s a) \<and>
     (\<forall>q. q \<noteq> p \<longrightarrow> limitOrderHead s' q = limitOrderHead s q) \<and>
     bid s' = bid s \<and> ask s' = ask s \<and> userLimitOrders s' = userLimitOrders s \<and>
     balance s' = balance s \<and> sharesOpen s' = sharesOpen s"
proof -
  from updateLimitOrders_level [OF assms, of t] obtain s' where
    r: "updateLimitOrders p t s = Some (Inr s')"
    and lv: "level s' p (filter (\<lambda>a. \<not> expired s t a) as)"
    and fr: "freeLimitOrders s' = rev (filter (expired s t) as) @ freeLimitOrders s"
    and eq: "s' = s\<lparr>pool := pool s', freeLimitOrders := freeLimitOrders s',
             limitOrderHead := (limitOrderHead s)(p := limitOrderHead s' p)\<rparr>"
    and nxt: "\<forall>a. pool s' a = (pool s a)\<lparr>lo_next := lo_next (pool s' a)\<rparr>"
    and out: "\<forall>a. a \<notin> set (filter (\<lambda>a. \<not> expired s t a) as) \<longrightarrow> pool s' a = pool s a"
    by blast
  have "\<forall>q. q \<noteq> p \<longrightarrow> limitOrderHead s' q = limitOrderHead s q"
    by (subst eq) simp
  moreover have "bid s' = bid s" "ask s' = ask s" "userLimitOrders s' = userLimitOrders s"
    "balance s' = balance s" "sharesOpen s' = sharesOpen s"
    by (subst eq, simp)+
  ultimately show ?thesis using r lv fr nxt out by blast
qed

text \<open>The theorem on the book of five orders, swept at time 10.\<close>

theorem C8_sweep_removes_expired_witness:
  "level book8 100 [4, 3, 2, 1, 0] \<and> (100 :: u32) < NUM_PRICES \<and>
   (\<exists>s'. updateLimitOrders 100 10 book8 = Some (Inr s') \<and>
      level s' 100 [2, 0] \<and> freeLimitOrders s' = [1, 3, 4])"
proof -
  have r: "(100 :: u32) < NUM_PRICES" by (simp add: NUM_PRICES_def)
  from C8_sweep_removes_expired [OF book8_level r, of 10] book8_expired book8_level r
  show ?thesis by auto
qed

section \<open>C2: free list or exactly one level\<close>

text \<open>
  C2: let the pool of \<open>n\<close> slots be partitioned in the book \<open>s\<close>, with \<open>lv p\<close> the list
  of level \<open>p\<close> (\<open>slotInv n s lv\<close>). Then every slot of the pool is on the free list or in
  some level but not both, and in at most one level. \<open>addLimitOrder\<close> returns or exits,
  and after it has returned the pool is partitioned again; for a price inside the range
  \<open>updateLimitOrders\<close> and \<open>fillOrders\<close> return, with the pool partitioned again;
  \<open>marketBuy\<close> and \<open>marketSell\<close> return or exit, and after they have returned the pool
  is partitioned again. None of them runs forever.
\<close>

theorem C2_pool_partition_preserved:
  assumes inv: "slotInv n s lv"
  shows "(\<forall>a. a < n \<longrightarrow> (a \<in> set (freeLimitOrders s)) \<noteq> (\<exists>p. a \<in> set (lv p))) \<and>
     (\<forall>a p q. a \<in> set (lv p) \<and> a \<in> set (lv q) \<longrightarrow> p = q) \<and>
     (\<forall>p sz e usr. \<exists>r. addLimitOrder p sz e usr s = Some r \<and>
        (\<forall>s'. r = Inr s' \<longrightarrow> (\<exists>lv'. slotInv n s' lv'))) \<and>
     (\<forall>p t. p < NUM_PRICES \<longrightarrow>
        (\<exists>s'. updateLimitOrders p t s = Some (Inr s') \<and> (\<exists>lv'. slotInv n s' lv'))) \<and>
     (\<forall>p sz ou isSell. p < NUM_PRICES \<longrightarrow>
        (\<exists>sz' ou' s'. fillOrders p sz ou isSell s = Some (Inr (sz', ou', s')) \<and>
           (\<exists>lv'. slotInv n s' lv'))) \<and>
     (\<forall>sz t. \<exists>r. marketBuy sz t s = Some r \<and>
        (\<forall>ou' s'. r = Inr (ou', s') \<longrightarrow> (\<exists>lv'. slotInv n s' lv'))) \<and>
     (\<forall>sz t. \<exists>r. marketSell sz t s = Some r \<and>
        (\<forall>ou' s'. r = Inr (ou', s') \<longrightarrow> (\<exists>lv'. slotInv n s' lv')))"
proof -
  have add: "\<exists>r. addLimitOrder p sz e usr s = Some r \<and>
        (\<forall>s'. r = Inr s' \<longrightarrow> (\<exists>lv'. slotInv n s' lv'))" for p sz e usr
    using addLimitOrder_total [OF inv, of p sz e usr] by blast
  have upd: "\<exists>s'. updateLimitOrders p t s = Some (Inr s') \<and> (\<exists>lv'. slotInv n s' lv')"
    if "p < NUM_PRICES" for p t
    using slotInv_updateLimitOrders [OF inv that, of t] by blast
  have fill: "\<exists>sz' ou' s'. fillOrders p sz ou isSell s = Some (Inr (sz', ou', s')) \<and>
           (\<exists>lv'. slotInv n s' lv')" if "p < NUM_PRICES" for p sz ou isSell
    using slotInv_fillOrders [OF inv that, of sz ou isSell] by blast
  have buy: "\<exists>r. marketBuy sz t s = Some r \<and>
        (\<forall>ou' s'. r = Inr (ou', s') \<longrightarrow> (\<exists>lv'. slotInv n s' lv'))" for sz t
    using marketBuy_inv [OF inv, of sz t] by (blast dest: buyPost_inv)
  have sell: "\<exists>r. marketSell sz t s = Some r \<and>
        (\<forall>ou' s'. r = Inr (ou', s') \<longrightarrow> (\<exists>lv'. slotInv n s' lv'))" for sz t
    using marketSell_inv [OF inv, of sz t] by (blast dest: sellPost_inv)
  from slotInv_partition [OF inv] add upd fill buy sell show ?thesis by blast
qed

text \<open>
  The theorem on the book of five orders at price 100: its pool of five slots is
  partitioned; the sweep at time 10 and a fill of 3 keep it so; a sixth order finds the
  free list empty and the call exits.
\<close>

theorem C2_pool_partition_preserved_witness:
  "slotInv 5 book8 ((\<lambda>_. [])(100 := [4, 3, 2, 1, 0])) \<and>
   (\<exists>s'. updateLimitOrders 100 10 book8 = Some (Inr s') \<and> (\<exists>lv'. slotInv 5 s' lv')) \<and>
   (\<exists>sz' ou' s'. fillOrders 100 3 0 False book8 = Some (Inr (sz', ou', s')) \<and>
      (\<exists>lv'. slotInv 5 s' lv')) \<and>
   (\<exists>r. addLimitOrder 101 1 70 False book8 = Some r \<and>
      (\<forall>s'. r \<noteq> Inr s'))"
proof -
  have p: "(100 :: u32) < NUM_PRICES" by (simp add: NUM_PRICES_def)
  note th = C2_pool_partition_preserved [OF book8_slotInv]
  from th p have "\<exists>s'. updateLimitOrders 100 10 book8 = Some (Inr s') \<and> (\<exists>lv'. slotInv 5 s' lv')"
    by blast
  moreover from th p have "\<exists>sz' ou' s'. fillOrders 100 3 0 False book8 = Some (Inr (sz', ou', s')) \<and>
      (\<exists>lv'. slotInv 5 s' lv')" by blast
  moreover have "\<exists>r. addLimitOrder 101 1 70 False book8 = Some r \<and> (\<forall>s'. r \<noteq> Inr s')"
    by (simp add: book8_def place_def book_eval upt_rec)
  ultimately show ?thesis using book8_slotInv by blast
qed

section \<open>C3: what a market order returns\<close>

text \<open>
  C3 does not hold of the code. \<open>marketBuy\<close> is documented "Return the amount spent in
  cents", but it adds up \<open>s * p\<close> in a \<open>u32\<close> and returns a \<open>u32\<close>. A market buy of
  10000000 shares against the user's resting sell of 10000000 at 501 consumes it
  completely, price times quantity is 5010000000, and \<open>marketBuy\<close> returns 715032704,
  which is 5010000000 - 2^32.
\<close>

theorem C3_returned_sum_wraps:
  "(\<exists>s'. marketBuy 10000000 0 book3 = Some (Inr (715032704, s'))) \<and>
   sumOfNotionals (consumedPortions 10000000 [(501, 10000000)]) = 5010000000 \<and>
   limitOrderHead book3 501 = Some 0 \<and> lo_size (pool book3 0) = 10000000 \<and>
   lo_next (pool book3 0) = None \<and> ask book3 = 501"
  by (simp add: book3_def place_def book_eval upt_rec sumOfNotionals_def)

section \<open>C7: where a market order leaves ask and bid\<close>

text \<open>
  C7, as stated, fails. On the book with ask 105, where the level at 105 holds a single
  sell of 5 that has not expired, a market buy of 5 returns 525 and empties the level,
  but \<open>ask\<close> is still 105 when \<open>marketBuy\<close> returns, although the next sells rest at 107:
  the loop stops as soon as the size is 0 and does not look for the next level.
\<close>

theorem C7_ask_stays_counterexample:
  "\<exists>s'. marketBuy 5 10 bookAsk = Some (Inr (525, s')) \<and> ask s' = 105 \<and>
     limitOrderHead s' 105 = None \<and> limitOrderHead s' 107 = Some 1 \<and> ask s' \<noteq> 107"
  by (simp add: bookAsk_def place_def book_eval upt_rec)

text \<open>
  C7, amended, on a book whose pool is partitioned, with levels \<open>lv\<close>.

  The scenario: if the level at \<open>ask\<close> holds a single order of size \<open>sz > 0\<close> that has not
  expired at \<open>t\<close>, the level at \<open>bid\<close> (below \<open>ask\<close>) is not empty and \<open>q\<close> is the next price
  above \<open>ask\<close> with a non-empty level, then \<open>marketBuy sz t\<close> returns \<open>sz * ask\<close>, the level
  at \<open>ask\<close> is empty and its order is on the free list, and \<open>ask\<close> is unchanged when
  \<open>marketBuy\<close> returns; the following \<open>updateBidAndAsk\<close> moves \<open>ask\<close> to \<open>q\<close> and changes
  nothing else.

  In general: every market order returns or exits. A market buy of a size \<open>S > 0\<close> that
  returns leaves \<open>ask\<close> at the last price it visited whose level it found non-empty.
  This is the one price from the old \<open>ask\<close> upwards at which the live quantity met so
  far reaches \<open>S\<close>: the live quantity of the prices before it is less than \<open>S\<close>, and with
  its own live quantity it is at least \<open>S\<close>. The levels before it are empty afterwards,
  its own level holds what is left of its live orders, and the levels above it and
  below the old \<open>ask\<close>, with their orders, and \<open>bid\<close> are untouched. A market sell leaves
  \<open>bid\<close> likewise, scanning downwards from the old \<open>bid\<close>.
\<close>

theorem C7_ask_after_market_buy:
  assumes inv: "slotInv n s lv"
  shows "(\<forall>a sz t q.
        ask s < NUM_PRICES \<and> lv (ask s) = [a] \<and> lo_size (pool s a) = sz \<and> 0 < sz \<and>
        t < lo_expirationTime (pool s a) \<and> bid s < ask s \<and>
        limitOrderHead s (bid s) \<noteq> None \<and> ask s < q \<and> q < NUM_PRICES \<and>
        limitOrderHead s q \<noteq> None \<and>
        (\<forall>r. ask s < r \<and> r < q \<longrightarrow> limitOrderHead s r = None) \<longrightarrow>
        (\<exists>s'. marketBuy sz t s = Some (Inr (sz * ask s, s')) \<and>
           limitOrderHead s' (ask s) = None \<and> freeLimitOrders s' = a # freeLimitOrders s \<and>
           ask s' = ask s \<and> updateBidAndAsk s' = Inr (s'\<lparr>ask := q\<rparr>))) \<and>
     (\<forall>S t. (\<exists>r. marketBuy S t s = Some r) \<and> (\<exists>r. marketSell S t s = Some r)) \<and>
     (\<forall>S t ou s'. marketBuy S t s = Some (Inr (ou, s')) \<and> 0 < S \<longrightarrow>
        ask s \<le> ask s' \<and> ask s' < NUM_PRICES \<and> limitOrderHead s (ask s') \<noteq> None \<and>
        qtyBetween s lv t (ask s) (ask s') < unat S \<and>
        unat S \<le> qtyBetween s lv t (ask s) (ask s') + liveQty s lv t (ask s') \<and>
        (\<forall>r. ask s \<le> r \<and> r < ask s' \<longrightarrow> limitOrderHead s' r = None) \<and>
        (\<exists>k. level s' (ask s') (drop k (liveAt s lv t (ask s')))) \<and>
        (\<forall>r. r < ask s \<or> ask s' < r \<longrightarrow>
           limitOrderHead s' r = limitOrderHead s r \<and>
           (\<forall>a \<in> set (lv r). pool s' a = pool s a)) \<and>
        bid s' = bid s \<and>
        (\<forall>q. ask s \<le> q \<and> qtyBetween s lv t (ask s) q < unat S \<and>
             unat S \<le> qtyBetween s lv t (ask s) q + liveQty s lv t q \<longrightarrow> q = ask s')) \<and>
     (\<forall>S t ou s'. marketSell S t s = Some (Inr (ou, s')) \<and> 0 < S \<longrightarrow>
        bid s' \<le> bid s \<and> bid s' < NUM_PRICES \<and> limitOrderHead s (bid s') \<noteq> None \<and>
        qtyDownTo s lv t (bid s) (bid s') < unat S \<and>
        unat S \<le> qtyDownTo s lv t (bid s) (bid s') + liveQty s lv t (bid s') \<and>
        (\<forall>r. bid s' < r \<and> r \<le> bid s \<longrightarrow> limitOrderHead s' r = None) \<and>
        (\<exists>k. level s' (bid s') (drop k (liveAt s lv t (bid s')))) \<and>
        (\<forall>r. r < bid s' \<or> bid s < r \<longrightarrow>
           limitOrderHead s' r = limitOrderHead s r \<and>
           (\<forall>a \<in> set (lv r). pool s' a = pool s a)) \<and>
        ask s' = ask s \<and>
        (\<forall>q. q \<le> bid s \<and> qtyDownTo s lv t (bid s) q < unat S \<and>
             unat S \<le> qtyDownTo s lv t (bid s) q + liveQty s lv t q \<longrightarrow> q = bid s'))"
proof -
  have A: "\<forall>a sz t q.
        ask s < NUM_PRICES \<and> lv (ask s) = [a] \<and> lo_size (pool s a) = sz \<and> 0 < sz \<and>
        t < lo_expirationTime (pool s a) \<and> bid s < ask s \<and>
        limitOrderHead s (bid s) \<noteq> None \<and> ask s < q \<and> q < NUM_PRICES \<and>
        limitOrderHead s q \<noteq> None \<and>
        (\<forall>r. ask s < r \<and> r < q \<longrightarrow> limitOrderHead s r = None) \<longrightarrow>
        (\<exists>s'. marketBuy sz t s = Some (Inr (sz * ask s, s')) \<and>
           limitOrderHead s' (ask s) = None \<and> freeLimitOrders s' = a # freeLimitOrders s \<and>
           ask s' = ask s \<and> updateBidAndAsk s' = Inr (s'\<lparr>ask := q\<rparr>))"
  proof (intro allI impI)
    fix a sz t q
    assume h: "ask s < NUM_PRICES \<and> lv (ask s) = [a] \<and> lo_size (pool s a) = sz \<and> 0 < sz \<and>
        t < lo_expirationTime (pool s a) \<and> bid s < ask s \<and>
        limitOrderHead s (bid s) \<noteq> None \<and> ask s < q \<and> q < NUM_PRICES \<and>
        limitOrderHead s q \<noteq> None \<and>
        (\<forall>r. ask s < r \<and> r < q \<longrightarrow> limitOrderHead s r = None)"
    then have h1: "ask s < NUM_PRICES" and h2: "lv (ask s) = [a]"
      and h3: "lo_size (pool s a) = sz" and h4: "0 < sz"
      and h5: "t < lo_expirationTime (pool s a)" and h6: "bid s < ask s"
      and h7: "limitOrderHead s (bid s) \<noteq> None" and h8: "ask s < q" and h9: "q < NUM_PRICES"
      and h10: "limitOrderHead s q \<noteq> None"
      and h11: "\<forall>r. ask s < r \<and> r < q \<longrightarrow> limitOrderHead s r = None"
      by simp_all
    show "\<exists>s'. marketBuy sz t s = Some (Inr (sz * ask s, s')) \<and>
           limitOrderHead s' (ask s) = None \<and> freeLimitOrders s' = a # freeLimitOrders s \<and>
           ask s' = ask s \<and> updateBidAndAsk s' = Inr (s'\<lparr>ask := q\<rparr>)"
      by (rule single_order_refresh [OF inv h1 h2 h3 h4 h5 h6 h7 h8 h9 h10 h11])
  qed
  have T: "\<forall>S t. (\<exists>r. marketBuy S t s = Some r) \<and> (\<exists>r. marketSell S t s = Some r)"
  proof (intro allI conjI)
    fix S t
    from marketBuy_inv [OF inv, of S t] show "\<exists>r. marketBuy S t s = Some r" by blast
    from marketSell_inv [OF inv, of S t] show "\<exists>r. marketSell S t s = Some r" by blast
  qed
  have B: "\<forall>S t ou s'. marketBuy S t s = Some (Inr (ou, s')) \<and> 0 < S \<longrightarrow>
        ask s \<le> ask s' \<and> ask s' < NUM_PRICES \<and> limitOrderHead s (ask s') \<noteq> None \<and>
        qtyBetween s lv t (ask s) (ask s') < unat S \<and>
        unat S \<le> qtyBetween s lv t (ask s) (ask s') + liveQty s lv t (ask s') \<and>
        (\<forall>r. ask s \<le> r \<and> r < ask s' \<longrightarrow> limitOrderHead s' r = None) \<and>
        (\<exists>k. level s' (ask s') (drop k (liveAt s lv t (ask s')))) \<and>
        (\<forall>r. r < ask s \<or> ask s' < r \<longrightarrow>
           limitOrderHead s' r = limitOrderHead s r \<and>
           (\<forall>a \<in> set (lv r). pool s' a = pool s a)) \<and>
        bid s' = bid s \<and>
        (\<forall>q. ask s \<le> q \<and> qtyBetween s lv t (ask s) q < unat S \<and>
             unat S \<le> qtyBetween s lv t (ask s) q + liveQty s lv t q \<longrightarrow> q = ask s')"
  proof (intro allI impI)
    fix S t ou s'
    assume "marketBuy S t s = Some (Inr (ou, s')) \<and> 0 < S"
    then have r: "marketBuy S t s = Some (Inr (ou, s'))" and pos: "0 < S" by simp_all
    show "ask s \<le> ask s' \<and> ask s' < NUM_PRICES \<and> limitOrderHead s (ask s') \<noteq> None \<and>
        qtyBetween s lv t (ask s) (ask s') < unat S \<and>
        unat S \<le> qtyBetween s lv t (ask s) (ask s') + liveQty s lv t (ask s') \<and>
        (\<forall>r. ask s \<le> r \<and> r < ask s' \<longrightarrow> limitOrderHead s' r = None) \<and>
        (\<exists>k. level s' (ask s') (drop k (liveAt s lv t (ask s')))) \<and>
        (\<forall>r. r < ask s \<or> ask s' < r \<longrightarrow>
           limitOrderHead s' r = limitOrderHead s r \<and>
           (\<forall>a \<in> set (lv r). pool s' a = pool s a)) \<and>
        bid s' = bid s \<and>
        (\<forall>q. ask s \<le> q \<and> qtyBetween s lv t (ask s) q < unat S \<and>
             unat S \<le> qtyBetween s lv t (ask s) q + liveQty s lv t q \<longrightarrow> q = ask s')"
      by (rule marketBuy_trace [OF inv r pos])
  qed
  have C: "\<forall>S t ou s'. marketSell S t s = Some (Inr (ou, s')) \<and> 0 < S \<longrightarrow>
        bid s' \<le> bid s \<and> bid s' < NUM_PRICES \<and> limitOrderHead s (bid s') \<noteq> None \<and>
        qtyDownTo s lv t (bid s) (bid s') < unat S \<and>
        unat S \<le> qtyDownTo s lv t (bid s) (bid s') + liveQty s lv t (bid s') \<and>
        (\<forall>r. bid s' < r \<and> r \<le> bid s \<longrightarrow> limitOrderHead s' r = None) \<and>
        (\<exists>k. level s' (bid s') (drop k (liveAt s lv t (bid s')))) \<and>
        (\<forall>r. r < bid s' \<or> bid s < r \<longrightarrow>
           limitOrderHead s' r = limitOrderHead s r \<and>
           (\<forall>a \<in> set (lv r). pool s' a = pool s a)) \<and>
        ask s' = ask s \<and>
        (\<forall>q. q \<le> bid s \<and> qtyDownTo s lv t (bid s) q < unat S \<and>
             unat S \<le> qtyDownTo s lv t (bid s) q + liveQty s lv t q \<longrightarrow> q = bid s')"
  proof (intro allI impI)
    fix S t ou s'
    assume "marketSell S t s = Some (Inr (ou, s')) \<and> 0 < S"
    then have r: "marketSell S t s = Some (Inr (ou, s'))" and pos: "0 < S" by simp_all
    show "bid s' \<le> bid s \<and> bid s' < NUM_PRICES \<and> limitOrderHead s (bid s') \<noteq> None \<and>
        qtyDownTo s lv t (bid s) (bid s') < unat S \<and>
        unat S \<le> qtyDownTo s lv t (bid s) (bid s') + liveQty s lv t (bid s') \<and>
        (\<forall>r. bid s' < r \<and> r \<le> bid s \<longrightarrow> limitOrderHead s' r = None) \<and>
        (\<exists>k. level s' (bid s') (drop k (liveAt s lv t (bid s')))) \<and>
        (\<forall>r. r < bid s' \<or> bid s < r \<longrightarrow>
           limitOrderHead s' r = limitOrderHead s r \<and>
           (\<forall>a \<in> set (lv r). pool s' a = pool s a)) \<and>
        ask s' = ask s \<and>
        (\<forall>q. q \<le> bid s \<and> qtyDownTo s lv t (bid s) q < unat S \<and>
             unat S \<le> qtyDownTo s lv t (bid s) q + liveQty s lv t q \<longrightarrow> q = bid s')"
      by (rule marketSell_trace [OF inv r pos])
  qed
  show ?thesis by (rule conjI [OF A conjI [OF T conjI [OF B C]]])
qed

text \<open>
  The theorem on the book with ask 105 and the next sells at 107: the market buy of 5
  leaves \<open>ask\<close> at 105, the market buy of 7 leaves it at 107.
\<close>

theorem C7_ask_after_market_buy_witness:
  "slotInv 4 bookAsk lvAsk \<and> ask bookAsk = 105 \<and> lvAsk 105 = [2] \<and>
   lo_size (pool bookAsk 2) = 5 \<and> (10 :: u64) < lo_expirationTime (pool bookAsk 2) \<and>
   bid bookAsk = 100 \<and> limitOrderHead bookAsk 100 \<noteq> None \<and>
   limitOrderHead bookAsk 107 \<noteq> None \<and> limitOrderHead bookAsk 106 = None \<and>
   (\<exists>s'. marketBuy 5 10 bookAsk = Some (Inr (525, s')) \<and>
      limitOrderHead s' 105 = None \<and> freeLimitOrders s' = [2] \<and> ask s' = 105 \<and>
      updateBidAndAsk s' = Inr (s'\<lparr>ask := 107\<rparr>)) \<and>
   (\<exists>s'. marketBuy 7 10 bookAsk = Some (Inr (739, s')) \<and> ask s' = 107 \<and>
      qtyBetween bookAsk lvAsk 10 105 (ask s') = 5 \<and> 5 < unat (7 :: u32) \<and>
      unat (7 :: u32) \<le> 5 + liveQty bookAsk lvAsk 10 (ask s') \<and>
      limitOrderHead s' 105 = None \<and> limitOrderHead s' 106 = None \<and>
      limitOrderHead s' 100 = limitOrderHead bookAsk 100 \<and> bid s' = 100)"
proof -
  note th = C7_ask_after_market_buy [OF bookAsk_slotInv]
  have a: "ask bookAsk < NUM_PRICES" by (simp add: bookAsk_facts NUM_PRICES_def)
  have b: "lvAsk (ask bookAsk) = [2]" by (simp add: bookAsk_facts lvAsk_def)
  have c: "(0 :: u32) < 5" by simp
  have d: "(10 :: u64) < lo_expirationTime (pool bookAsk 2)" by (simp add: bookAsk_facts)
  have e: "bid bookAsk < ask bookAsk" "limitOrderHead bookAsk (bid bookAsk) \<noteq> None"
    by (simp_all add: bookAsk_facts)
  have f: "ask bookAsk < 107" "(107 :: u32) < NUM_PRICES" "limitOrderHead bookAsk 107 \<noteq> None"
    by (simp_all add: bookAsk_facts NUM_PRICES_def)
  have g: "\<forall>r. ask bookAsk < r \<and> r < 107 \<longrightarrow> limitOrderHead bookAsk r = None"
  proof (intro allI impI)
    fix r :: u32 assume "ask bookAsk < r \<and> r < 107"
    then have "105 < r" "r < 107" by (simp_all add: bookAsk_facts)
    then have "unat r = 106" by (simp add: word_less_nat_alt)
    then have "of_nat (unat r) = (106 :: u32)" by simp
    then have "r = 106" by simp
    then show "limitOrderHead bookAsk r = None" by (simp add: bookAsk_facts)
  qed
  note thA = th [THEN conjunct1, rule_format]
  have first: "\<exists>s'. marketBuy 5 10 bookAsk = Some (Inr (5 * ask bookAsk, s')) \<and>
           limitOrderHead s' (ask bookAsk) = None \<and>
           freeLimitOrders s' = 2 # freeLimitOrders bookAsk \<and>
           ask s' = ask bookAsk \<and> updateBidAndAsk s' = Inr (s'\<lparr>ask := 107\<rparr>)"
    by (rule thA) (intro conjI a b c d e f g bookAsk_facts(3))
  from bookAsk_buy7_state obtain s' where
    r: "marketBuy 7 10 bookAsk = Some (Inr (739, s'))" and a': "ask s' = 107" by blast
  have pos: "(0 :: u32) < 7" by simp
  note thB = th [THEN conjunct2, THEN conjunct2, THEN conjunct1, rule_format,
      OF conjI [OF r pos]]
  from thB have q: "qtyBetween bookAsk lvAsk 10 (ask bookAsk) (ask s') < unat (7 :: u32)"
    "unat (7 :: u32) \<le> qtyBetween bookAsk lvAsk 10 (ask bookAsk) (ask s') +
           liveQty bookAsk lvAsk 10 (ask s')"
    and emp: "\<forall>r. ask bookAsk \<le> r \<and> r < ask s' \<longrightarrow> limitOrderHead s' r = None"
    and out: "\<forall>r. r < ask bookAsk \<or> ask s' < r \<longrightarrow> limitOrderHead s' r = limitOrderHead bookAsk r"
    and bd: "bid s' = bid bookAsk"
    by simp_all
  from emp have e5: "limitOrderHead s' 105 = None" and e6: "limitOrderHead s' 106 = None"
    by (simp_all add: a' bookAsk_facts)
  from out have o: "limitOrderHead s' 100 = limitOrderHead bookAsk 100"
    by (simp add: a' bookAsk_facts)
  from q have q': "qtyBetween bookAsk lvAsk 10 105 (ask s') = 5" "5 < unat (7 :: u32)"
    "unat (7 :: u32) \<le> 5 + liveQty bookAsk lvAsk 10 (ask s')"
    by (simp_all add: a' bookAsk_facts bookAsk_qty)
  from r a' q' e5 e6 o bd
  have second: "\<exists>s'. marketBuy 7 10 bookAsk = Some (Inr (739, s')) \<and> ask s' = 107 \<and>
      qtyBetween bookAsk lvAsk 10 105 (ask s') = 5 \<and> 5 < unat (7 :: u32) \<and>
      unat (7 :: u32) \<le> 5 + liveQty bookAsk lvAsk 10 (ask s') \<and>
      limitOrderHead s' 105 = None \<and> limitOrderHead s' 106 = None \<and>
      limitOrderHead s' 100 = limitOrderHead bookAsk 100 \<and> bid s' = 100"
    by (simp add: bookAsk_facts)
  from first have first': "\<exists>s'. marketBuy 5 10 bookAsk = Some (Inr (525, s')) \<and>
      limitOrderHead s' 105 = None \<and> freeLimitOrders s' = [2] \<and> ask s' = 105 \<and>
      updateBidAndAsk s' = Inr (s'\<lparr>ask := 107\<rparr>)"
    by (simp add: bookAsk_facts)
  have basics: "slotInv 4 bookAsk lvAsk \<and> ask bookAsk = 105 \<and> lvAsk 105 = [2] \<and>
   lo_size (pool bookAsk 2) = 5 \<and> (10 :: u64) < lo_expirationTime (pool bookAsk 2) \<and>
   bid bookAsk = 100 \<and> limitOrderHead bookAsk 100 \<noteq> None \<and>
   limitOrderHead bookAsk 107 \<noteq> None \<and> limitOrderHead bookAsk 106 = None"
    using bookAsk_slotInv d by (simp add: bookAsk_facts lvAsk_def)
  from basics first' second show ?thesis by (intro conjI) blast+
qed

section \<open>C4: the fill of an order of the user\<close>

text \<open>
  C4 does not hold of the code: the ledger moves by \<open>s * p\<close> computed in a \<open>u32\<close>, not by
  the notional. The user's sell of 10000000 shares rests at 501 and is tracked. A market
  buy of 10000000 fills it completely: the order leaves the tracking list and goes to
  the free list, \<open>sharesOpen\<close> goes down by 10000000, and \<open>balance\<close> goes up by 715032704,
  where the notional is 5010000000. A market buy of 9000000 fills it partially: the
  order stays at the head of its level with the size 1000000, still tracked,
  \<open>sharesOpen\<close> goes down by 9000000, and \<open>balance\<close> goes up by 214032704, where the
  notional is 4509000000.
\<close>

theorem C4_full_notional_wraps:
  "lo_user (pool book3 0) \<and> limitOrderHead book3 501 = Some 0 \<and>
   lo_size (pool book3 0) = 10000000 \<and> userLimitOrders book3 = [0] \<and>
   balance book3 = 0 \<and> sharesOpen book3 = 0 \<and>
   unat (lo_size (pool book3 0)) * unat (501 :: u32) = 5010000000 \<and>
   unat (9000000 :: u32) * unat (501 :: u32) = 4509000000 \<and>
   (\<exists>s'. marketBuy 10000000 0 book3 = Some (Inr (715032704, s')) \<and>
      sint (balance s') = 715032704 \<and> sint (sharesOpen s') = - 10000000 \<and>
      userLimitOrders s' = [] \<and> freeLimitOrders s' = [0] \<and>
      limitOrderHead s' 501 = None) \<and>
   (\<exists>s'. marketBuy 9000000 0 book3 = Some (Inr (214032704, s')) \<and>
      sint (balance s') = 214032704 \<and> sint (sharesOpen s') = - 9000000 \<and>
      userLimitOrders s' = [0] \<and> limitOrderHead s' 501 = Some 0 \<and>
      lo_size (pool s' 0) = 1000000)"
  by (simp add: book3_def place_def book_eval upt_rec)

section \<open>C10: a market order after the withdrawal\<close>

text \<open>
  C10, as stated, fails: no market order fills an order that has been withdrawn. In the
  book of the scenario the user's buy of 10 at 100 is at the head of the level at \<open>bid\<close>.
  After the withdrawal it is still linked there, with the expiration time 0. A market
  sell of 3 at time 1000 then returns 300: the sweep that \<open>marketSell\<close> runs on the level
  before filling it has put the user's order on the free list with its size still 10,
  the 3 shares have been taken from the synthetic order behind it, and \<open>balance\<close> and
  \<open>sharesOpen\<close> are what they were.
\<close>

theorem C10_withdrawn_order_filled_counterexample:
  "limitOrderHead book5 100 = Some 1 \<and> lo_user (pool book5 1) \<and>
   userLimitOrders book5 = [1] \<and> bid book5 = 100 \<and>
   userLimitOrders (withdrawUserLimitOrders book5) = [] \<and>
   limitOrderHead (withdrawUserLimitOrders book5) 100 = Some 1 \<and>
   lo_expirationTime (pool (withdrawUserLimitOrders book5) 1) = 0 \<and>
   lo_size (pool (withdrawUserLimitOrders book5) 1) = 10 \<and>
   (\<exists>s'. marketSell 3 1000 (withdrawUserLimitOrders book5) = Some (Inr (300, s')) \<and>
      balance s' = balance book5 \<and> sharesOpen s' = sharesOpen book5 \<and>
      freeLimitOrders s' = [1] \<and> lo_size (pool s' 1) = 10 \<and>
      limitOrderHead s' 100 = Some 0 \<and> lo_size (pool s' 0) = 2)"
  by (simp add: book5_def place_def book_eval upt_rec withdrawUserLimitOrders_def)

text \<open>
  C10, amended: on a book whose pool is partitioned, with levels \<open>lv\<close>, in which every
  resting order of the user is tracked (or has the expiration time 0 of an earlier
  withdrawal), after \<open>withdrawUserLimitOrders\<close> the tracking list is empty and every
  resting order of the user is still linked in its level, still the user's, with the
  expiration time 0. Every market order on this book returns or exits, and when it
  returns, whatever its size and time, \<open>balance\<close> and \<open>sharesOpen\<close> are unchanged, the
  tracking list is still empty, and no order of the user has been filled: each has its
  old size, and those resting at a price the market order has visited (from the old
  \<open>bid\<close> down to the new one for a sell, from the old \<open>ask\<close> up to the new one for a buy)
  are on the free list and in no level.
\<close>

theorem C10_withdrawn_order_is_swept:
  assumes inv: "slotInv n s0 lv"
    and tracked: "\<forall>r a. a \<in> set (lv r) \<and> lo_user (pool s0 a) \<longrightarrow>
      a \<in> set (userLimitOrders s0) \<or> lo_expirationTime (pool s0 a) = 0"
  shows "userLimitOrders (withdrawUserLimitOrders s0) = [] \<and>
     (\<forall>r. level (withdrawUserLimitOrders s0) r (lv r)) \<and>
     (\<forall>r a. a \<in> set (lv r) \<and> lo_user (pool s0 a) \<longrightarrow>
        lo_user (pool (withdrawUserLimitOrders s0) a) \<and>
        lo_expirationTime (pool (withdrawUserLimitOrders s0) a) = 0) \<and>
     (\<forall>S t. (\<exists>res. marketSell S t (withdrawUserLimitOrders s0) = Some res) \<and>
            (\<exists>res. marketBuy S t (withdrawUserLimitOrders s0) = Some res)) \<and>
     (\<forall>S t ou s'. marketSell S t (withdrawUserLimitOrders s0) = Some (Inr (ou, s')) \<longrightarrow>
        balance s' = balance s0 \<and> sharesOpen s' = sharesOpen s0 \<and>
        userLimitOrders s' = [] \<and>
        (\<forall>r a. a \<in> set (lv r) \<and> lo_user (pool s0 a) \<longrightarrow>
           lo_size (pool s' a) = lo_size (pool s0 a) \<and>
           (0 < S \<and> bid s' \<le> r \<and> r \<le> bid s0 \<longrightarrow>
              a \<in> set (freeLimitOrders s') \<and> (\<forall>q as. level s' q as \<longrightarrow> a \<notin> set as)))) \<and>
     (\<forall>S t ou s'. marketBuy S t (withdrawUserLimitOrders s0) = Some (Inr (ou, s')) \<longrightarrow>
        balance s' = balance s0 \<and> sharesOpen s' = sharesOpen s0 \<and>
        userLimitOrders s' = [] \<and>
        (\<forall>r a. a \<in> set (lv r) \<and> lo_user (pool s0 a) \<longrightarrow>
           lo_size (pool s' a) = lo_size (pool s0 a) \<and>
           (0 < S \<and> ask s0 \<le> r \<and> r \<le> ask s' \<longrightarrow>
              a \<in> set (freeLimitOrders s') \<and> (\<forall>q as. level s' q as \<longrightarrow> a \<notin> set as))))"
proof -
  let ?s = "withdrawUserLimitOrders s0"
  from inv have invs: "slotInv n ?s lv" by (rule slotInv_withdraw)
  have A: "userLimitOrders ?s = []" by simp
  have B: "\<forall>r. level ?s r (lv r)" using invs by (simp add: slotInv_def)
  have C: "\<forall>r a. a \<in> set (lv r) \<and> lo_user (pool s0 a) \<longrightarrow>
        lo_user (pool ?s a) \<and> lo_expirationTime (pool ?s a) = 0"
  proof (intro allI impI)
    fix r a assume c: "a \<in> set (lv r) \<and> lo_user (pool s0 a)"
    then have u: "lo_user (pool ?s a)" by (simp add: pool_withdraw)
    with c withdrawn_expired [OF tracked, of 0]
    show "lo_user (pool ?s a) \<and> lo_expirationTime (pool ?s a) = 0" by blast
  qed
  have D: "\<forall>S t. (\<exists>res. marketSell S t ?s = Some res) \<and> (\<exists>res. marketBuy S t ?s = Some res)"
  proof (intro allI conjI)
    fix S t
    from marketSell_inv [OF invs, of S t] show "\<exists>res. marketSell S t ?s = Some res" by blast
    from marketBuy_inv [OF invs, of S t] show "\<exists>res. marketBuy S t ?s = Some res" by blast
  qed
  have E: "\<forall>S t ou s'. marketSell S t ?s = Some (Inr (ou, s')) \<longrightarrow>
        balance s' = balance s0 \<and> sharesOpen s' = sharesOpen s0 \<and>
        userLimitOrders s' = [] \<and>
        (\<forall>r a. a \<in> set (lv r) \<and> lo_user (pool s0 a) \<longrightarrow>
           lo_size (pool s' a) = lo_size (pool s0 a) \<and>
           (0 < S \<and> bid s' \<le> r \<and> r \<le> bid s0 \<longrightarrow>
              a \<in> set (freeLimitOrders s') \<and> (\<forall>q as. level s' q as \<longrightarrow> a \<notin> set as)))"
    by (intro allI impI) (rule marketSell_after_withdrawal [OF inv tracked])
  have F: "\<forall>S t ou s'. marketBuy S t ?s = Some (Inr (ou, s')) \<longrightarrow>
        balance s' = balance s0 \<and> sharesOpen s' = sharesOpen s0 \<and>
        userLimitOrders s' = [] \<and>
        (\<forall>r a. a \<in> set (lv r) \<and> lo_user (pool s0 a) \<longrightarrow>
           lo_size (pool s' a) = lo_size (pool s0 a) \<and>
           (0 < S \<and> ask s0 \<le> r \<and> r \<le> ask s' \<longrightarrow>
              a \<in> set (freeLimitOrders s') \<and> (\<forall>q as. level s' q as \<longrightarrow> a \<notin> set as)))"
    by (intro allI impI) (rule marketBuy_after_withdrawal [OF inv tracked])
  show ?thesis by (rule conjI [OF A conjI [OF B conjI [OF C conjI [OF D conjI [OF E F]]]]])
qed

text \<open>The theorem on the book of the scenario, with the market sell of 3.\<close>

theorem C10_withdrawn_order_is_swept_witness:
  "slotInv 2 book5 lv5 \<and> lv5 100 = [1, 0] \<and> lo_user (pool book5 1) \<and>
   userLimitOrders book5 = [1] \<and> \<not> lo_user (pool book5 0) \<and> bid book5 = 100 \<and>
   lo_expirationTime (pool (withdrawUserLimitOrders book5) 1) = 0 \<and>
   level (withdrawUserLimitOrders book5) 100 [1, 0] \<and>
   (\<exists>s'. marketSell 3 1000 (withdrawUserLimitOrders book5) = Some (Inr (300, s')) \<and>
      balance s' = balance book5 \<and> sharesOpen s' = sharesOpen book5 \<and>
      userLimitOrders s' = [] \<and> lo_size (pool s' 1) = 10 \<and>
      1 \<in> set (freeLimitOrders s') \<and> level s' 100 [0] \<and> lo_size (pool s' 0) = 2)"
proof -
  note th = C10_withdrawn_order_is_swept [OF book5_slotInv book5_tracked]
  have m: "1 \<in> set (lv5 100) \<and> lo_user (pool book5 1)"
    using book5_facts(2) by (simp add: lv5_def)
  from th [THEN conjunct2, THEN conjunct1, rule_format, of 100]
  have l: "level (withdrawUserLimitOrders book5) 100 [1, 0]" by (simp add: lv5_def)
  from th [THEN conjunct2, THEN conjunct2, THEN conjunct1, rule_format, OF m]
  have x: "lo_expirationTime (pool (withdrawUserLimitOrders book5) 1) = 0" by simp
  from book5_withdrawn_sell obtain s' where
    r: "marketSell 3 1000 (withdrawUserLimitOrders book5) = Some (Inr (300, s'))"
    and b': "bid s' = 100" and h': "level s' 100 [0]"
    and z': "lo_size (pool s' 0) = 2" by blast
  note e = th [THEN conjunct2, THEN conjunct2, THEN conjunct2, THEN conjunct2,
      THEN conjunct1, rule_format, OF r]
  from e have led: "balance s' = balance book5" "sharesOpen s' = sharesOpen book5"
    "userLimitOrders s' = []" by simp_all
  from e [THEN conjunct2, THEN conjunct2, THEN conjunct2, rule_format, OF m]
  have s1: "lo_size (pool s' 1) = 10" and f1: "1 \<in> set (freeLimitOrders s')"
    using book5_facts by (simp_all add: b' book5_bid)
  from r led s1 f1 h' z'
  have mo: "\<exists>s'. marketSell 3 1000 (withdrawUserLimitOrders book5) = Some (Inr (300, s')) \<and>
      balance s' = balance book5 \<and> sharesOpen s' = sharesOpen book5 \<and>
      userLimitOrders s' = [] \<and> lo_size (pool s' 1) = 10 \<and>
      1 \<in> set (freeLimitOrders s') \<and> level s' 100 [0] \<and> lo_size (pool s' 0) = 2"
    by blast
  have basics: "slotInv 2 book5 lv5 \<and> lv5 100 = [1, 0] \<and> lo_user (pool book5 1) \<and>
   userLimitOrders book5 = [1] \<and> \<not> lo_user (pool book5 0) \<and> bid book5 = 100"
    using book5_slotInv book5_facts by (simp add: lv5_def book5_bid)
  from basics x l mo show ?thesis by (intro conjI) blast+
qed

section \<open>C9: a limit order of the user when the tracking list is full\<close>

text \<open>
  C9, as stated, fails. On the book with a hundred tracked orders and two free slots the
  user's limit buy, and likewise the limit sell, returns without a fault and leaves the
  book exactly as it was, which is also what the block does when the user has asked for
  no order at all: the order is dropped and the caller is told nothing.
\<close>

theorem C9_order_dropped_counterexample:
  "length (userLimitOrders book9) = MAX_NUM_USER_LIMIT_ORDERS \<and>
   freeLimitOrders book9 = [1, 0] \<and>
   userLimitOrder True False 7 7 book9 = Some (Inr book9) \<and>
   userLimitOrder False True 7 7 book9 = Some (Inr book9) \<and>
   userLimitOrder False False 7 7 book9 = Some (Inr book9)"
  by (simp add: userLimitOrder_def book9_facts MAX_NUM_USER_LIMIT_ORDERS_def)

text \<open>
  C9, amended: whenever the user submits a limit order while the tracking list holds
  \<open>MAX_NUM_USER_LIMIT_ORDERS\<close> orders, the block returns normally with the book
  unchanged, as it does when no order is submitted: the order is dropped and nothing is
  reported. The guard is what keeps \<open>addLimitOrder\<close> from writing past the end of the
  array \<open>userLimitOrders\<close>, which a call for the user would do in this state.
\<close>

theorem C9_full_list_drops_order:
  assumes full: "MAX_NUM_USER_LIMIT_ORDERS \<le> length (userLimitOrders s)"
  shows "userLimitOrder buyLimit sellLimit nb ns s = Some (Inr s) \<and>
     userLimitOrder buyLimit sellLimit nb ns s = userLimitOrder False False nb ns s \<and>
     (freeLimitOrders s \<noteq> [] \<longrightarrow>
        (\<forall>p sz e. addLimitOrder p sz e True s = Some (Inl OutOfBounds)))"
proof -
  from full have nf: "\<not> length (userLimitOrders s) < MAX_NUM_USER_LIMIT_ORDERS" by simp
  have "freeLimitOrders s \<noteq> [] \<longrightarrow>
        (\<forall>p sz e. addLimitOrder p sz e True s = Some (Inl OutOfBounds))"
    using full by (cases "freeLimitOrders s") (simp_all add: addLimitOrder_def)
  with nf show ?thesis by (simp add: userLimitOrder_def)
qed

theorem C9_full_list_drops_order_witness:
  "MAX_NUM_USER_LIMIT_ORDERS \<le> length (userLimitOrders book9) \<and>
   userLimitOrder True False 5 5 book9 = Some (Inr book9) \<and>
   addLimitOrder 100 5 ULLONG_MAX True book9 = Some (Inl OutOfBounds)"
proof -
  have full: "MAX_NUM_USER_LIMIT_ORDERS \<le> length (userLimitOrders book9)"
    by (simp add: book9_facts MAX_NUM_USER_LIMIT_ORDERS_def)
  from C9_full_list_drops_order [OF full, of True False 5 5]
  have a: "userLimitOrder True False 5 5 book9 = Some (Inr book9)"
    and b: "freeLimitOrders book9 \<noteq> [] \<longrightarrow>
        (\<forall>p sz e. addLimitOrder p sz e True book9 = Some (Inl OutOfBounds))"
    by simp_all
  from b have "addLimitOrder 100 5 ULLONG_MAX True book9 = Some (Inl OutOfBounds)"
    by (simp add: book9_facts)
  with a full show ?thesis by simp
qed

section \<open>C6: where a synthetic limit order is placed\<close>

text \<open>
  C6, as stated, fails. On the book with bid 500 and ask 505 a limit sell with the
  distance 2 is placed at 502, which is not above the ask, and \<open>ask\<close> becomes 502; a limit
  buy with the distance 2 is placed at 503, which is not below the bid, and \<open>bid\<close> becomes
  503. The distance is counted from the best price of the other side.
\<close>

theorem C6_limit_order_at_own_side_counterexample:
  "bid book6 = 500 \<and> ask book6 = 505 \<and>
   (\<exists>s'. orderCreation (LimitSell 2 7 1000) 10 book6 = Some (Inr s') \<and>
      limitOrderHead s' 502 = Some 0 \<and> lo_p (pool s' 0) = 502 \<and>
      \<not> ask book6 < lo_p (pool s' 0) \<and> ask s' = 502 \<and> bid s' = 500) \<and>
   (\<exists>s'. orderCreation (LimitBuy 2 7 1000) 10 book6 = Some (Inr s') \<and>
      limitOrderHead s' 503 = Some 0 \<and> lo_p (pool s' 0) = 503 \<and>
      \<not> lo_p (pool s' 0) < bid book6 \<and> bid s' = 503 \<and> ask s' = 505)"
  by (simp add: book6_def place_def book_eval upt_rec orderCreation_def limitSellPrice_def
      limitBuyPrice_def)

text \<open>
  C6, amended: the distance \<open>d\<close> drawn for a synthetic limit order is counted from the best
  price of the other side. A limit sell is placed at \<open>bid + d\<close>, above the bid, and
  afterwards \<open>ask\<close> is the smaller of the old \<open>ask\<close> and the new price and \<open>bid\<close> is
  unchanged; a limit buy is placed at \<open>ask - d\<close>, below the ask, and afterwards \<open>bid\<close> is
  the larger of the old \<open>bid\<close> and the new price and \<open>ask\<close> is unchanged. The prices are
  those of the 32-bit arithmetic of the code: \<open>bid + d\<close> exactly when the sum is below
  \<open>2 ^ 32\<close>, \<open>ask - d\<close> exactly when \<open>d\<close> is at most \<open>ask\<close>. The pool is partitioned and has a
  free slot \<open>lo\<close>, which becomes the new order, and the new price is inside the price
  range. The values drawn by \<open>rl\<close> are arguments; their distribution is not part of the
  model.
\<close>

theorem C6_limit_order_placement:
  assumes inv: "slotInv n s lv" and fr: "freeLimitOrders s = lo # fr"
  shows "(limitSellPrice d s < NUM_PRICES \<longrightarrow>
       (\<exists>s'. orderCreation (LimitSell d sz l) t s = Some (Inr s') \<and>
          (\<exists>as. level s' (limitSellPrice d s) as \<and> lo \<in> set as) \<and>
          lo_p (pool s' lo) = limitSellPrice d s \<and>
          ask s' = min (ask s) (limitSellPrice d s) \<and> bid s' = bid s)) \<and>
     (limitBuyPrice d s < NUM_PRICES \<longrightarrow>
       (\<exists>s'. orderCreation (LimitBuy d sz l) t s = Some (Inr s') \<and>
          (\<exists>as. level s' (limitBuyPrice d s) as \<and> lo \<in> set as) \<and>
          lo_p (pool s' lo) = limitBuyPrice d s \<and>
          bid s' = max (bid s) (limitBuyPrice d s) \<and> ask s' = ask s)) \<and>
     (unat (bid s) + unat d < 2 ^ 32 \<longrightarrow>
        unat (limitSellPrice d s) = unat (bid s) + unat d) \<and>
     (unat d \<le> unat (ask s) \<longrightarrow> unat (limitBuyPrice d s) = unat (ask s) - unat d)"
proof (intro conjI impI)
  assume p: "limitSellPrice d s < NUM_PRICES"
  let ?p = "limitSellPrice d s"
  let ?as = "if fillTiesInStackOrder s then lo # lv ?p else lv ?p @ [lo]"
  from orderCreation_sell [OF inv fr p, of sz l t] obtain s' where
    r: "orderCreation (LimitSell d sz l) t s = Some (Inr s')"
    and i: "slotInv n s' (lv(?p := ?as))"
    and f: "lo_p (pool s' lo) = ?p" "ask s' = min (ask s) ?p" "bid s' = bid s"
    by blast
  from i have "level s' ?p ((lv(?p := ?as)) ?p)" by (rule slotInv_level)
  then have "level s' ?p ?as" by simp
  moreover have "lo \<in> set ?as" by simp
  ultimately have "\<exists>as. level s' ?p as \<and> lo \<in> set as" by blast
  with r f show "\<exists>s'. orderCreation (LimitSell d sz l) t s = Some (Inr s') \<and>
          (\<exists>as. level s' ?p as \<and> lo \<in> set as) \<and> lo_p (pool s' lo) = ?p \<and>
          ask s' = min (ask s) ?p \<and> bid s' = bid s"
    by blast
next
  assume p: "limitBuyPrice d s < NUM_PRICES"
  let ?p = "limitBuyPrice d s"
  let ?as = "if fillTiesInStackOrder s then lo # lv ?p else lv ?p @ [lo]"
  from orderCreation_buy [OF inv fr p, of sz l t] obtain s' where
    r: "orderCreation (LimitBuy d sz l) t s = Some (Inr s')"
    and i: "slotInv n s' (lv(?p := ?as))"
    and f: "lo_p (pool s' lo) = ?p" "bid s' = max (bid s) ?p" "ask s' = ask s"
    by blast
  from i have "level s' ?p ((lv(?p := ?as)) ?p)" by (rule slotInv_level)
  then have "level s' ?p ?as" by simp
  moreover have "lo \<in> set ?as" by simp
  ultimately have "\<exists>as. level s' ?p as \<and> lo \<in> set as" by blast
  with r f show "\<exists>s'. orderCreation (LimitBuy d sz l) t s = Some (Inr s') \<and>
          (\<exists>as. level s' ?p as \<and> lo \<in> set as) \<and> lo_p (pool s' lo) = ?p \<and>
          bid s' = max (bid s) ?p \<and> ask s' = ask s"
    by blast
next
  assume "unat (bid s) + unat d < 2 ^ 32"
  then show "unat (limitSellPrice d s) = unat (bid s) + unat d" by (rule limitSellPrice_nat)
next
  assume "unat d \<le> unat (ask s)"
  then show "unat (limitBuyPrice d s) = unat (ask s) - unat d" by (rule limitBuyPrice_nat)
qed

theorem C6_limit_order_placement_witness:
  "slotInv 3 book6 ((\<lambda>_. [])(500 := [2], 505 := [1])) \<and> freeLimitOrders book6 = [0] \<and>
   limitSellPrice 2 book6 < NUM_PRICES \<and> limitBuyPrice 2 book6 < NUM_PRICES \<and>
   unat (bid book6) + unat (2 :: u64) < 2 ^ 32 \<and> unat (2 :: u64) \<le> unat (ask book6) \<and>
   (\<exists>s'. orderCreation (LimitSell 2 7 1000) 10 book6 = Some (Inr s') \<and>
      lo_p (pool s' 0) = 502 \<and> ask s' = 502 \<and> bid s' = 500) \<and>
   (\<exists>s'. orderCreation (LimitBuy 2 7 1000) 10 book6 = Some (Inr s') \<and>
      lo_p (pool s' 0) = 503 \<and> bid s' = 503 \<and> ask s' = 505) \<and>
   unat (limitSellPrice 2 book6) = 502 \<and> unat (limitBuyPrice 2 book6) = 503"
proof -
  have h: "limitSellPrice 2 book6 < NUM_PRICES" "limitBuyPrice 2 book6 < NUM_PRICES"
    "unat (bid book6) + unat (2 :: u64) < 2 ^ 32" "unat (2 :: u64) \<le> unat (ask book6)"
    by (simp_all add: book6_facts NUM_PRICES_def)
  note th = C6_limit_order_placement [OF book6_slotInv book6_facts(1), of 2 7 1000 10]
  from th h(1) have a: "\<exists>s'. orderCreation (LimitSell 2 7 1000) 10 book6 = Some (Inr s') \<and>
      lo_p (pool s' 0) = 502 \<and> ask s' = 502 \<and> bid s' = 500"
    by (auto simp: book6_facts)
  from th h(2) have b: "\<exists>s'. orderCreation (LimitBuy 2 7 1000) 10 book6 = Some (Inr s') \<and>
      lo_p (pool s' 0) = 503 \<and> bid s' = 503 \<and> ask s' = 505"
    by (auto simp: book6_facts)
  have c: "unat (limitSellPrice 2 book6) = 502" "unat (limitBuyPrice 2 book6) = 503"
    by (simp_all add: book6_facts)
  from a b c h book6_slotInv book6_facts(1) show ?thesis by blast
qed

section \<open>C1: bid below ask, and the levels at bid and ask\<close>

text \<open>
  C1, as stated, fails. With the settings of main.c (a pool of 1000000 slots, the bid
  at 500, the spread 1, orders of size 8) and lifespans of 1000, the market is set up at
  time 1000 and the first frame runs: the sweep, then \<open>updateBidAndAsk\<close>. The first
  order creation, at time 1000, is a market buy of size 80, which is the whole level at
  the ask, 501. The engine is then in a state where \<open>bid\<close> is 500 and \<open>ask\<close> is 501,
  and the level at \<open>ask\<close> is empty: \<open>marketBuy\<close> does not look for the next level, and
  \<open>updateBidAndAsk\<close> runs only at the start of a frame.
\<close>

theorem C1_ask_level_emptied_counterexample:
  "\<exists>s. engine 1000000 False True 500 1 8 1000 (\<lambda>p k. 1000)
          [Sweep 1000, Refresh, Creation (MarketBuy 80) 1000] = Some (Inr s) \<and>
       bid s = 500 \<and> ask s = 501 \<and> limitOrderHead s (ask s) = None"
proof -
  let ?life = "(\<lambda>p k. 1000) :: u32 \<Rightarrow> nat \<Rightarrow> u64"
  from first_frame obtain s0 s lv where
    r0: "setupMarket 500 1 8 1000 ?life (setupBook 1000000 False True) = Some (Inr s0)"
    and sw: "updateAllLimitOrders 0 1000 s0 = Some (Inr s)" and rf: "updateBidAndAsk s = Inr s"
    and i: "slotInv 1000000 s lv" and m: "made 8 1000 ?life s lv"
    and bs: "bid s = 500" and as: "ask s = 501" and la: "length (lv 501) = 10"
    by blast
  have fr: "\<forall>k. (1000::u64) < 1000 + ?life (ask s) k" by simp
  from made_live [OF m fr] la as have q: "liveQty s lv 1000 (ask s) = unat (80::u32)" by simp
  have p: "ask s < NUM_PRICES" by (simp add: as NUM_PRICES_def)
  from la have "lv 501 \<noteq> []" by auto
  with slotInv_level [OF i, of 501] as have hd: "limitOrderHead s (ask s) \<noteq> None"
    by (simp add: level_head)
  have S: "(0::u32) < 80" by simp
  from exact_buy_empties [OF i p hd S q] obtain ou s' where
    mb: "marketBuy 80 1000 s = Some (Inr (ou, s'))"
    and b': "bid s' = bid s" and a': "ask s' = ask s"
    and e': "limitOrderHead s' (ask s) = None"
    by blast
  have "engine 1000000 False True 500 1 8 1000 ?life
          [Sweep 1000, Refresh, Creation (MarketBuy 80) 1000] = Some (Inr s')"
    using r0 sw rf mb by (simp add: engine_def orderCreation_def)
  with b' a' e' bs as show ?thesis by simp
qed

text \<open>
  C1, as the code has it. The market is set up with the bid above 10 and the ask, which
  is the bid plus a positive spread, below \<open>NUM_PRICES\<close>; the distances of the synthetic
  limit orders are at least 1 and below \<open>2 ^ 31\<close>. Then every run of events ends, in a
  fault or in a state; in every state reached, \<open>bid\<close> is below \<open>ask\<close>, \<open>ask\<close> is a
  price of the book and the pool is partitioned; and in the state right after the market
  setup and in every state right after \<open>updateBidAndAsk\<close>, the level at \<open>bid\<close> and the
  level at \<open>ask\<close> each hold an order. The market setup itself ends in a state, not in a
  fault, when the pool has 220 slots and the ask plus 10 is below \<open>NUM_PRICES\<close>.
\<close>

theorem C1_bid_below_ask:
  assumes "10 < b" and "0 < spread" and "unat b + unat spread < unat NUM_PRICES"
    and "\<forall>e \<in> set es. drawn e"
  shows "(\<exists>r. engine n st re b spread sz t0 life es = Some r \<and>
       (\<forall>s. r = Inr s \<longrightarrow> bid s < ask s \<and> ask s < NUM_PRICES \<and> (\<exists>lv. slotInv n s lv) \<and>
          (es = [] \<or> last es = Refresh \<longrightarrow>
             limitOrderHead s (bid s) \<noteq> None \<and> limitOrderHead s (ask s) \<noteq> None))) \<and>
     (220 \<le> n \<and> unat b + unat spread + 10 < unat NUM_PRICES \<longrightarrow>
        (\<exists>s. engine n st re b spread sz t0 life [] = Some (Inr s)))"
proof -
  from setupMarket_built [OF assms(1-3), of sz t0 life n st re]
  have t: "220 \<le> n \<and> unat b + unat spread + 10 < unat NUM_PRICES \<longrightarrow>
        (\<exists>s. engine n st re b spread sz t0 life [] = Some (Inr s))"
    by (auto simp: engine_def)
  note i = engine_inv [OF assms, of n st re sz t0 life]
  show ?thesis by (rule conjI [OF i t])
qed

text \<open>
  The theorem on the first frame of the engine with the settings of main.c: after the
  sweep and \<open>updateBidAndAsk\<close>, \<open>bid\<close> is below \<open>ask\<close> and both levels hold an order.
\<close>

theorem C1_bid_below_ask_witness:
  "\<exists>s. engine 1000000 False True 500 1 8 1000 (\<lambda>p k. 1000) [Sweep 1000, Refresh] = Some (Inr s) \<and>
       bid s < ask s \<and> ask s < NUM_PRICES \<and> (\<exists>lv. slotInv 1000000 s lv) \<and>
       limitOrderHead s (bid s) \<noteq> None \<and> limitOrderHead s (ask s) \<noteq> None"
proof -
  let ?life = "(\<lambda>p k. 1000) :: u32 \<Rightarrow> nat \<Rightarrow> u64"
  let ?es = "[Sweep 1000, Refresh]"
  have N: "unat NUM_PRICES = 100000" by (simp add: NUM_PRICES_def)
  have h: "(10::u32) < 500" "(0::u32) < 1"
    "unat (500::u32) + unat (1::u32) < unat NUM_PRICES" "\<forall>e \<in> set ?es. drawn e"
    by (simp_all add: N)
  from first_frame obtain s0 s where
    r0: "setupMarket 500 1 8 1000 ?life (setupBook 1000000 False True) = Some (Inr s0)"
    and sw: "updateAllLimitOrders 0 1000 s0 = Some (Inr s)" and rf: "updateBidAndAsk s = Inr s"
    by blast
  then have e: "engine 1000000 False True 500 1 8 1000 ?life ?es = Some (Inr s)"
    by (simp add: engine_def)
  from C1_bid_below_ask [OF h, of 1000000 False True 8 1000 ?life, THEN conjunct1] e
  show ?thesis by simp
qed

end
